(* ===== verification/Sir_Prelude.thy ===== *)
theory Sir_Prelude
  imports Complex_Main "HOL-Library.AList"
begin

text \<open>
  Vocabulary shared by the component theories: the time type, the pieces of Python's
  standard library the router uses (\<open>max\<close> with a key, \<open>deque(maxlen=..)\<close>,
  \<open>str.strip\<close>, \<open>str.split\<close>), scores extended with minus infinity, and generic lemmas on
  lists and association lists.

  Python floats are modelled as rational numbers: every finite double is a rational, and
  comparisons, \<open>max\<close> and \<open>min\<close> are exact. Rounding of sums and products is not modelled.
  A Python \<open>dict\<close> whose iteration order matters is an association list updated with
  \<open>AList.update\<close>, which keeps the position of an existing key and appends a new one, as
  the dict does. A dict that is only looked up is a map.
\<close>

named_theorems policy_simps
named_theorems queue_simps
named_theorems engine_simps
named_theorems job_simps

type_synonym seconds = rat
type_synonym rid = string

subsection \<open>Python's max with a key\<close>

text \<open>
  \<open>max(xs, key=f)\<close> returns the first element with the greatest key and raises on an empty
  argument (here \<open>None\<close>).
\<close>

fun max_from :: "('a \<Rightarrow> 'b::linorder) \<Rightarrow> 'a \<Rightarrow> 'a list \<Rightarrow> 'a" where
  "max_from f b [] = b"
| "max_from f b (x # xs) = max_from f (if f b < f x then x else b) xs"

fun py_max :: "('a \<Rightarrow> 'b::linorder) \<Rightarrow> 'a list \<Rightarrow> 'a option" where
  "py_max f [] = None"
| "py_max f (x # xs) = Some (max_from f x xs)"

lemma max_from_in: "max_from f b xs \<in> insert b (set xs)"
  by (induction xs arbitrary: b) (auto split: if_splits)

lemma max_from_ge_start: "f b \<le> f (max_from f b xs)"
proof (induction xs arbitrary: b)
  case Nil
  then show ?case by simp
next
  case (Cons x xs)
  show ?case
  proof (cases "f b < f x")
    case True
    then show ?thesis using Cons.IH [of x] by simp
  next
    case False
    then show ?thesis using Cons.IH [of b] by simp
  qed
qed

lemma max_from_ge: "x \<in> set xs \<Longrightarrow> f x \<le> f (max_from f b xs)"
proof (induction xs arbitrary: b)
  case Nil
  then show ?case by simp
next
  case (Cons y ys)
  show ?case
  proof (cases "x = y")
    case True
    have "f y \<le> f (if f b < f y then y else b)" by (simp add: not_less)
    also have "\<dots> \<le> f (max_from f (if f b < f y then y else b) ys)"
      by (rule max_from_ge_start)
    finally show ?thesis using True by simp
  next
    case False
    then show ?thesis using Cons by simp
  qed
qed

lemma py_max_Some_iff [simp]: "py_max f xs = None \<longleftrightarrow> xs = []"
  by (cases xs) auto

lemma py_max_in: "py_max f xs = Some x \<Longrightarrow> x \<in> set xs"
  using max_from_in by (cases xs) fastforce+

lemma py_max_ge: "py_max f xs = Some x \<Longrightarrow> y \<in> set xs \<Longrightarrow> f y \<le> f x"
  using max_from_ge max_from_ge_start by (cases xs) fastforce+

lemma py_max_obtain:
  assumes "xs \<noteq> []"
  obtains x where "py_max f xs = Some x" and "x \<in> set xs" and "\<And>y. y \<in> set xs \<Longrightarrow> f y \<le> f x"
proof -
  from assms obtain x where "py_max f xs = Some x"
    by (cases "py_max f xs") auto
  with that py_max_in py_max_ge show thesis by metis
qed

subsection \<open>Bounded deques\<close>

text \<open>\<open>deque(maxlen=n).append(x)\<close>: the oldest entry falls off the left end.\<close>

definition push_bounded :: "nat \<Rightarrow> 'a \<Rightarrow> 'a list \<Rightarrow> 'a list" where
  "push_bounded n x xs = (let ys = xs @ [x] in drop (length ys - n) ys)"

lemma length_push_bounded: "length (push_bounded n x xs) \<le> n"
  by (simp add: push_bounded_def Let_def)

lemma last_push_bounded: "0 < n \<Longrightarrow> push_bounded n x xs \<noteq> [] \<and> last (push_bounded n x xs) = x"
  by (simp add: push_bounded_def Let_def last_drop)

subsection \<open>Strings\<close>

text \<open>Characters stand for the code points below 256; \<open>py_space\<close> is \<open>str.isspace\<close> on them.\<close>

definition py_space :: "char \<Rightarrow> bool" where
  "py_space c \<longleftrightarrow> (let n = of_char c :: nat in
     (9 \<le> n \<and> n \<le> 13) \<or> (28 \<le> n \<and> n \<le> 32) \<or> n = 133 \<or> n = 160)"

definition py_lstrip :: "string \<Rightarrow> string" where
  "py_lstrip s = dropWhile py_space s"

definition py_strip :: "string \<Rightarrow> string" where
  "py_strip s = rev (dropWhile py_space (rev (py_lstrip s)))"

text \<open>\<open>s.split(sep)\<close> for a one-character separator.\<close>

fun py_split :: "char \<Rightarrow> string \<Rightarrow> string list" where
  "py_split c [] = [[]]"
| "py_split c (x # xs) =
     (if x = c then [] # py_split c xs
      else (case py_split c xs of [] \<Rightarrow> [[x]] | w # ws \<Rightarrow> (x # w) # ws))"

text \<open>Decimal rendering of a natural number, as \<open>str(n)\<close>.\<close>

fun show_nat :: "nat \<Rightarrow> string" where
  "show_nat n = (if n < 10 then [char_of (48 + n)] else show_nat (n div 10) @ [char_of (48 + n mod 10)])"

declare show_nat.simps [simp del]

text \<open>\<open>str.lower\<close> and \<open>repr\<close> on these characters.\<close>

definition py_lower_char :: "char \<Rightarrow> char" where
  "py_lower_char c = (let n = of_char c :: nat in
     if (65 \<le> n \<and> n \<le> 90) \<or> (192 \<le> n \<and> n \<le> 222 \<and> n \<noteq> 215) then char_of (n + 32) else c)"

definition py_lower :: "string \<Rightarrow> string" where
  "py_lower s = map py_lower_char s"

definition hex_digit :: "nat \<Rightarrow> char" where
  "hex_digit n = char_of (if n < 10 then 48 + n else 87 + n)"

definition py_repr_char :: "char \<Rightarrow> char \<Rightarrow> string" where
  "py_repr_char quote c = (let n = of_char c :: nat in
     if c = quote \<or> n = 92 then [CHR 0x5C, c]
     else if n = 9 then [CHR 0x5C, CHR ''t''] else if n = 10 then [CHR 0x5C, CHR ''n'']
     else if n = 13 then [CHR 0x5C, CHR ''r'']
     else if n < 32 \<or> (127 \<le> n \<and> n \<le> 160) \<or> n = 173
     then [CHR 0x5C, CHR ''x'', hex_digit (n div 16), hex_digit (n mod 16)] else [c])"

definition py_repr :: "string \<Rightarrow> string" where
  "py_repr s = (let quote = (if CHR 0x27 \<in> set s \<and> CHR 0x22 \<notin> set s then CHR 0x22 else CHR 0x27)
     in quote # concat (map (py_repr_char quote) s) @ [quote])"

text \<open>\<open>round(x)\<close>: to the nearest integer, halves to the even one.\<close>

definition py_round :: "rat \<Rightarrow> int" where
  "py_round x = (let f = \<lfloor>x\<rfloor>; d = x - of_int f in
     if d < 1 / 2 then f else if 1 / 2 < d then f + 1 else if even f then f else f + 1)"

text \<open>\<open>str(n)\<close> for integers, and \<open>format(x, ".0f")\<close>.\<close>

definition show_int :: "int \<Rightarrow> string" where
  "show_int n = (if n < 0 then CHR ''-'' # show_nat (nat (- n)) else show_nat (nat n))"

definition show_rounded :: "rat \<Rightarrow> string" where
  "show_rounded x = show_int (py_round x)"

subsection \<open>Scores: rationals with minus infinity\<close>

text \<open>\<open>float("-inf")\<close> is the score of a model that is not in the running.\<close>

datatype score = NegInf | Fin rat

instantiation score :: linorder
begin

fun less_eq_score :: "score \<Rightarrow> score \<Rightarrow> bool" where
  "less_eq_score NegInf s = True"
| "less_eq_score (Fin a) NegInf = False"
| "less_eq_score (Fin a) (Fin b) = (a \<le> b)"

fun less_score :: "score \<Rightarrow> score \<Rightarrow> bool" where
  "less_score s NegInf = False"
| "less_score NegInf (Fin b) = True"
| "less_score (Fin a) (Fin b) = (a < b)"

instance
proof
  fix x y z :: score
  show "(x < y) = (x \<le> y \<and> \<not> y \<le> x)" by (cases x; cases y) auto
  show "x \<le> x" by (cases x) auto
  show "x \<le> y \<Longrightarrow> y \<le> z \<Longrightarrow> x \<le> z" by (cases x; cases y; cases z) auto
  show "x \<le> y \<Longrightarrow> y \<le> x \<Longrightarrow> x = y" by (cases x; cases y) auto
  show "x \<le> y \<or> y \<le> x" by (cases x; cases y) auto
qed

end

subsection \<open>Lists\<close>

lemma find_map_key:
  assumes "distinct (map f xs)" and "x \<in> set xs"
  shows "List.find (\<lambda>y. f y = f x) xs = Some x"
  using assms
proof (induction xs)
  case Nil
  then show ?case by simp
next
  case (Cons y ys)
  then show ?case by (cases "x = y") (auto simp: image_iff)
qed

lemma find_SomeD: "List.find P xs = Some x \<Longrightarrow> x \<in> set xs \<and> P x"
  by (induction xs) (auto split: if_splits)

lemma find_NoneD: "List.find P xs = None \<Longrightarrow> x \<in> set xs \<Longrightarrow> \<not> P x"
  by (induction xs) (auto split: if_splits)

lemma map_of_update [simp]:
  "map_of (AList.update k v al) k' = (if k' = k then Some v else map_of al k')"
  by (simp add: update_conv')

lemma update_keys_mem:
  "k \<in> fst ` set al \<Longrightarrow> map fst (AList.update k v al) = map fst al"
  by (simp add: update_keys)

end
