(* ===== verification/Sir_Types.thy ===== *)
theory Sir_Types
  imports Sir_Prelude
begin

text \<open>
  The shared vocabulary of \<open>src/src/sir/types.py\<close>: requests and stream events, the
  snapshot the policy reads (\<open>ModelState\<close>, \<open>SchedulerSnapshot\<close>), and what the policy
  returns (\<open>Decision\<close>, \<open>WaitEstimate\<close>). Record fields carry a short prefix of the class
  name, since several classes share field names. The \<open>format\<close> methods, which only render
  log lines, are not modelled.
\<close>

subsection \<open>Requests and stream events\<close>

text \<open>A JSON value, the \<open>Any\<close> of a request payload.\<close>

datatype json =
  JNull
| JBool bool
| JInt int
| JFloat rat
| JStr string
| JList "json list"
| JObj "(string \<times> json) list"

datatype py_error =
  ValueError string | TypeError string | KeyError string | IndexError | AttributeError string | ZeroDivisionError

record generation_request =
  gr_model :: string
  gr_served_model :: string
  gr_payload :: "(string \<times> json) list"
  gr_request_id :: string

text \<open>Python's \<open>bool(value)\<close>.\<close>

fun truthy :: "json \<Rightarrow> bool" where
  "truthy JNull = False"
| "truthy (JBool b) = b"
| "truthy (JInt i) = (i \<noteq> 0)"
| "truthy (JFloat x) = (x \<noteq> 0)"
| "truthy (JStr s) = (s \<noteq> [])"
| "truthy (JList xs) = (xs \<noteq> [])"
| "truthy (JObj kvs) = (kvs \<noteq> [])"

text \<open>\<open>dict.get(key)\<close>: a missing key and an explicit \<open>None\<close> read the same.\<close>

definition payload_get :: "(string \<times> json) list \<Rightarrow> string \<Rightarrow> json" where
  "payload_get p k = (case map_of p k of Some v \<Rightarrow> v | None \<Rightarrow> JNull)"

text \<open>Python's \<open>int(value)\<close> on strings: optional sign, digits with single underscores between.\<close>

definition digit_val :: "char \<Rightarrow> int option" where
  "digit_val c = (let n = of_char c :: int in if 48 \<le> n \<and> n \<le> 57 then Some (n - 48) else None)"

fun int_digits :: "int \<Rightarrow> bool \<Rightarrow> string \<Rightarrow> int option" where
  "int_digits acc d [] = (if d then Some acc else None)"
| "int_digits acc d (c # cs) =
     (case digit_val c of
        Some v \<Rightarrow> int_digits (acc * 10 + v) True cs
      | None \<Rightarrow> if c = CHR ''_'' \<and> d then int_digits acc False cs else None)"

definition py_int_of_string :: "string \<Rightarrow> int option" where
  "py_int_of_string s =
     (case py_strip s of
        [] \<Rightarrow> None
      | c # cs \<Rightarrow>
          if c = CHR ''-'' then map_option uminus (int_digits 0 False cs)
          else if c = CHR ''+'' then int_digits 0 False cs
          else int_digits 0 False (c # cs))"

fun py_int :: "json \<Rightarrow> py_error + int" where
  "py_int (JBool b) = Inr (if b then 1 else 0)"
| "py_int (JInt i) = Inr i"
| "py_int (JFloat x) = Inr (if 0 \<le> x then \<lfloor>x\<rfloor> else \<lceil>x\<rceil>)"
| "py_int (JStr s) =
     (case py_int_of_string s of Some i \<Rightarrow> Inr i | None \<Rightarrow> Inl (ValueError ''invalid literal for int()''))"
| "py_int _ = Inl (TypeError ''int() argument'')"

definition gr_max_tokens :: "generation_request \<Rightarrow> py_error + int option" where
  "gr_max_tokens r =
     (let value = payload_get (gr_payload r) ''max_completion_tokens'';
          value = (if value = JNull then payload_get (gr_payload r) ''max_tokens'' else value)
      in if value = JNull then Inr None
         else (case py_int value of Inl e \<Rightarrow> Inl e | Inr i \<Rightarrow> Inr (Some i)))"

definition gr_stream :: "generation_request \<Rightarrow> bool" where
  "gr_stream r = truthy (case map_of (gr_payload r) ''stream'' of Some v \<Rightarrow> v | None \<Rightarrow> JBool False)"

type_synonym usage = "(string \<times> int) list"

text \<open>\<open>StreamEvent = Chunk | StreamEnd | StreamError\<close>, the fields in the source's order.\<close>

datatype stream_event =
  Chunk string nat
| StreamEnd string "usage option"
| StreamError string int

fun is_chunk :: "stream_event \<Rightarrow> bool" where
  "is_chunk (Chunk _ _) = True"
| "is_chunk _ = False"

datatype request_state = QUEUED | RUNNING | DONE | FAILED | CANCELLED

fun request_state_value :: "request_state \<Rightarrow> string" where
  "request_state_value QUEUED = ''queued''"
| "request_state_value RUNNING = ''running''"
| "request_state_value DONE = ''done''"
| "request_state_value FAILED = ''failed''"
| "request_state_value CANCELLED = ''cancelled''"

text \<open>
  \<open>qr_events\<close> lists what was put on the unbounded \<open>asyncio.Queue\<close>, in order; its one reader
  keeps its own position in it. \<open>qr_cancelled\<close> is the state of the \<open>asyncio.Event\<close>. The
  object is shared by the queues, the engine's tasks, the job store and the API; sharing is
  modelled by a store from request ids to these records.
\<close>

record queued_request =
  qr_request :: generation_request
  qr_enqueued_at :: seconds
  qr_events :: "stream_event list"
  qr_cancelled :: bool
  qr_state :: request_state
  qr_started_at :: "seconds option"
  qr_finished_at :: "seconds option"

type_synonym store = "rid \<rightharpoonup> queued_request"

definition qr_model :: "queued_request \<Rightarrow> string" where
  "qr_model q = gr_model (qr_request q)"

definition qr_wait_time :: "queued_request \<Rightarrow> seconds \<Rightarrow> seconds" where
  "qr_wait_time q now = (case qr_started_at q of Some t \<Rightarrow> t | None \<Rightarrow> now) - qr_enqueued_at q"

definition qr_cancel :: "queued_request \<Rightarrow> queued_request" where
  "qr_cancel q = q\<lparr>qr_cancelled := True\<rparr>"

text \<open>\<open>QueuedRequest(request=.., enqueued_at=..)\<close> with the dataclass defaults.\<close>

definition new_queued_request :: "generation_request \<Rightarrow> seconds \<Rightarrow> queued_request" where
  "new_queued_request r t =
     \<lparr>qr_request = r, qr_enqueued_at = t, qr_events = [], qr_cancelled = False,
      qr_state = QUEUED, qr_started_at = None, qr_finished_at = None\<rparr>"

subsection \<open>What the policy reads\<close>

record model_state =
  ms_name :: string
  ms_priority :: rat
  ms_depth :: nat
  ms_oldest_enqueued_at :: "seconds option"
  ms_estimated_load_seconds :: seconds
  ms_resident :: bool
  ms_resident_since :: "seconds option"
  ms_in_flight :: nat
  ms_idle_since :: "seconds option"
  ms_unavailable_until :: "seconds option"

definition has_pending :: "model_state \<Rightarrow> bool" where
  "has_pending s \<longleftrightarrow> ms_depth s > 0"

definition is_busy :: "model_state \<Rightarrow> bool" where
  "is_busy s \<longleftrightarrow> ms_depth s > 0 \<or> ms_in_flight s > 0"

definition idle_for :: "model_state \<Rightarrow> seconds \<Rightarrow> seconds" where
  "idle_for s now = (case ms_idle_since s of None \<Rightarrow> 0 | Some t \<Rightarrow> max 0 (now - t))"

definition oldest_wait :: "model_state \<Rightarrow> seconds \<Rightarrow> seconds" where
  "oldest_wait s now = (case ms_oldest_enqueued_at s of None \<Rightarrow> 0 | Some t \<Rightarrow> max 0 (now - t))"

definition is_available :: "model_state \<Rightarrow> seconds \<Rightarrow> bool" where
  "is_available s now \<longleftrightarrow>
     (case ms_unavailable_until s of None \<Rightarrow> True | Some t \<Rightarrow> t \<le> now)"

record scheduler_snapshot =
  ss_models :: "model_state list"
  ss_resident :: "string option"
  ss_draining :: bool
  ss_switching :: bool

definition by_name :: "scheduler_snapshot \<Rightarrow> string \<Rightarrow> model_state option" where
  "by_name s n = List.find (\<lambda>m. ms_name m = n) (ss_models s)"

text \<open>\<open>self.by_name(self.resident) if self.resident else None\<close>: an empty name is falsy.\<close>

definition resident_state :: "scheduler_snapshot \<Rightarrow> model_state option" where
  "resident_state s =
     (case ss_resident s of None \<Rightarrow> None | Some r \<Rightarrow> if r = [] then None else by_name s r)"

record wait_estimate =
  we_position :: nat
  we_resident :: bool
  we_needs_swap :: bool
  we_load_seconds :: seconds
  we_dispatch_within_seconds :: "seconds option"
  we_estimated_seconds :: seconds
  we_retry_after :: seconds

subsection \<open>What the policy returns\<close>

datatype decision_kind = IDLE | SERVE | HOLD | SWITCH

datatype decision_reason =
  NO_WORK | COLD_START | STARVATION | MIN_RESIDENCY | RESIDENT_WINS | CHALLENGER_WINS
| RESIDENT_IDLE | BACKEND_UNAVAILABLE | IN_TRANSITION

record score_breakdown =
  sb_model :: string
  sb_priority :: rat
  sb_depth :: nat
  sb_oldest_wait :: seconds
  sb_age_term :: rat
  sb_depth_term :: rat
  sb_switch_cost :: rat
  sb_score :: score
  sb_eligible :: bool
  sb_note :: string

record decision =
  dc_kind :: decision_kind
  dc_reason :: decision_reason
  dc_at :: seconds
  dc_resident :: "string option"
  dc_target :: "string option"
  dc_scores :: "score_breakdown list"

definition is_swap :: "decision \<Rightarrow> bool" where
  "is_swap d \<longleftrightarrow> dc_kind d = SWITCH \<and> dc_resident d \<noteq> None"

subsection \<open>Lifecycle events\<close>

datatype event_kind =
  EV_ENQUEUE | EV_DISPATCH | EV_COMPLETE | EV_CANCELLED | EV_FAILED | EV_DRAIN_START
| EV_DRAIN_END | EV_LOAD_START | EV_LOAD_END | EV_LOAD_FAILED | EV_UNLOAD | EV_CRASH

record engine_event =
  ee_at :: seconds
  ee_kind :: event_kind
  ee_model :: string
  ee_detail :: string
  ee_duration :: "seconds option"

subsection \<open>Elementary facts\<close>

lemma oldest_wait_nonneg [simp]: "0 \<le> oldest_wait s now"
  by (simp add: oldest_wait_def split: option.splits)

lemma idle_for_nonneg [simp]: "0 \<le> idle_for s now"
  by (simp add: idle_for_def split: option.splits)

lemma by_name_SomeD: "by_name s n = Some m \<Longrightarrow> m \<in> set (ss_models s) \<and> ms_name m = n"
  unfolding by_name_def by (rule find_SomeD)

lemma resident_stateD:
  "resident_state s = Some m \<Longrightarrow> m \<in> set (ss_models s) \<and> ss_resident s = Some (ms_name m)"
  by (auto simp: resident_state_def split: option.splits if_splits dest: by_name_SomeD)

lemma by_name_mem:
  "distinct (map ms_name (ss_models s)) \<Longrightarrow> m \<in> set (ss_models s) \<Longrightarrow> by_name s (ms_name m) = Some m"
  unfolding by_name_def by (rule find_map_key)

end
