(* ===== verification/Sir_Config.thy ===== *)
theory Sir_Config
  imports Sir_Types "HOL-Library.Multiset"
begin

text \<open>
  The configuration objects of \<open>src/src/sir/config.py\<close>: each pydantic model is a record, its
  field bounds and its \<open>model_validator\<close> a checker that returns the first violated rule.
  Reading the YAML file (\<open>load_config\<close>) is I/O through a third-party parser and is not
  modelled; the records are what pydantic has parsed the types of.
\<close>

datatype config_error =
  OutOfRange string
| NeedsContainer
| EmptyServedName string
| CeilingBelowHysteresis seconds seconds
| LeaseWithinSweep seconds seconds
| NoModels
| DuplicateModelName string
| DuplicateServedName string string string

text \<open>Checks run in order; the first error wins.\<close>

fun first_error :: "(bool \<times> config_error) list \<Rightarrow> config_error option" where
  "first_error [] = None"
| "first_error ((ok, e) # cs) = (if ok then first_error cs else Some e)"

lemma first_error_None: "first_error cs = None \<longleftrightarrow> (\<forall>c \<in> set cs. fst c)"
  by (induction cs rule: first_error.induct) auto

subsection \<open>Backend parameters\<close>

record vllm_params =
  vp_base_url :: string
  vp_health_path :: string
  vp_manage_lifecycle :: bool
  vp_container_name :: "string option"
  vp_docker_socket :: string
  vp_start_timeout_seconds :: seconds
  vp_ready_poll_seconds :: seconds
  vp_stop_timeout_seconds :: seconds
  vp_connect_timeout_seconds :: seconds
  vp_stream_stall_seconds :: seconds
  vp_estimated_load_seconds :: seconds
  vp_estimated_request_seconds :: seconds

definition default_vllm_params :: vllm_params where
  "default_vllm_params =
     \<lparr>vp_base_url = ''http://vllm:8000'', vp_health_path = ''/health'',
      vp_manage_lifecycle = False, vp_container_name = None,
      vp_docker_socket = ''/var/run/docker.sock'',
      vp_start_timeout_seconds = 900, vp_ready_poll_seconds = 2,
      vp_stop_timeout_seconds = 120, vp_connect_timeout_seconds = 10,
      vp_stream_stall_seconds = 300, vp_estimated_load_seconds = 310,
      vp_estimated_request_seconds = 8\<rparr>"

definition check_vllm_params :: "vllm_params \<Rightarrow> config_error option" where
  "check_vllm_params p = first_error
     [(0 < vp_start_timeout_seconds p, OutOfRange ''start_timeout_seconds''),
      (0 < vp_ready_poll_seconds p, OutOfRange ''ready_poll_seconds''),
      (0 < vp_stop_timeout_seconds p, OutOfRange ''stop_timeout_seconds''),
      (0 < vp_connect_timeout_seconds p, OutOfRange ''connect_timeout_seconds''),
      (0 < vp_stream_stall_seconds p, OutOfRange ''stream_stall_seconds''),
      (0 \<le> vp_estimated_load_seconds p, OutOfRange ''estimated_load_seconds''),
      (0 < vp_estimated_request_seconds p, OutOfRange ''estimated_request_seconds''),
      (\<not> (vp_manage_lifecycle p \<and> vp_container_name p \<in> {None, Some []}), NeedsContainer)]"

record mock_params =
  mp_load_seconds :: seconds
  mp_unload_seconds :: seconds
  mp_tokens_per_second :: rat
  mp_first_token_seconds :: seconds
  mp_default_max_tokens :: int
  mp_fail_on_load_every_n :: int
  mp_crash_after_n_requests :: int

definition default_mock_params :: mock_params where
  "default_mock_params =
     \<lparr>mp_load_seconds = 8, mp_unload_seconds = 1 / 2, mp_tokens_per_second = 40,
      mp_first_token_seconds = 1 / 5, mp_default_max_tokens = 64,
      mp_fail_on_load_every_n = 0, mp_crash_after_n_requests = 0\<rparr>"

definition check_mock_params :: "mock_params \<Rightarrow> config_error option" where
  "check_mock_params p = first_error
     [(0 \<le> mp_load_seconds p, OutOfRange ''load_seconds''),
      (0 \<le> mp_unload_seconds p, OutOfRange ''unload_seconds''),
      (0 < mp_tokens_per_second p, OutOfRange ''tokens_per_second''),
      (0 \<le> mp_first_token_seconds p, OutOfRange ''first_token_seconds''),
      (0 < mp_default_max_tokens p, OutOfRange ''default_max_tokens''),
      (0 \<le> mp_fail_on_load_every_n p, OutOfRange ''fail_on_load_every_n''),
      (0 \<le> mp_crash_after_n_requests p, OutOfRange ''crash_after_n_requests'')]"

subsection \<open>Models\<close>

datatype backend_kind = Mock | Vllm

text \<open>\<open>served_model_name: str | list[str] | None\<close>.\<close>

datatype served_name = NoServedName | OneServedName string | ManyServedNames "string list"

record model_config =
  mc_name :: string
  mc_served_model_name :: served_name
  mc_backend :: backend_kind
  mc_priority :: rat
  mc_mock :: mock_params
  mc_vllm :: vllm_params

text \<open>\<open>ModelConfig(name=..)\<close> with every other field at its default.\<close>

definition default_model_config :: "string \<Rightarrow> model_config" where
  "default_model_config n =
     \<lparr>mc_name = n, mc_served_model_name = NoServedName, mc_backend = Mock, mc_priority = 1,
      mc_mock = default_mock_params, mc_vllm = default_vllm_params\<rparr>"

definition served_names :: "model_config \<Rightarrow> string list" where
  "served_names m =
     (case mc_served_model_name m of
        NoServedName \<Rightarrow> [mc_name m]
      | OneServedName n \<Rightarrow> [n]
      | ManyServedNames ns \<Rightarrow> ns)"

text \<open>\<open>self.served_names[0]\<close>; \<open>None\<close> is Python's IndexError on an empty list.\<close>

definition served_as :: "model_config \<Rightarrow> string option" where
  "served_as m = (case served_names m of [] \<Rightarrow> None | n # _ \<Rightarrow> Some n)"

definition estimated_load_seconds :: "model_config \<Rightarrow> seconds" where
  "estimated_load_seconds m =
     (if mc_backend m = Vllm then vp_estimated_load_seconds (mc_vllm m)
      else mp_load_seconds (mc_mock m))"

definition estimated_request_seconds :: "model_config \<Rightarrow> seconds" where
  "estimated_request_seconds m =
     (if mc_backend m = Vllm then vp_estimated_request_seconds (mc_vllm m)
      else mp_first_token_seconds (mc_mock m)
           + of_int (mp_default_max_tokens (mc_mock m)) / mp_tokens_per_second (mc_mock m))"

definition served_names_usable :: "model_config \<Rightarrow> bool" where
  "served_names_usable m \<longleftrightarrow>
     \<not> (served_names m = [] \<or> list_ex (\<lambda>n. py_strip n = []) (served_names m))"

definition check_model_config :: "model_config \<Rightarrow> config_error option" where
  "check_model_config m =
     (if mc_name m = [] then Some (OutOfRange ''name'')
      else if \<not> 0 < mc_priority m then Some (OutOfRange ''priority'')
      else case check_mock_params (mc_mock m) of
        Some e \<Rightarrow> Some e
      | None \<Rightarrow> (case check_vllm_params (mc_vllm m) of
          Some e \<Rightarrow> Some e
        | None \<Rightarrow> if served_names_usable m then None else Some (EmptyServedName (mc_name m))))"

subsection \<open>Scheduler, jobs, server\<close>

record scheduler_config =
  sc_min_residency_seconds :: seconds
  sc_max_wait_seconds :: seconds
  sc_age_weight :: rat
  sc_depth_weight :: rat
  sc_switch_cost_weight :: rat
  sc_max_concurrent_requests :: int
  sc_tick_interval_seconds :: seconds
  sc_backend_retry_seconds :: seconds

definition default_scheduler_config :: scheduler_config where
  "default_scheduler_config =
     \<lparr>sc_min_residency_seconds = 30, sc_max_wait_seconds = 120, sc_age_weight = 1,
      sc_depth_weight = 1 / 2, sc_switch_cost_weight = 1, sc_max_concurrent_requests = 8,
      sc_tick_interval_seconds = 1 / 4, sc_backend_retry_seconds = 5\<rparr>"

definition check_scheduler_config :: "scheduler_config \<Rightarrow> config_error option" where
  "check_scheduler_config c = first_error
     [(0 \<le> sc_min_residency_seconds c, OutOfRange ''min_residency_seconds''),
      (0 < sc_max_wait_seconds c, OutOfRange ''max_wait_seconds''),
      (0 \<le> sc_age_weight c, OutOfRange ''age_weight''),
      (0 \<le> sc_depth_weight c, OutOfRange ''depth_weight''),
      (0 \<le> sc_switch_cost_weight c, OutOfRange ''switch_cost_weight''),
      (0 < sc_max_concurrent_requests c, OutOfRange ''max_concurrent_requests''),
      (0 < sc_tick_interval_seconds c, OutOfRange ''tick_interval_seconds''),
      (0 \<le> sc_backend_retry_seconds c, OutOfRange ''backend_retry_seconds''),
      (\<not> sc_max_wait_seconds c \<le> sc_min_residency_seconds c,
       CeilingBelowHysteresis (sc_max_wait_seconds c) (sc_min_residency_seconds c))]"

record jobs_config =
  jc_enabled :: bool
  jc_lease_seconds :: seconds
  jc_result_ttl_seconds :: seconds
  jc_read_ttl_seconds :: seconds
  jc_sweep_interval_seconds :: seconds
  jc_max_jobs :: int

definition default_jobs_config :: jobs_config where
  "default_jobs_config =
     \<lparr>jc_enabled = True, jc_lease_seconds = 60, jc_result_ttl_seconds = 300,
      jc_read_ttl_seconds = 60, jc_sweep_interval_seconds = 1, jc_max_jobs = 1000\<rparr>"

definition check_jobs_config :: "jobs_config \<Rightarrow> config_error option" where
  "check_jobs_config c = first_error
     [(0 \<le> jc_lease_seconds c, OutOfRange ''lease_seconds''),
      (0 < jc_result_ttl_seconds c, OutOfRange ''result_ttl_seconds''),
      (0 < jc_read_ttl_seconds c, OutOfRange ''read_ttl_seconds''),
      (0 < jc_sweep_interval_seconds c, OutOfRange ''sweep_interval_seconds''),
      (0 < jc_max_jobs c, OutOfRange ''max_jobs''),
      (\<not> (jc_lease_seconds c \<noteq> 0 \<and> jc_lease_seconds c \<le> jc_sweep_interval_seconds c),
       LeaseWithinSweep (jc_lease_seconds c) (jc_sweep_interval_seconds c))]"

record server_config =
  sv_host :: string
  sv_port :: int
  sv_log_level :: string

definition default_server_config :: server_config where
  "default_server_config = \<lparr>sv_host = ''0.0.0.0'', sv_port = 8000, sv_log_level = ''info''\<rparr>"

definition check_server_config :: "server_config \<Rightarrow> config_error option" where
  "check_server_config c = first_error
     [(0 < sv_port c, OutOfRange ''port''), (sv_port c \<le> 65535, OutOfRange ''port'')]"

subsection \<open>The whole configuration\<close>

record app_config =
  ac_server :: server_config
  ac_scheduler :: scheduler_config
  ac_jobs :: jobs_config
  ac_models :: "model_config list"

text \<open>The first loop of \<open>_unique_model_names\<close>, with its \<open>seen\<close> set.\<close>

fun check_names :: "string list \<Rightarrow> model_config list \<Rightarrow> config_error option" where
  "check_names seen [] = None"
| "check_names seen (m # ms) =
     (if mc_name m \<in> set seen then Some (DuplicateModelName (mc_name m))
      else check_names (mc_name m # seen) ms)"

text \<open>The second loop: \<open>served\<close> maps a tag to the model that claimed it.\<close>

fun claim_tags :: "string \<Rightarrow> (string \<rightharpoonup> string) \<Rightarrow> string list \<Rightarrow> config_error + (string \<rightharpoonup> string)" where
  "claim_tags n served [] = Inr served"
| "claim_tags n served (t # ts) =
     (case served t of
        Some other \<Rightarrow> Inl (DuplicateServedName t other n)
      | None \<Rightarrow> claim_tags n (served(t \<mapsto> n)) ts)"

fun check_served :: "(string \<rightharpoonup> string) \<Rightarrow> model_config list \<Rightarrow> config_error option" where
  "check_served served [] = None"
| "check_served served (m # ms) =
     (case claim_tags (mc_name m) served (served_names m) of
        Inl e \<Rightarrow> Some e
      | Inr served' \<Rightarrow> check_served served' ms)"

definition unique_model_names :: "app_config \<Rightarrow> config_error option" where
  "unique_model_names c =
     (case check_names [] (ac_models c) of
        Some e \<Rightarrow> Some e
      | None \<Rightarrow> check_served Map.empty (ac_models c))"

fun first_model_error :: "model_config list \<Rightarrow> config_error option" where
  "first_model_error [] = None"
| "first_model_error (m # ms) =
     (case check_model_config m of Some e \<Rightarrow> Some e | None \<Rightarrow> first_model_error ms)"

definition validate_app_config :: "app_config \<Rightarrow> config_error + app_config" where
  "validate_app_config c =
     (case check_server_config (ac_server c) of Some e \<Rightarrow> Inl e | None \<Rightarrow>
      case check_scheduler_config (ac_scheduler c) of Some e \<Rightarrow> Inl e | None \<Rightarrow>
      case check_jobs_config (ac_jobs c) of Some e \<Rightarrow> Inl e | None \<Rightarrow>
      if ac_models c = [] then Inl NoModels else
      case first_model_error (ac_models c) of Some e \<Rightarrow> Inl e | None \<Rightarrow>
      case unique_model_names c of Some e \<Rightarrow> Inl e | None \<Rightarrow> Inr c)"

definition model_by_name :: "app_config \<Rightarrow> string \<Rightarrow> model_config option" where
  "model_by_name c n = List.find (\<lambda>m. mc_name m = n) (ac_models c)"

definition model_by_served_name :: "app_config \<Rightarrow> string \<Rightarrow> model_config option" where
  "model_by_served_name c tag = List.find (\<lambda>m. tag \<in> set (served_names m)) (ac_models c)"

definition model_names :: "app_config \<Rightarrow> string list" where
  "model_names c = map mc_name (ac_models c)"

definition served_model_names :: "app_config \<Rightarrow> string list" where
  "served_model_names c = concat (map served_names (ac_models c))"

subsection \<open>What validation establishes\<close>

text \<open>The declarative contract of a configuration that boots.\<close>

definition valid_scheduler_config :: "scheduler_config \<Rightarrow> bool" where
  "valid_scheduler_config c \<longleftrightarrow>
     0 \<le> sc_min_residency_seconds c \<and> sc_min_residency_seconds c < sc_max_wait_seconds c
     \<and> 0 \<le> sc_age_weight c \<and> 0 \<le> sc_depth_weight c \<and> 0 \<le> sc_switch_cost_weight c
     \<and> 0 < sc_max_concurrent_requests c \<and> 0 < sc_tick_interval_seconds c
     \<and> 0 \<le> sc_backend_retry_seconds c"

definition valid_jobs_config :: "jobs_config \<Rightarrow> bool" where
  "valid_jobs_config c \<longleftrightarrow>
     0 \<le> jc_lease_seconds c \<and> 0 < jc_result_ttl_seconds c \<and> 0 < jc_read_ttl_seconds c
     \<and> 0 < jc_sweep_interval_seconds c \<and> 0 < jc_max_jobs c
     \<and> (jc_lease_seconds c = 0 \<or> jc_sweep_interval_seconds c < jc_lease_seconds c)"

definition valid_model_config :: "model_config \<Rightarrow> bool" where
  "valid_model_config m \<longleftrightarrow>
     mc_name m \<noteq> [] \<and> 0 < mc_priority m \<and> served_names m \<noteq> []
     \<and> (\<forall>n \<in> set (served_names m). py_strip n \<noteq> [])
     \<and> check_mock_params (mc_mock m) = None \<and> check_vllm_params (mc_vllm m) = None"

definition valid_app_config :: "app_config \<Rightarrow> bool" where
  "valid_app_config c \<longleftrightarrow>
     0 < sv_port (ac_server c) \<and> sv_port (ac_server c) \<le> 65535
     \<and> valid_scheduler_config (ac_scheduler c) \<and> valid_jobs_config (ac_jobs c)
     \<and> ac_models c \<noteq> [] \<and> (\<forall>m \<in> set (ac_models c). valid_model_config m)
     \<and> distinct (model_names c) \<and> distinct (served_model_names c)"

lemma check_scheduler_config_iff:
  "check_scheduler_config c = None \<longleftrightarrow> valid_scheduler_config c"
  by (auto simp: check_scheduler_config_def first_error_None valid_scheduler_config_def)

lemma check_jobs_config_iff: "check_jobs_config c = None \<longleftrightarrow> valid_jobs_config c"
  by (auto simp: check_jobs_config_def first_error_None valid_jobs_config_def)

lemma check_model_config_iff: "check_model_config m = None \<longleftrightarrow> valid_model_config m"
  by (auto simp: check_model_config_def valid_model_config_def served_names_usable_def list_ex_iff
      split: option.splits)

lemma first_model_error_None:
  "first_model_error ms = None \<longleftrightarrow> (\<forall>m \<in> set ms. valid_model_config m)"
  by (induction ms) (auto simp: check_model_config_iff [symmetric] split: option.splits)

lemma check_names_None:
  "check_names seen ms = None \<longleftrightarrow> distinct (map mc_name ms) \<and> mc_name ` set ms \<inter> set seen = {}"
  by (induction ms arbitrary: seen) auto

lemma claim_tags_Inr:
  "(\<exists>s. claim_tags n served ts = Inr s) \<longleftrightarrow> distinct ts \<and> set ts \<inter> dom served = {}"
  by (induction ts arbitrary: served) (auto split: option.splits)

lemma claim_tags_dom:
  "claim_tags n served ts = Inr s \<Longrightarrow> dom s = dom served \<union> set ts"
  by (induction ts arbitrary: served) (auto split: option.splits)

lemma check_served_None:
  "check_served served ms = None \<longleftrightarrow>
     distinct (concat (map served_names ms)) \<and> set (concat (map served_names ms)) \<inter> dom served = {}"
proof (induction ms arbitrary: served)
  case Nil
  then show ?case by simp
next
  case (Cons m ms)
  show ?case
  proof (cases "claim_tags (mc_name m) served (served_names m)")
    case (Inl e)
    then have "\<not> (distinct (served_names m) \<and> set (served_names m) \<inter> dom served = {})"
      using claim_tags_Inr [of "mc_name m" served "served_names m"] by auto
    with Inl show ?thesis by auto
  next
    case (Inr s)
    then have "distinct (served_names m)" "set (served_names m) \<inter> dom served = {}"
      using claim_tags_Inr [of "mc_name m" served "served_names m"] by auto
    moreover have "dom s = dom served \<union> set (served_names m)"
      using Inr by (rule claim_tags_dom)
    ultimately show ?thesis using Inr Cons.IH [of s] by auto
  qed
qed

lemma validate_app_config_iff:
  "validate_app_config c = Inr c' \<longleftrightarrow> c' = c \<and> valid_app_config c"
proof -
  have "unique_model_names c = None \<longleftrightarrow> distinct (model_names c) \<and> distinct (served_model_names c)"
    using check_names_None [of "[]" "ac_models c"] check_served_None [of Map.empty "ac_models c"]
    by (cases "check_names [] (ac_models c)")
      (auto simp: unique_model_names_def model_names_def served_model_names_def)
  moreover have "check_server_config (ac_server c) = None \<longleftrightarrow>
      0 < sv_port (ac_server c) \<and> sv_port (ac_server c) \<le> 65535"
    by (simp add: check_server_config_def first_error_None)
  ultimately show ?thesis
    by (auto simp: validate_app_config_def valid_app_config_def check_scheduler_config_iff [symmetric]
        check_jobs_config_iff [symmetric] first_model_error_None [symmetric] split: option.splits)
qed

lemma model_by_name_mem:
  "distinct (model_names c) \<Longrightarrow> m \<in> set (ac_models c) \<Longrightarrow> model_by_name c (mc_name m) = Some m"
  unfolding model_by_name_def model_names_def by (rule find_map_key)

lemma tags_disjoint:
  assumes "distinct (concat (map served_names ms))"
    and "m \<in> set ms" "m' \<in> set ms" "t \<in> set (served_names m)" "t \<in> set (served_names m')"
  shows "m = m'"
  using assms by (induction ms) auto

lemma model_by_served_name_mem:
  assumes "distinct (served_model_names c)" and "m \<in> set (ac_models c)" and "t \<in> set (served_names m)"
  shows "model_by_served_name c t = Some m"
proof (cases "model_by_served_name c t")
  case None
  with assms(2,3) show ?thesis
    unfolding model_by_served_name_def by (auto dest: find_NoneD)
next
  case (Some m')
  then have "m' \<in> set (ac_models c)" "t \<in> set (served_names m')"
    unfolding model_by_served_name_def by (auto dest: find_SomeD)
  with assms tags_disjoint [of "ac_models c" m' m t] Some show ?thesis
    by (simp add: served_model_names_def)
qed

lemma model_by_served_name_None:
  "model_by_served_name c t = None \<longleftrightarrow> t \<notin> set (served_model_names c)"
  by (auto simp: model_by_served_name_def served_model_names_def find_None_iff)

subsection \<open>Properties\<close>


text \<open>
  In a configuration that validated, routing by served tag is total on the advertised tags
  and independent of the order of the models: each tag of each model resolves to that model
  whatever the order in which the models are listed, and nothing else resolves.
\<close>

theorem served_tag_routing_unambiguous:
  assumes "validate_app_config c = Inr c" and "mset ms = mset (ac_models c)"
  shows "model_by_served_name (c\<lparr>ac_models := ms\<rparr>) t = Some m \<longleftrightarrow>
      m \<in> set (ac_models c) \<and> t \<in> set (served_names m)"
proof -
  let ?c = "c\<lparr>ac_models := ms\<rparr>"
  have d: "distinct (served_model_names c)"
    using assms(1) by (simp add: validate_app_config_iff valid_app_config_def)
  have same: "set ms = set (ac_models c)" using assms(2) by (rule mset_eq_setD)
  have "mset (served_model_names ?c) = mset (served_model_names c)"
    using assms(2) by (simp add: served_model_names_def mset_concat)
      (metis mset_map sum_mset_sum_list)
  with d have "distinct (served_model_names ?c)"
    by (metis mset_eq_imp_distinct_iff)
  then show ?thesis
    using same model_by_served_name_mem [of ?c m t]
    by (auto simp: model_by_served_name_def dest: find_SomeD)
qed

definition example_config :: app_config where
  "example_config =
     \<lparr>ac_server = default_server_config, ac_scheduler = default_scheduler_config,
      ac_jobs = default_jobs_config,
      ac_models = [(default_model_config ''a'')\<lparr>mc_served_model_name := ManyServedNames [''A'', ''AA'']\<rparr>,
                   default_model_config ''b'']\<rparr>"

lemmas default_defs = default_model_config_def default_mock_params_def default_vllm_params_def
  default_scheduler_config_def default_jobs_config_def default_server_config_def

lemma example_config_valid: "validate_app_config example_config = Inr example_config"
  by (simp add: validate_app_config_iff valid_app_config_def valid_scheduler_config_def
      valid_jobs_config_def valid_model_config_def example_config_def default_defs served_names_def
      model_names_def served_model_names_def check_mock_params_def check_vllm_params_def
      py_strip_def py_lstrip_def py_space_def Let_def)

theorem served_tag_routing_unambiguous_witness:
  "model_by_served_name (example_config\<lparr>ac_models := rev (ac_models example_config)\<rparr>) ''AA''
     = Some (hd (ac_models example_config))"
proof -
  have "hd (ac_models example_config) \<in> set (ac_models example_config)
      \<and> ''AA'' \<in> set (served_names (hd (ac_models example_config)))"
    by (simp add: example_config_def default_model_config_def served_names_def)
  with served_tag_routing_unambiguous
    [OF example_config_valid, of "rev (ac_models example_config)" "''AA''" "hd (ac_models example_config)"]
  show ?thesis by simp
qed

end
