(* ===== verification/Sir_Policy.thy ===== *)
theory Sir_Policy
  imports Sir_Config
begin

text \<open>
  The pure policy of \<open>src/src/sir/policy.py\<close>: \<open>score_model\<close>, \<open>decide\<close> and
  \<open>estimate_wait\<close>. The lists \<open>decide\<close> builds on its way down (\<open>with_work\<close>,
  \<open>servable\<close>, \<open>overdue\<close>, the scores) are definitions of their own, so that lemmas can
  name them.
\<close>

subsection \<open>Scoring\<close>

definition score_model :: "model_state \<Rightarrow> seconds \<Rightarrow> scheduler_config \<Rightarrow> bool \<Rightarrow> score_breakdown" where
  "score_model state now config is_resident =
     (if \<not> is_available state now then
        \<lparr>sb_model = ms_name state, sb_priority = ms_priority state, sb_depth = ms_depth state,
         sb_oldest_wait = oldest_wait state now, sb_age_term = 0, sb_depth_term = 0,
         sb_switch_cost = 0, sb_score = NegInf, sb_eligible = False,
         sb_note = ''backend unavailable''\<rparr>
      else if \<not> has_pending state then
        \<lparr>sb_model = ms_name state, sb_priority = ms_priority state, sb_depth = 0,
         sb_oldest_wait = 0, sb_age_term = 0, sb_depth_term = 0,
         sb_switch_cost = 0, sb_score = Fin 0, sb_eligible = True,
         sb_note = ''no pending work''\<rparr>
      else
        let wait = oldest_wait state now;
            age_term = sc_age_weight config * wait;
            depth_term = sc_depth_weight config * of_nat (ms_depth state);
            switch_cost = (if is_resident then 0
              else sc_switch_cost_weight config * ms_estimated_load_seconds state);
            score = ms_priority state * (age_term + depth_term) - switch_cost
        in \<lparr>sb_model = ms_name state, sb_priority = ms_priority state, sb_depth = ms_depth state,
            sb_oldest_wait = wait, sb_age_term = age_term, sb_depth_term = depth_term,
            sb_switch_cost = switch_cost, sb_score = Fin score, sb_eligible = True,
            sb_note = ''''\<rparr>)"

fun score_of :: "score_breakdown list \<Rightarrow> string \<Rightarrow> score" where
  "score_of [] model = NegInf"
| "score_of (b # bs) model = (if sb_model b = model then sb_score b else score_of bs model)"

subsection \<open>The decision\<close>

definition snapshot_scores ::
    "scheduler_snapshot \<Rightarrow> seconds \<Rightarrow> scheduler_config \<Rightarrow> score_breakdown list" where
  "snapshot_scores snap now config =
     map (\<lambda>s. score_model s now config (Some (ms_name s) = ss_resident snap)) (ss_models snap)"

definition with_work :: "scheduler_snapshot \<Rightarrow> model_state list" where
  "with_work snap = filter has_pending (ss_models snap)"

definition servable :: "scheduler_snapshot \<Rightarrow> seconds \<Rightarrow> model_state list" where
  "servable snap now = filter (\<lambda>s. is_available s now) (with_work snap)"

definition overdue :: "scheduler_snapshot \<Rightarrow> seconds \<Rightarrow> scheduler_config \<Rightarrow> model_state list" where
  "overdue snap now config =
     filter (\<lambda>s. Some (ms_name s) \<noteq> ss_resident snap
               \<and> oldest_wait s now \<ge> sc_max_wait_seconds config) (servable snap now)"

definition decide :: "scheduler_snapshot \<Rightarrow> seconds \<Rightarrow> scheduler_config \<Rightarrow> decision" where
  "decide snap now config =
     (let scores = snapshot_scores snap now config;
          decision = (\<lambda>kind reason target.
            \<lparr>dc_kind = kind, dc_reason = reason, dc_at = now, dc_resident = ss_resident snap,
             dc_target = target, dc_scores = scores\<rparr>)
      in
      if ss_switching snap \<or> ss_draining snap then decision HOLD IN_TRANSITION None
      else case py_max (\<lambda>s. oldest_wait s now) (overdue snap now config) of
        Some target \<Rightarrow> decision SWITCH STARVATION (Some (ms_name target))
      | None \<Rightarrow>
      if with_work snap = [] then decision IDLE NO_WORK None
      else case py_max (\<lambda>s. score_of scores (ms_name s)) (servable snap now) of
        None \<Rightarrow> decision IDLE BACKEND_UNAVAILABLE None
      | Some best \<Rightarrow>
      (case resident_state snap of
        None \<Rightarrow> decision SWITCH COLD_START (Some (ms_name best))
      | Some resident \<Rightarrow>
      if \<not> is_available resident now then
        decision SWITCH BACKEND_UNAVAILABLE (Some (ms_name best))
      else
        let swap_cost = sc_switch_cost_weight config * ms_estimated_load_seconds best in
        if ms_name best \<noteq> ms_name resident
           \<and> (case ms_resident_since resident of
                None \<Rightarrow> False
              | Some since \<Rightarrow> now - since < sc_min_residency_seconds config)
           \<and> (is_busy resident \<or> idle_for resident now < swap_cost)
        then decision HOLD MIN_RESIDENCY None
        else if Some (ms_name best) = ss_resident snap then
          decision (if length (servable snap now) = 1 then SERVE else HOLD) RESIDENT_WINS None
        else if score_of scores (ms_name best) > score_of scores (ms_name resident) then
          decision SWITCH
            (if \<not> is_busy resident \<and> idle_for resident now \<ge> swap_cost
             then RESIDENT_IDLE else CHALLENGER_WINS)
            (Some (ms_name best))
        else decision HOLD RESIDENT_WINS None))"

subsection \<open>Wait estimates\<close>

definition min_retry_after :: seconds where "min_retry_after = 1 / 2"
definition max_retry_after :: seconds where "max_retry_after = 10"

text \<open>
  The requests that hold slots before this one, and the wait until the model has the GPU: the
  incumbent's remaining residency or the remaining budget of the ceiling, whichever lapses
  first, plus the load; never before a crashed backend's retry time.
\<close>

definition requests_ahead :: "model_state \<Rightarrow> nat \<Rightarrow> nat" where
  "requests_ahead state position =
     (if ms_resident state then position + ms_in_flight state else position)"

definition gpu_wait :: "scheduler_snapshot \<Rightarrow> model_state \<Rightarrow> seconds \<Rightarrow> scheduler_config \<Rightarrow> seconds" where
  "gpu_wait snap state now config =
     (if ms_resident state then 0
      else
        let ceiling_left = max 0 (sc_max_wait_seconds config - oldest_wait state now);
            load_seconds = ms_estimated_load_seconds state;
            hold = (case resident_state snap of
                None \<Rightarrow> 0
              | Some incumbent \<Rightarrow>
                  (case ms_resident_since incumbent of
                     None \<Rightarrow> 0
                   | Some since \<Rightarrow> max 0 (sc_min_residency_seconds config - (now - since))));
            w = min hold ceiling_left + load_seconds
        in case ms_unavailable_until state of
             None \<Rightarrow> w
           | Some until \<Rightarrow>
               if \<not> is_available state now then max w (until - now + load_seconds) else w)"

definition estimate_wait ::
    "scheduler_snapshot \<Rightarrow> string \<Rightarrow> nat \<Rightarrow> seconds \<Rightarrow> scheduler_config \<Rightarrow> seconds
     \<Rightarrow> py_error + wait_estimate" where
  "estimate_wait snap model position now config mean_request_seconds =
     (case by_name snap model of
        None \<Rightarrow> Inl (KeyError model)
      | Some state \<Rightarrow>
        let resident = ms_resident state;
            ceiling_left = max 0 (sc_max_wait_seconds config - oldest_wait state now);
            load_seconds = (if resident then 0 else ms_estimated_load_seconds state)
        in if sc_max_concurrent_requests config = 0 then Inl ZeroDivisionError
           else
             let batches = int (requests_ahead state position) div sc_max_concurrent_requests config;
                 estimated = gpu_wait snap state now config
                   + of_int batches * mean_request_seconds + mean_request_seconds
             in Inr \<lparr>we_position = position, we_resident = resident, we_needs_swap = \<not> resident,
                     we_load_seconds = load_seconds,
                     we_dispatch_within_seconds = (if resident then None else Some ceiling_left),
                     we_estimated_seconds = estimated,
                     we_retry_after = min max_retry_after (max min_retry_after (estimated / 4))\<rparr>)"

subsection \<open>Facts about the candidate lists\<close>

text \<open>A snapshot in which names identify models; the empty name is not a model's.\<close>

definition snapshot_ok :: "scheduler_snapshot \<Rightarrow> bool" where
  "snapshot_ok snap \<longleftrightarrow> distinct (map ms_name (ss_models snap)) \<and> ss_resident snap \<noteq> Some []"

lemma servable_iff [policy_simps]:
  "s \<in> set (servable snap now) \<longleftrightarrow> s \<in> set (ss_models snap) \<and> has_pending s \<and> is_available s now"
  by (auto simp: servable_def with_work_def)

lemma overdue_iff [policy_simps]:
  "s \<in> set (overdue snap now config) \<longleftrightarrow>
     s \<in> set (servable snap now) \<and> Some (ms_name s) \<noteq> ss_resident snap
     \<and> sc_max_wait_seconds config \<le> oldest_wait s now"
  by (auto simp: overdue_def)

lemma servable_Nil_if_no_work: "with_work snap = [] \<Longrightarrow> servable snap now = []"
  by (simp add: servable_def)

lemma overdue_Nil_if_servable_Nil: "servable snap now = [] \<Longrightarrow> overdue snap now config = []"
  by (simp add: overdue_def)

lemma sb_model_score_model [simp]: "sb_model (score_model s now config r) = ms_name s"
  by (simp add: score_model_def Let_def)

lemma score_of_map:
  assumes "distinct (map ms_name ms)" and "m \<in> set ms"
  shows "score_of (map (\<lambda>s. score_model s now config (f s)) ms) (ms_name m)
    = sb_score (score_model m now config (f m))"
  using assms by (induction ms) (auto simp: image_iff)

lemma score_of_snapshot [policy_simps]:
  "snapshot_ok snap \<Longrightarrow> m \<in> set (ss_models snap) \<Longrightarrow>
   score_of (snapshot_scores snap now config) (ms_name m)
     = sb_score (score_model m now config (Some (ms_name m) = ss_resident snap))"
  unfolding snapshot_scores_def snapshot_ok_def by (rule score_of_map) auto

lemma same_name:
  "snapshot_ok snap \<Longrightarrow> a \<in> set (ss_models snap) \<Longrightarrow> b \<in> set (ss_models snap) \<Longrightarrow>
   ms_name a = ms_name b \<Longrightarrow> a = b"
  unfolding snapshot_ok_def by (metis distinct_map inj_onD)

lemma resident_state_None:
  assumes "snapshot_ok snap" and "resident_state snap = None" and "m \<in> set (ss_models snap)"
  shows "Some (ms_name m) \<noteq> ss_resident snap"
  using assms by (auto simp: resident_state_def snapshot_ok_def by_name_def find_None_iff
      split: option.splits if_splits)

subsection \<open>The branches of decide\<close>

text \<open>What the swap to \<open>t\<close> costs in the policy's own currency.\<close>

definition swap_cost :: "scheduler_config \<Rightarrow> model_state \<Rightarrow> rat" where
  "swap_cost config t = sc_switch_cost_weight config * ms_estimated_load_seconds t"

text \<open>The incumbent \<open>r\<close> is inside its minimum residency and has not been idle long enough
  to make a swap to \<open>t\<close> worth its cost.\<close>

definition protected :: "model_state \<Rightarrow> model_state \<Rightarrow> seconds \<Rightarrow> scheduler_config \<Rightarrow> bool" where
  "protected r t now config \<longleftrightarrow>
     (\<exists>since. ms_resident_since r = Some since \<and> now - since < sc_min_residency_seconds config)
     \<and> (is_busy r \<or> idle_for r now < swap_cost config t)"

abbreviation quiet :: "scheduler_snapshot \<Rightarrow> bool" where
  "quiet snap \<equiv> \<not> ss_switching snap \<and> \<not> ss_draining snap"

abbreviation score_in :: "scheduler_snapshot \<Rightarrow> seconds \<Rightarrow> scheduler_config \<Rightarrow> model_state \<Rightarrow> score" where
  "score_in snap now config m \<equiv> score_of (snapshot_scores snap now config) (ms_name m)"

text \<open>A scored takeover from the available incumbent \<open>r\<close>.\<close>

definition scored_swap ::
    "scheduler_snapshot \<Rightarrow> seconds \<Rightarrow> scheduler_config \<Rightarrow> model_state \<Rightarrow> model_state \<Rightarrow> bool" where
  "scored_swap snap now config r t \<longleftrightarrow>
     is_available r now \<and> Some (ms_name t) \<noteq> ss_resident snap
     \<and> score_in snap now config r < score_in snap now config t
     \<and> (ms_name t \<noteq> ms_name r \<longrightarrow> \<not> protected r t now config)"

lemma decide_starvation:
  assumes "quiet snap" and "overdue snap now config \<noteq> []"
  shows "\<exists>t. decide snap now config =
      \<lparr>dc_kind = SWITCH, dc_reason = STARVATION, dc_at = now, dc_resident = ss_resident snap,
       dc_target = Some (ms_name t), dc_scores = snapshot_scores snap now config\<rparr>
    \<and> t \<in> set (overdue snap now config)
    \<and> (\<forall>m \<in> set (overdue snap now config). oldest_wait m now \<le> oldest_wait t now)"
proof -
  obtain t where "py_max (\<lambda>s. oldest_wait s now) (overdue snap now config) = Some t"
    "t \<in> set (overdue snap now config)"
    "\<And>m. m \<in> set (overdue snap now config) \<Longrightarrow> oldest_wait m now \<le> oldest_wait t now"
    using py_max_obtain [OF assms(2), of "\<lambda>s. oldest_wait s now"] by metis
  with assms(1) show ?thesis by (auto simp: decide_def Let_def)
qed

lemma decide_scored:
  assumes "quiet snap" and "overdue snap now config = []" and "servable snap now \<noteq> []"
  obtains best where "best \<in> set (servable snap now)"
    and "\<And>s. s \<in> set (servable snap now) \<Longrightarrow> score_in snap now config s \<le> score_in snap now config best"
    and "py_max (\<lambda>s. score_in snap now config s) (servable snap now) = Some best"
  using py_max_obtain [OF assms(3), of "\<lambda>s. score_in snap now config s"] by metis

lemma decide_IDLE_iff:
  "dc_kind (decide snap now config) = IDLE \<longleftrightarrow> quiet snap \<and> servable snap now = []"
proof (cases "quiet snap")
  case False
  then show ?thesis by (auto simp: decide_def Let_def)
next
  case quiet: True
  show ?thesis
  proof (cases "overdue snap now config = []")
    case False
    with quiet decide_starvation overdue_Nil_if_servable_Nil show ?thesis
      by (metis decision.select_convs(1) decision_kind.distinct(5))
  next
    case over: True
    show ?thesis
    proof (cases "servable snap now = []")
      case True
      with quiet over show ?thesis by (simp add: decide_def Let_def)
    next
      case False
      then obtain best where "py_max (\<lambda>s. score_in snap now config s) (servable snap now) = Some best"
        using decide_scored [OF quiet over] by metis
      with quiet over False servable_Nil_if_no_work show ?thesis
        by (auto simp: decide_def Let_def split: option.splits)
    qed
  qed
qed

lemma decide_SWITCHD:
  assumes "dc_kind (decide snap now config) = SWITCH"
  shows "quiet snap \<and> (\<exists>t \<in> set (servable snap now).
    dc_target (decide snap now config) = Some (ms_name t) \<and>
    ((dc_reason (decide snap now config) = STARVATION \<and> t \<in> set (overdue snap now config)
        \<and> (\<forall>m \<in> set (overdue snap now config). oldest_wait m now \<le> oldest_wait t now))
     \<or> (overdue snap now config = []
        \<and> (\<forall>m \<in> set (servable snap now). score_in snap now config m \<le> score_in snap now config t)
        \<and> (case resident_state snap of
             None \<Rightarrow> dc_reason (decide snap now config) = COLD_START
           | Some r \<Rightarrow>
               if is_available r now then
                 scored_swap snap now config r t
                 \<and> dc_reason (decide snap now config) =
                    (if \<not> is_busy r \<and> swap_cost config t \<le> idle_for r now
                     then RESIDENT_IDLE else CHALLENGER_WINS)
               else dc_reason (decide snap now config) = BACKEND_UNAVAILABLE))))"
proof -
  have quiet: "quiet snap"
    using assms by (auto simp: decide_def Let_def split: if_splits)
  show ?thesis
  proof (cases "overdue snap now config = []")
    case False
    then obtain t where "decide snap now config =
        \<lparr>dc_kind = SWITCH, dc_reason = STARVATION, dc_at = now, dc_resident = ss_resident snap,
         dc_target = Some (ms_name t), dc_scores = snapshot_scores snap now config\<rparr>"
      "t \<in> set (overdue snap now config)"
      "\<forall>m \<in> set (overdue snap now config). oldest_wait m now \<le> oldest_wait t now"
      using decide_starvation [OF quiet] by blast
    then show ?thesis using quiet by (auto simp: overdue_iff)
  next
    case over: True
    have "servable snap now \<noteq> []"
      using assms quiet decide_IDLE_iff [of snap now config] by auto
    then obtain b where b: "b \<in> set (servable snap now)"
      "\<And>s. s \<in> set (servable snap now) \<Longrightarrow> score_in snap now config s \<le> score_in snap now config b"
      "py_max (\<lambda>s. score_in snap now config s) (servable snap now) = Some b"
      using decide_scored [OF quiet over] by metis
    have w: "with_work snap \<noteq> []" using b(1) servable_Nil_if_no_work by fastforce
    show ?thesis
    proof (cases "resident_state snap")
      case None
      with quiet over b w show ?thesis by (auto simp: decide_def Let_def)
    next
      case (Some r)
      show ?thesis
      proof (cases "is_available r now")
        case False
        with quiet over b w Some show ?thesis by (auto simp: decide_def Let_def)
      next
        case True
        with assms quiet over b w Some show ?thesis
          by (auto simp: decide_def Let_def scored_swap_def protected_def swap_cost_def
              not_less split: if_splits option.splits intro!: bexI [of _ b])
      qed
    qed
  qed
qed

text \<open>The ways a switch can come about, as an elimination rule.\<close>

lemma decide_SWITCHE:
  assumes "dc_kind (decide snap now config) = SWITCH"
  obtains (starved) t where "quiet snap" "dc_target (decide snap now config) = Some (ms_name t)"
      "t \<in> set (overdue snap now config)" "dc_reason (decide snap now config) = STARVATION"
  | (vacant) t where "quiet snap" "dc_target (decide snap now config) = Some (ms_name t)"
      "t \<in> set (servable snap now)"
      "\<And>r. resident_state snap = Some r \<Longrightarrow> \<not> is_available r now"
      "dc_reason (decide snap now config) \<in> {COLD_START, BACKEND_UNAVAILABLE}"
  | (scored) t r where "quiet snap" "dc_target (decide snap now config) = Some (ms_name t)"
      "t \<in> set (servable snap now)" "resident_state snap = Some r" "scored_swap snap now config r t"
      "\<And>m. m \<in> set (servable snap now) \<Longrightarrow> score_in snap now config m \<le> score_in snap now config t"
      "dc_reason (decide snap now config) =
         (if \<not> is_busy r \<and> swap_cost config t \<le> idle_for r now then RESIDENT_IDLE else CHALLENGER_WINS)"
proof -
  let ?d = "decide snap now config"
  from decide_SWITCHD [OF assms] obtain t where quiet: "quiet snap"
    and t: "t \<in> set (servable snap now)" "dc_target ?d = Some (ms_name t)"
    and why: "dc_reason ?d = STARVATION \<and> t \<in> set (overdue snap now config) \<or>
      (\<forall>m \<in> set (servable snap now). score_in snap now config m \<le> score_in snap now config t)
      \<and> (case resident_state snap of None \<Rightarrow> dc_reason ?d = COLD_START
         | Some r \<Rightarrow> if is_available r now then scored_swap snap now config r t
             \<and> dc_reason ?d = (if \<not> is_busy r \<and> swap_cost config t \<le> idle_for r now
                 then RESIDENT_IDLE else CHALLENGER_WINS)
             else dc_reason ?d = BACKEND_UNAVAILABLE)"
    by blast
  from why show thesis
  proof
    assume "dc_reason ?d = STARVATION \<and> t \<in> set (overdue snap now config)"
    with starved quiet t show thesis by blast
  next
    assume w: "(\<forall>m \<in> set (servable snap now). score_in snap now config m \<le> score_in snap now config t)
      \<and> (case resident_state snap of None \<Rightarrow> dc_reason ?d = COLD_START
         | Some r \<Rightarrow> if is_available r now then scored_swap snap now config r t
             \<and> dc_reason ?d = (if \<not> is_busy r \<and> swap_cost config t \<le> idle_for r now
                 then RESIDENT_IDLE else CHALLENGER_WINS)
             else dc_reason ?d = BACKEND_UNAVAILABLE)"
    show thesis
    proof (cases "resident_state snap")
      case None
      with w vacant quiet t show thesis by simp
    next
      case (Some r)
      show thesis
      proof (cases "is_available r now")
        case True
        from w Some True have sw: "scored_swap snap now config r t"
          and re: "dc_reason ?d = (if \<not> is_busy r \<and> swap_cost config t \<le> idle_for r now
                 then RESIDENT_IDLE else CHALLENGER_WINS)"
          by simp_all
        from w have "\<And>m. m \<in> set (servable snap now) \<Longrightarrow>
            score_in snap now config m \<le> score_in snap now config t"
          by blast
        from scored [OF quiet t(2) t(1) Some sw this re] show thesis .
      next
        case False
        with w Some vacant quiet t show thesis by simp
      qed
    qed
  qed
qed

lemma score_resident:
  assumes "snapshot_ok snap" and "resident_state snap = Some r" and "is_available r now"
  shows "score_in snap now config r = Fin (if has_pending r
      then ms_priority r * (sc_age_weight config * oldest_wait r now
             + sc_depth_weight config * of_nat (ms_depth r)) else 0)"
  using assms resident_stateD [OF assms(2)]
  by (auto simp: score_of_snapshot score_model_def Let_def)

lemma score_challenger:
  assumes "snapshot_ok snap" and "t \<in> set (servable snap now)" and "Some (ms_name t) \<noteq> ss_resident snap"
  shows "score_in snap now config t = Fin (ms_priority t * (sc_age_weight config * oldest_wait t now
             + sc_depth_weight config * of_nat (ms_depth t)) - swap_cost config t)"
  using assms
  by (auto simp: score_of_snapshot score_model_def Let_def swap_cost_def servable_iff)

subsection \<open>Properties of the decision\<close>

text \<open>What a model bids for the GPU: priority times demand, nothing when it has no work.\<close>

definition demand :: "scheduler_config \<Rightarrow> seconds \<Rightarrow> model_state \<Rightarrow> rat" where
  "demand config now m =
     (if has_pending m then ms_priority m * (sc_age_weight config * oldest_wait m now
        + sc_depth_weight config * of_nat (ms_depth m)) else 0)"

text \<open>
  C4. The starvation ceiling outranks hysteresis, priority and switch cost: whenever a model
  other than the resident has servable work that has waited \<open>max_wait_seconds\<close>, and no
  transition is under way, the decision is a switch for starvation, to an overdue model whose
  oldest request has waited at least as long as that of every overdue model.
\<close>

theorem starvation_ceiling_mandatory:
  assumes "quiet snap" and "m \<in> set (ss_models snap)" and "has_pending m" and "is_available m now"
    and "Some (ms_name m) \<noteq> ss_resident snap"
    and "sc_max_wait_seconds config \<le> oldest_wait m now"
  shows "dc_kind (decide snap now config) = SWITCH
    \<and> dc_reason (decide snap now config) = STARVATION
    \<and> (\<exists>t \<in> set (overdue snap now config). dc_target (decide snap now config) = Some (ms_name t)
         \<and> (\<forall>o' \<in> set (overdue snap now config). oldest_wait o' now \<le> oldest_wait t now))"
proof -
  have "m \<in> set (overdue snap now config)"
    using assms by (simp add: overdue_iff servable_iff)
  then have "overdue snap now config \<noteq> []" by auto
  from decide_starvation [OF assms(1) this] show ?thesis by auto
qed

lemma switch_target:
  assumes "snapshot_ok snap" and "dc_kind (decide snap now config) = SWITCH"
  shows "\<exists>t \<in> set (ss_models snap). dc_target (decide snap now config) = Some (ms_name t)
    \<and> has_pending t \<and> is_available t now \<and> ss_resident snap \<noteq> Some (ms_name t)"
proof -
  from assms(2) show ?thesis
  proof (cases rule: decide_SWITCHE)
    case (starved t)
    then show ?thesis by (auto simp: overdue_iff servable_iff)
  next
    case (vacant t)
    have "Some (ms_name t) \<noteq> ss_resident snap"
    proof (cases "resident_state snap")
      case None
      with vacant(3) show ?thesis
        using resident_state_None [OF assms(1)] by (simp add: servable_iff)
    next
      case (Some r)
      from resident_stateD [OF this] vacant(3,4) Some show ?thesis
        using same_name [OF assms(1), of t r] by (auto simp: servable_iff)
    qed
    with vacant show ?thesis by (auto simp: servable_iff)
  next
    case (scored t r)
    then show ?thesis by (auto simp: servable_iff scored_swap_def)
  qed
qed

text \<open>
  A switch is always to a model of the snapshot that has queued work, whose backend is not
  backing off, and that is not the resident model, whatever branch of the policy chose it.
\<close>

theorem switch_target_sound:
  assumes "snapshot_ok snap" and "dc_kind (decide snap now config) = SWITCH"
  shows "\<exists>t \<in> set (ss_models snap). dc_target (decide snap now config) = Some (ms_name t)
    \<and> has_pending t \<and> is_available t now \<and> ss_resident snap \<noteq> Some (ms_name t)"
  by (rule switch_target [OF assms])

text \<open>
  C19. When neither starvation, nor a cold start, nor a dead backend forces it, a swap pays for
  itself: the challenger's demand exceeds the incumbent's demand plus the cost of the swap, no
  other candidate has a better net bid, and the incumbent is not protected (it has served its
  minimum residency, or it has been continuously idle for at least the cost of the swap). The
  reported reason is RESIDENT_IDLE exactly in the second case.
\<close>

theorem scored_swap_justified:
  assumes "snapshot_ok snap" and "dc_kind (decide snap now config) = SWITCH"
    and "dc_reason (decide snap now config) \<in> {CHALLENGER_WINS, RESIDENT_IDLE}"
  shows "\<exists>r t. resident_state snap = Some r
    \<and> dc_target (decide snap now config) = Some (ms_name t) \<and> t \<in> set (servable snap now)
    \<and> demand config now r + swap_cost config t < demand config now t
    \<and> \<not> protected r t now config
    \<and> (\<forall>m \<in> set (servable snap now). Some (ms_name m) \<noteq> ss_resident snap \<longrightarrow>
         demand config now m - swap_cost config m \<le> demand config now t - swap_cost config t)
    \<and> (dc_reason (decide snap now config) = RESIDENT_IDLE \<longleftrightarrow>
         \<not> is_busy r \<and> swap_cost config t \<le> idle_for r now)"
proof -
  from assms(2) obtain t r where t: "t \<in> set (servable snap now)"
    "dc_target (decide snap now config) = Some (ms_name t)"
    and best: "\<And>m. m \<in> set (servable snap now) \<Longrightarrow> score_in snap now config m \<le> score_in snap now config t"
    and r: "resident_state snap = Some r" and sw: "scored_swap snap now config r t"
    and reason: "dc_reason (decide snap now config) =
        (if \<not> is_busy r \<and> swap_cost config t \<le> idle_for r now then RESIDENT_IDLE else CHALLENGER_WINS)"
    using assms(3) by (cases rule: decide_SWITCHE) auto
  have ne: "ms_name t \<noteq> ms_name r" and av: "is_available r now"
    and nr: "Some (ms_name t) \<noteq> ss_resident snap"
    using sw resident_stateD [OF r] by (auto simp: scored_swap_def)
  have bids: "score_in snap now config m = Fin (demand config now m - swap_cost config m)"
    if "m \<in> set (servable snap now)" "Some (ms_name m) \<noteq> ss_resident snap" for m
    using score_challenger [OF assms(1) that, of config] that(1)
    by (simp add: demand_def servable_iff)
  have inc: "score_in snap now config r = Fin (demand config now r)"
    using score_resident [OF assms(1) r av, of config] by (simp add: demand_def)
  have pays: "demand config now r + swap_cost config t < demand config now t"
    using sw bids [OF t(1) nr] inc by (simp add: scored_swap_def)
  have others: "demand config now m - swap_cost config m \<le> demand config now t - swap_cost config t"
    if "m \<in> set (servable snap now)" "Some (ms_name m) \<noteq> ss_resident snap" for m
    using best [OF that(1)] bids [OF that] bids [OF t(1) nr] by simp
  have "\<not> protected r t now config"
    using sw ne by (simp add: scored_swap_def)
  moreover have "dc_reason (decide snap now config) = RESIDENT_IDLE \<longleftrightarrow>
      \<not> is_busy r \<and> swap_cost config t \<le> idle_for r now"
    using reason by simp
  ultimately show ?thesis using r t pays others by blast
qed

text \<open>
  The policy idles only when there is nothing it could serve: outside a transition the
  decision is IDLE if and only if no model that can be started has queued work.
\<close>

theorem idle_iff_nothing_servable:
  "dc_kind (decide snap now config) = IDLE \<longleftrightarrow>
     \<not> ss_switching snap \<and> \<not> ss_draining snap
     \<and> (\<forall>m \<in> set (ss_models snap). has_pending m \<longrightarrow> \<not> is_available m now)"
proof -
  have "servable snap now = [] \<longleftrightarrow> (\<forall>m. m \<notin> set (servable snap now))"
    by auto
  then show ?thesis by (auto simp: decide_IDLE_iff servable_iff)
qed

subsection \<open>Properties of the estimates\<close>

lemma estimate_wait_Inr_by_name:
  "estimate_wait snap m pos now config mean = Inr e \<Longrightarrow> \<exists>st. by_name snap m = Some st"
  by (auto simp: estimate_wait_def split: option.splits)

lemma estimate_dispatch_within:
  assumes "estimate_wait snap m pos now config mean = Inr e" and "by_name snap m = Some st"
  shows "we_dispatch_within_seconds e =
    (if ms_resident st then None else Some (max 0 (sc_max_wait_seconds config - oldest_wait st now)))"
  using assms by (auto simp: estimate_wait_def Let_def split: if_splits)

text \<open>
  \<open>dispatch_within_seconds\<close> is exact while nothing changes: for a model that is not
  resident and keeps its head of queue, the reported \<open>d\<close> is the least delay after which the
  starvation ceiling applies. At any later time the model is overdue exactly if \<open>d\<close> seconds
  have passed, provided its backend is not backing off then, and from that moment every
  decision outside a transition is a switch for starvation.
\<close>

theorem dispatch_within_exact:
  assumes "estimate_wait snap m pos now config mean = Inr e"
    and "we_dispatch_within_seconds e = Some d"
    and "by_name snap m = Some st" and "ss_resident snap \<noteq> Some m"
    and "ms_oldest_enqueued_at st = Some t0" and "t0 \<le> now" and "has_pending st"
    and "0 < sc_max_wait_seconds config" and "now \<le> now'" and "is_available st now'"
  shows "(st \<in> set (overdue snap now' config) \<longleftrightarrow> now + d \<le> now')
    \<and> (now + d \<le> now' \<and> quiet snap \<longrightarrow> dc_kind (decide snap now' config) = SWITCH
         \<and> dc_reason (decide snap now' config) = STARVATION)"
proof -
  have st: "st \<in> set (ss_models snap)" "ms_name st = m"
    using by_name_SomeD [OF assms(3)] by auto
  have d: "d = max 0 (sc_max_wait_seconds config - (now - t0))"
    using estimate_dispatch_within [OF assms(1,3)] assms(2,5,6)
    by (auto simp: oldest_wait_def split: if_splits)
  have w: "oldest_wait st now' = now' - t0"
    using assms(5,6,9) by (simp add: oldest_wait_def)
  have "st \<in> set (overdue snap now' config) \<longleftrightarrow> sc_max_wait_seconds config \<le> now' - t0"
    using st assms(4,7,10) w by (auto simp: overdue_iff servable_iff)
  also have "\<dots> \<longleftrightarrow> now + d \<le> now'"
    using assms(6,8,9) d by auto
  finally have iff: "st \<in> set (overdue snap now' config) \<longleftrightarrow> now + d \<le> now'" .
  moreover have "dc_kind (decide snap now' config) = SWITCH
      \<and> dc_reason (decide snap now' config) = STARVATION" if "now + d \<le> now'" "quiet snap"
    using decide_starvation [OF that(2), of now' config] iff that(1) by fastforce
  ultimately show ?thesis by blast
qed

text \<open>
  Waits step in batches: advancing by the concurrency cap in a queue adds exactly one mean
  request duration to the estimate and changes nothing else of it but the position and the poll
  interval; positions of the same batch get the same estimate; and the suggested poll interval
  lies between half a second and ten.
\<close>

theorem estimate_batches:
  assumes "0 < sc_max_concurrent_requests config" and "by_name snap m = Some st"
  shows "\<exists>e e'. estimate_wait snap m pos now config mean = Inr e
    \<and> estimate_wait snap m (pos + nat (sc_max_concurrent_requests config)) now config mean = Inr e'
    \<and> we_estimated_seconds e' = we_estimated_seconds e + mean
    \<and> e' = e\<lparr>we_position := we_position e', we_estimated_seconds := we_estimated_seconds e',
              we_retry_after := we_retry_after e'\<rparr>
    \<and> 1 / 2 \<le> we_retry_after e \<and> we_retry_after e \<le> 10
    \<and> (\<forall>p e''. int (requests_ahead st p) div sc_max_concurrent_requests config
            = int (requests_ahead st pos) div sc_max_concurrent_requests config
          \<and> estimate_wait snap m p now config mean = Inr e''
          \<longrightarrow> we_estimated_seconds e'' = we_estimated_seconds e)"
proof -
  let ?c = "sc_max_concurrent_requests config"
  have "int (requests_ahead st (pos + nat ?c)) = int (requests_ahead st pos) + ?c"
    using assms(1) by (simp add: requests_ahead_def)
  then have step: "int (requests_ahead st (pos + nat ?c)) div ?c = int (requests_ahead st pos) div ?c + 1"
    using assms(1) by simp
  show ?thesis
    using assms by (auto simp: estimate_wait_def Let_def step min_retry_after_def
        max_retry_after_def algebra_simps)
qed

lemma decide_target_SWITCH:
  "dc_target (decide snap now config) = Some x \<Longrightarrow> dc_kind (decide snap now config) = SWITCH"
  by (auto simp: decide_def Let_def split: if_splits option.splits)

text \<open>
  The reported ceiling does not account for a backend's retry back-off: for a model that has
  waited past the ceiling while its backend is unavailable, the estimate claims that it wins the
  GPU within zero seconds, and the policy does not choose it.
\<close>

theorem dispatch_within_ignores_backoff:
  assumes "estimate_wait snap m pos now config mean = Inr e" and "by_name snap m = Some st"
    and "snapshot_ok snap" and "\<not> ms_resident st" and "\<not> is_available st now"
    and "sc_max_wait_seconds config \<le> oldest_wait st now"
  shows "we_dispatch_within_seconds e = Some 0 \<and> dc_target (decide snap now config) \<noteq> Some m"
proof
  show "we_dispatch_within_seconds e = Some 0"
    using estimate_dispatch_within [OF assms(1,2)] assms(4,6) by simp
  have st: "st \<in> set (ss_models snap)" "ms_name st = m"
    using by_name_SomeD [OF assms(2)] by auto
  show "dc_target (decide snap now config) \<noteq> Some m"
  proof
    assume tgt: "dc_target (decide snap now config) = Some m"
    have "dc_kind (decide snap now config) = SWITCH"
      using tgt by (rule decide_target_SWITCH)
    from decide_SWITCHD [OF this] tgt obtain t
      where t: "t \<in> set (servable snap now)" "ms_name t = m" by auto
    with same_name [OF assms(3), of t st] st assms(5) show False
      by (simp add: servable_iff)
  qed
qed

subsection \<open>Witnesses\<close>

text \<open>
  A busy resident \<open>a\<close> and a model \<open>b\<close> whose head of queue has waited 200 seconds at time
  1000; the same with an idle resident and a head that has waited 40; and with \<open>b\<close> backing off.
\<close>

definition waiting_model :: "string \<Rightarrow> nat \<Rightarrow> seconds \<Rightarrow> model_state" where
  "waiting_model n d t =
     \<lparr>ms_name = n, ms_priority = 1, ms_depth = d, ms_oldest_enqueued_at = Some t,
      ms_estimated_load_seconds = 8, ms_resident = False, ms_resident_since = None,
      ms_in_flight = 0, ms_idle_since = None, ms_unavailable_until = None\<rparr>"

definition snap_of :: "model_state \<Rightarrow> model_state \<Rightarrow> scheduler_snapshot" where
  "snap_of a b = \<lparr>ss_models = [a, b], ss_resident = Some (ms_name a), ss_draining = False,
     ss_switching = False\<rparr>"

definition busy_a :: model_state where
  "busy_a = (waiting_model ''a'' 1 990)\<lparr>ms_resident := True, ms_resident_since := Some 900, ms_in_flight := 2\<rparr>"

definition idle_a :: model_state where
  "idle_a = (waiting_model ''a'' 0 0)\<lparr>ms_oldest_enqueued_at := None, ms_resident := True,
     ms_resident_since := Some 900, ms_idle_since := Some 950\<rparr>"

lemmas example_snaps = waiting_model_def snap_of_def busy_a_def idle_a_def
lemmas policy_eval = decide_def Let_def overdue_def servable_def with_work_def snapshot_scores_def
  score_model_def has_pending_def is_available_def oldest_wait_def is_busy_def idle_for_def
  resident_state_def by_name_def default_scheduler_config_def

theorem starvation_ceiling_mandatory_witness:
  "dc_target (decide (snap_of busy_a (waiting_model ''b'' 1 800)) 1000 default_scheduler_config) = Some ''b''"
proof -
  let ?s = "snap_of busy_a (waiting_model ''b'' 1 800)"
  have over: "overdue ?s 1000 default_scheduler_config = [waiting_model ''b'' 1 800]"
    by (simp add: example_snaps policy_eval)
  have "\<exists>t \<in> set (overdue ?s 1000 default_scheduler_config).
      dc_target (decide ?s 1000 default_scheduler_config) = Some (ms_name t)"
    using starvation_ceiling_mandatory
      [of ?s "waiting_model ''b'' 1 800" 1000 default_scheduler_config]
    by (fastforce simp: example_snaps has_pending_def is_available_def oldest_wait_def
        default_scheduler_config_def)
  then show ?thesis using over by (simp add: waiting_model_def)
qed

lemma snap_of_ok: "ms_name a \<noteq> [] \<Longrightarrow> ms_name a \<noteq> ms_name b \<Longrightarrow> snapshot_ok (snap_of a b)"
  by (auto simp: snapshot_ok_def snap_of_def)

lemma scored_example:
  "dc_kind (decide (snap_of idle_a (waiting_model ''b'' 3 960)) 1000 default_scheduler_config) = SWITCH"
  "dc_reason (decide (snap_of idle_a (waiting_model ''b'' 3 960)) 1000 default_scheduler_config) = RESIDENT_IDLE"
  by (simp_all add: example_snaps policy_eval)

theorem switch_target_sound_witness:
  "\<exists>t \<in> {idle_a, waiting_model ''b'' 3 960}.
     ms_name t \<noteq> ''a'' \<and> has_pending t
     \<and> dc_target (decide (snap_of idle_a (waiting_model ''b'' 3 960)) 1000 default_scheduler_config)
         = Some (ms_name t)"
proof -
  have "snapshot_ok (snap_of idle_a (waiting_model ''b'' 3 960))"
    by (rule snap_of_ok) (simp_all add: example_snaps)
  from switch_target_sound [OF this scored_example(1)] show ?thesis
    by (auto simp: snap_of_def idle_a_def waiting_model_def)
qed

theorem scored_swap_justified_witness:
  "\<exists>r t. demand default_scheduler_config 1000 r + swap_cost default_scheduler_config t
      < demand default_scheduler_config 1000 t"
proof -
  have "snapshot_ok (snap_of idle_a (waiting_model ''b'' 3 960))"
    by (rule snap_of_ok) (simp_all add: example_snaps)
  from scored_swap_justified [OF this scored_example(1)] scored_example(2) show ?thesis by blast
qed

lemma estimate_example:
  "estimate_wait (snap_of busy_a (waiting_model ''b'' 1 960)) ''b'' 0 1000 default_scheduler_config 2
     = Inr \<lparr>we_position = 0, we_resident = False, we_needs_swap = True, we_load_seconds = 8,
            we_dispatch_within_seconds = Some 80, we_estimated_seconds = 10, we_retry_after = 5 / 2\<rparr>"
  by (simp add: estimate_wait_def gpu_wait_def requests_ahead_def example_snaps policy_eval
      min_retry_after_def max_retry_after_def)

theorem idle_iff_nothing_servable_witness:
  "dc_kind (decide (snap_of idle_a (waiting_model ''b'' 0 0)) 1000 default_scheduler_config) = IDLE"
  using idle_iff_nothing_servable [of "snap_of idle_a (waiting_model ''b'' 0 0)" 1000 default_scheduler_config]
  by (simp add: example_snaps has_pending_def)

theorem dispatch_within_exact_witness:
  "dc_kind (decide (snap_of busy_a (waiting_model ''b'' 1 960)) 1080 default_scheduler_config) = SWITCH"
  using dispatch_within_exact [OF estimate_example, of 80 "waiting_model ''b'' 1 960" 960 1080]
  by (simp add: example_snaps by_name_def has_pending_def is_available_def default_scheduler_config_def)

theorem estimate_batches_witness:
  "\<exists>e e'. estimate_wait (snap_of busy_a idle_a) ''a'' 0 1000 default_scheduler_config 2 = Inr e
    \<and> estimate_wait (snap_of busy_a idle_a) ''a'' 8 1000 default_scheduler_config 2 = Inr e'
    \<and> we_estimated_seconds e' = we_estimated_seconds e + 2"
proof -
  have cap: "0 < sc_max_concurrent_requests default_scheduler_config"
    and eight: "0 + nat (sc_max_concurrent_requests default_scheduler_config) = 8"
    by (simp_all add: default_scheduler_config_def)
  have "by_name (snap_of busy_a idle_a) ''a'' = Some busy_a"
    by (simp add: by_name_def example_snaps)
  from estimate_batches [OF cap this, of 0 1000 2] show ?thesis
    unfolding eight by blast
qed

theorem dispatch_within_ignores_backoff_witness:
  "\<exists>e. estimate_wait (snap_of busy_a ((waiting_model ''b'' 1 800)\<lparr>ms_unavailable_until := Some 2000\<rparr>))
        ''b'' 0 1000 default_scheduler_config 2 = Inr e
     \<and> we_dispatch_within_seconds e = Some 0"
proof -
  let ?b = "(waiting_model ''b'' 1 800)\<lparr>ms_unavailable_until := Some 2000\<rparr>"
  let ?s = "snap_of busy_a ?b"
  obtain e where e: "estimate_wait ?s ''b'' 0 1000 default_scheduler_config 2 = Inr e"
    by (simp add: estimate_wait_def Let_def example_snaps by_name_def default_scheduler_config_def)
  have "snapshot_ok ?s" by (rule snap_of_ok) (simp_all add: example_snaps)
  from dispatch_within_ignores_backoff [OF e _ this, of ?b] e show ?thesis
    by (simp add: example_snaps by_name_def is_available_def oldest_wait_def default_scheduler_config_def)
qed

end
