(* ===== verification/Sir_Queues.thy ===== *)
theory Sir_Queues
  imports Sir_Types "HOL-Library.Multiset"
begin

text \<open>
  The per-model FIFO queues of \<open>src/src/sir/queues.py\<close>. The dict of deques is an association
  list from model names to lists of request ids, in the dict's order; the requests themselves
  live in a store, because the engine, the tasks and the API hold references to the same
  objects. An operation on a model the dict does not have is \<open>None\<close> (Python's KeyError).

  The abstraction is the list of live (not cancelled) requests per model. The locale
  \<open>live_fifo\<close> states what the engine relies on; it is interpreted on the operations below.
\<close>

type_synonym model_queues = "(string \<times> rid list) list"
type_synonym qstate = "store \<times> model_queues"

subsection \<open>The request store\<close>

definition is_cancelled :: "store \<Rightarrow> rid \<Rightarrow> bool" where
  "is_cancelled st r = (case st r of None \<Rightarrow> False | Some q \<Rightarrow> qr_cancelled q)"

definition upd_req :: "rid \<Rightarrow> (queued_request \<Rightarrow> queued_request) \<Rightarrow> store \<Rightarrow> store" where
  "upd_req r f st = (case st r of None \<Rightarrow> st | Some q \<Rightarrow> st(r \<mapsto> f q))"

definition set_state :: "request_state \<Rightarrow> rid \<Rightarrow> store \<Rightarrow> store" where
  "set_state s r = upd_req r (\<lambda>q. q\<lparr>qr_state := s\<rparr>)"

definition mark_running :: "seconds \<Rightarrow> rid \<Rightarrow> store \<Rightarrow> store" where
  "mark_running now r = upd_req r (\<lambda>q. q\<lparr>qr_state := RUNNING, qr_started_at := Some now\<rparr>)"

subsection \<open>Operations\<close>

definition mq_init :: "string list \<Rightarrow> model_queues" where
  "mq_init names = foldl (\<lambda>d n. AList.update n [] d) [] names"

definition mq_contains :: "string \<Rightarrow> model_queues \<Rightarrow> bool" where
  "mq_contains m qs \<longleftrightarrow> map_of qs m \<noteq> None"

definition mq_model_names :: "model_queues \<Rightarrow> string list" where
  "mq_model_names qs = map fst qs"

definition mq_enqueue :: "rid \<Rightarrow> qstate \<Rightarrow> qstate option" where
  "mq_enqueue r s =
     (case fst s r of
        None \<Rightarrow> None
      | Some q \<Rightarrow>
          (case map_of (snd s) (qr_model q) of
             None \<Rightarrow> None
           | Some rs \<Rightarrow> Some (fst s, AList.update (qr_model q) (rs @ [r]) (snd s))))"

definition count_live :: "store \<Rightarrow> rid list \<Rightarrow> nat" where
  "count_live st rs = length (filter (\<lambda>r. \<not> is_cancelled st r) rs)"

definition mq_depth :: "string \<Rightarrow> qstate \<Rightarrow> nat option" where
  "mq_depth m s = map_option (count_live (fst s)) (map_of (snd s) m)"

fun first_live_at :: "store \<Rightarrow> rid list \<Rightarrow> seconds option" where
  "first_live_at st [] = None"
| "first_live_at st (r # rs) =
     (if \<not> is_cancelled st r then map_option qr_enqueued_at (st r) else first_live_at st rs)"

definition mq_oldest_enqueued_at :: "string \<Rightarrow> qstate \<Rightarrow> seconds option option" where
  "mq_oldest_enqueued_at m s = map_option (first_live_at (fst s)) (map_of (snd s) m)"

fun position_from :: "store \<Rightarrow> rid \<Rightarrow> nat \<Rightarrow> rid list \<Rightarrow> nat option" where
  "position_from st r pos [] = None"
| "position_from st r pos (x # xs) =
     (if x = r then Some pos
      else position_from st r (if \<not> is_cancelled st x then Suc pos else pos) xs)"

text \<open>\<open>self._queues.get(request.model, ())\<close>: an unknown model is an empty queue here.\<close>

definition mq_position_of :: "rid \<Rightarrow> qstate \<Rightarrow> nat option" where
  "mq_position_of r s =
     (case fst s r of
        None \<Rightarrow> None
      | Some q \<Rightarrow> position_from (fst s) r 0
                    (case map_of (snd s) (qr_model q) of None \<Rightarrow> [] | Some rs \<Rightarrow> rs))"

definition mq_total_pending :: "qstate \<Rightarrow> nat" where
  "mq_total_pending s = sum_list (map (\<lambda>(n, rs). count_live (fst s) rs) (snd s))"

definition mq_models_with_work :: "qstate \<Rightarrow> string list" where
  "mq_models_with_work s = map fst (filter (\<lambda>(n, rs). count_live (fst s) rs > 0) (snd s))"

text \<open>The \<open>while queue\<close> loop of \<open>next_for\<close>: cancelled entries are dropped on the way.\<close>

fun pop_live :: "seconds \<Rightarrow> store \<Rightarrow> rid list \<Rightarrow> rid option \<times> store \<times> rid list" where
  "pop_live now st [] = (None, st, [])"
| "pop_live now st (r # rs) =
     (if is_cancelled st r then pop_live now (set_state CANCELLED r st) rs
      else (Some r, mark_running now r st, rs))"

definition mq_next_for :: "string \<Rightarrow> seconds \<Rightarrow> qstate \<Rightarrow> (rid option \<times> qstate) option" where
  "mq_next_for m now s =
     (case map_of (snd s) m of
        None \<Rightarrow> None
      | Some rs \<Rightarrow>
          (case pop_live now (fst s) rs of
             (r, st', rs') \<Rightarrow> Some (r, (st', AList.update m rs' (snd s)))))"

text \<open>
  The generator \<open>take_while\<close>, for any pop operation: at most \<open>n\<close> pops, stopping at the first
  empty one. Its consumer does not touch the queues between two pops.
\<close>

fun take_loop :: "('q \<Rightarrow> (rid option \<times> 'q) option) \<Rightarrow> nat \<Rightarrow> 'q \<Rightarrow> (rid list \<times> 'q) option" where
  "take_loop pop 0 s = Some ([], s)"
| "take_loop pop (Suc n) s =
     (case pop s of
        None \<Rightarrow> None
      | Some (None, s') \<Rightarrow> Some ([], s')
      | Some (Some r, s') \<Rightarrow>
          (case take_loop pop n s' of None \<Rightarrow> None | Some (rs, s'') \<Rightarrow> Some (r # rs, s'')))"

definition mq_take_while :: "string \<Rightarrow> seconds \<Rightarrow> int \<Rightarrow> qstate \<Rightarrow> (rid list \<times> qstate) option" where
  "mq_take_while m now limit s = take_loop (mq_next_for m now) (nat (max 0 limit)) s"

fun purge_queue :: "store \<Rightarrow> rid list \<Rightarrow> store \<times> rid list \<times> rid list" where
  "purge_queue st [] = (st, [], [])"
| "purge_queue st (r # rs) =
     (if is_cancelled st r
      then (case purge_queue (set_state CANCELLED r st) rs of (st', live, removed) \<Rightarrow> (st', live, r # removed))
      else (case purge_queue st rs of (st', live, removed) \<Rightarrow> (st', r # live, removed)))"

fun mq_purge_cancelled :: "store \<Rightarrow> model_queues \<Rightarrow> rid list \<times> qstate" where
  "mq_purge_cancelled st [] = ([], (st, []))"
| "mq_purge_cancelled st ((name, rs) # rest) =
     (if \<not> list_ex (is_cancelled st) rs
      then (case mq_purge_cancelled st rest of (removed, (st', rest')) \<Rightarrow>
              (removed, (st', (name, rs) # rest')))
      else (case purge_queue st rs of (st1, live, removed1) \<Rightarrow>
              (case mq_purge_cancelled st1 rest of (removed, (st', rest')) \<Rightarrow>
                 (removed1 @ removed, (st', (name, live) # rest')))))"

definition mq_drain :: "string \<Rightarrow> qstate \<Rightarrow> (rid list \<times> qstate) option" where
  "mq_drain m s =
     (case map_of (snd s) m of
        None \<Rightarrow> None
      | Some rs \<Rightarrow> Some (rs, (fst s, AList.update m [] (snd s))))"

definition mq_snapshot_depths :: "qstate \<Rightarrow> (string \<times> nat) list" where
  "mq_snapshot_depths s = map (\<lambda>(n, rs). (n, count_live (fst s) rs)) (snd s)"

subsection \<open>The store under updates\<close>

lemma dom_upd_req [simp]: "dom (upd_req r f st) = dom st"
  by (auto simp: upd_req_def split: option.splits)

lemma upd_req_other [simp]: "x \<noteq> r \<Longrightarrow> upd_req r f st x = st x"
  by (simp add: upd_req_def split: option.splits)

lemma upd_req_same: "upd_req r f st r = map_option f (st r)"
  by (simp add: upd_req_def split: option.splits)

lemma upd_req_apply: "upd_req r f st x = (if x = r then map_option f (st x) else st x)"
  by (simp add: upd_req_same)

lemma is_cancelled_upd_req:
  "(\<And>q. qr_cancelled (f q) = qr_cancelled q) \<Longrightarrow> is_cancelled (upd_req r f st) = is_cancelled st"
  by (auto simp: is_cancelled_def upd_req_apply fun_eq_iff split: option.splits)

lemma is_cancelled_set_state [simp]: "is_cancelled (set_state s r st) = is_cancelled st"
  unfolding set_state_def by (rule is_cancelled_upd_req) simp

lemma is_cancelled_mark_running [simp]: "is_cancelled (mark_running now r st) = is_cancelled st"
  unfolding mark_running_def by (rule is_cancelled_upd_req) simp

text \<open>A store changes only in states and start times: what a queue operation may do to it.\<close>

definition fixed_part :: "queued_request \<Rightarrow> queued_request" where
  "fixed_part q = q\<lparr>qr_state := QUEUED, qr_started_at := None\<rparr>"

definition same_identity :: "store \<Rightarrow> store \<Rightarrow> bool" where
  "same_identity st st' \<longleftrightarrow> (\<forall>r. map_option fixed_part (st r) = map_option fixed_part (st' r))"

lemma fixed_part_simps [simp]:
  "qr_request (fixed_part q) = qr_request q" "qr_enqueued_at (fixed_part q) = qr_enqueued_at q"
  "qr_events (fixed_part q) = qr_events q" "qr_cancelled (fixed_part q) = qr_cancelled q"
  "qr_finished_at (fixed_part q) = qr_finished_at q"
  by (simp_all add: fixed_part_def)

lemma same_identity_refl [simp]: "same_identity st st"
  by (simp add: same_identity_def)

lemma same_identity_trans: "same_identity a b \<Longrightarrow> same_identity b c \<Longrightarrow> same_identity a c"
  by (simp add: same_identity_def)

lemma same_identity_Some:
  assumes "same_identity st st'" and "st r = Some q"
  obtains q' where "st' r = Some q'" "fixed_part q' = fixed_part q"
  using assms unfolding same_identity_def by (metis (no_types, lifting) map_option_eq_Some)

lemma same_identity_None: "same_identity st st' \<Longrightarrow> st r = None \<longleftrightarrow> st' r = None"
  unfolding same_identity_def by (metis map_option_is_None)

lemma same_identity_cancelled: "same_identity st st' \<Longrightarrow> is_cancelled st' = is_cancelled st"
proof
  fix r
  assume s: "same_identity st st'"
  show "is_cancelled st' r = is_cancelled st r"
  proof (cases "st r")
    case None
    with same_identity_None [OF s, of r] show ?thesis by (simp add: is_cancelled_def)
  next
    case (Some q)
    with s obtain q' where "st' r = Some q'" "fixed_part q' = fixed_part q"
      by (rule same_identity_Some)
    with Some show ?thesis
      by (simp add: is_cancelled_def) (metis fixed_part_simps(4))
  qed
qed

lemma same_identity_set_state [simp]: "same_identity st (set_state s r st)"
  by (simp add: same_identity_def set_state_def upd_req_apply option.map_comp o_def fixed_part_def [abs_def])

lemma same_identity_mark_running [simp]: "same_identity st (mark_running now r st)"
  by (simp add: same_identity_def mark_running_def upd_req_apply option.map_comp o_def fixed_part_def [abs_def])

subsection \<open>The contract the engine relies on\<close>

text \<open>
  A family of FIFO queues seen through the live requests of each model: popping serves the
  oldest live request and leaves every other model alone, pushing appends unless the request
  is already gone.
\<close>

locale live_fifo =
  fixes live :: "'q \<Rightarrow> string \<Rightarrow> rid list option"
    and gone :: "'q \<Rightarrow> rid \<Rightarrow> bool"
    and model_of :: "'q \<Rightarrow> rid \<Rightarrow> string option"
    and pop :: "string \<Rightarrow> seconds \<Rightarrow> 'q \<Rightarrow> (rid option \<times> 'q) option"
    and push :: "rid \<Rightarrow> 'q \<Rightarrow> 'q option"
  assumes pop_head: "live q m = Some l \<Longrightarrow>
      \<exists>q'. pop m now q = Some (if l = [] then None else Some (hd l), q')
        \<and> live q' m = Some (tl l) \<and> (\<forall>m'. m' \<noteq> m \<longrightarrow> live q' m' = live q m')
        \<and> gone q' = gone q \<and> model_of q' = model_of q"
    and push_tail: "model_of q r = Some m \<Longrightarrow> live q m = Some l \<Longrightarrow>
      \<exists>q'. push r q = Some q'
        \<and> live q' m = Some (if gone q r then l else l @ [r])
        \<and> (\<forall>m'. m' \<noteq> m \<longrightarrow> live q' m' = live q m')
        \<and> gone q' = gone q \<and> model_of q' = model_of q"
begin

lemma take_prefix:
  "live q m = Some l \<Longrightarrow>
   \<exists>q'. take_loop (pop m now) n q = Some (take n l, q') \<and> live q' m = Some (drop n l)
     \<and> (\<forall>m'. m' \<noteq> m \<longrightarrow> live q' m' = live q m')"
proof (induction n arbitrary: q l)
  case 0
  then show ?case by simp
next
  case (Suc n)
  obtain q' where q': "pop m now q = Some (if l = [] then None else Some (hd l), q')"
    "live q' m = Some (tl l)" "\<forall>m'. m' \<noteq> m \<longrightarrow> live q' m' = live q m'"
    using pop_head [OF Suc.prems] by blast
  show ?case
  proof (cases l)
    case Nil
    with q' show ?thesis by simp
  next
    case (Cons r rs)
    with q'(2) have "live q' m = Some rs" by simp
    from Suc.IH [OF this] q' Cons show ?thesis by fastforce
  qed
qed

text \<open>A request pushed live is served after exactly the live requests ahead of it.\<close>

lemma push_then_take:
  assumes "model_of q r = Some m" and "live q m = Some l" and "\<not> gone q r"
  shows "\<exists>q1 q2. push r q = Some q1 \<and> take_loop (pop m now) (Suc (length l)) q1 = Some (l @ [r], q2)
    \<and> live q2 m = Some []"
proof -
  obtain q1 where q1: "push r q = Some q1" "live q1 m = Some (l @ [r])"
    using push_tail [OF assms(1,2)] assms(3) by auto
  from take_prefix [OF q1(2), of now "Suc (length l)"] q1 show ?thesis by auto
qed

end

subsection \<open>The queues meet the contract\<close>

definition live :: "store \<Rightarrow> rid list \<Rightarrow> rid list" where
  "live st rs = filter (\<lambda>r. \<not> is_cancelled st r) rs"

definition mq_live :: "qstate \<Rightarrow> string \<Rightarrow> rid list option" where
  "mq_live s m = map_option (live (fst s)) (map_of (snd s) m)"

lemma live_simps [simp]:
  "live st [] = []"
  "live st (r # rs) = (if is_cancelled st r then live st rs else r # live st rs)"
  "live st (xs @ ys) = live st xs @ live st ys"
  by (simp_all add: live_def)

lemma set_live [simp]: "set (live st rs) = {r \<in> set rs. \<not> is_cancelled st r}"
  by (auto simp: live_def)

lemma count_live_eq [queue_simps]: "count_live st rs = length (live st rs)"
  by (simp add: count_live_def live_def)

lemma live_same_identity: "same_identity st st' \<Longrightarrow> live st' = live st"
  by (simp add: live_def fun_eq_iff same_identity_cancelled)

lemma live_set_state [simp]: "live (set_state s r st) = live st"
  by (simp add: live_same_identity)

lemma live_mark_running [simp]: "live (mark_running now r st) = live st"
  by (simp add: live_same_identity)

lemma pop_live_spec:
  assumes "pop_live now st rs = (ro, st', rs')"
  shows "ro = (if live st rs = [] then None else Some (hd (live st rs)))
    \<and> live st rs' = tl (live st rs) \<and> same_identity st st' \<and> set rs' \<subseteq> set rs"
  using assms
proof (induction rs arbitrary: st)
  case Nil
  then show ?case by simp
next
  case (Cons r rs)
  show ?case
  proof (cases "is_cancelled st r")
    case True
    with Cons.prems have "pop_live now (set_state CANCELLED r st) rs = (ro, st', rs')" by simp
    from Cons.IH [OF this] True show ?thesis
      using same_identity_trans [OF same_identity_set_state] by auto
  next
    case False
    with Cons.prems show ?thesis by auto
  qed
qed

lemma mq_next_for_spec:
  assumes "mq_live s m = Some l"
  shows "\<exists>s'. mq_next_for m now s = Some (if l = [] then None else Some (hd l), s')
    \<and> mq_live s' m = Some (tl l) \<and> (\<forall>m'. m' \<noteq> m \<longrightarrow> mq_live s' m' = mq_live s m')
    \<and> same_identity (fst s) (fst s') \<and> map fst (snd s') = map fst (snd s)"
proof -
  obtain rs where rs: "map_of (snd s) m = Some rs" "l = live (fst s) rs"
    using assms by (auto simp: mq_live_def)
  obtain ro st' rs' where pop: "pop_live now (fst s) rs = (ro, st', rs')"
    by (cases "pop_live now (fst s) rs") auto
  have mem: "m \<in> fst ` set (snd s)"
    using rs(1) by (force dest: map_of_SomeD)
  from pop_live_spec [OF pop] rs pop mem show ?thesis
    by (auto simp: mq_next_for_def mq_live_def live_same_identity update_keys_mem)
qed

lemma mq_enqueue_spec:
  assumes "fst s r = Some q" and "mq_live s (qr_model q) = Some l"
  shows "\<exists>s'. mq_enqueue r s = Some s' \<and> fst s' = fst s
    \<and> mq_live s' (qr_model q) = Some (if is_cancelled (fst s) r then l else l @ [r])
    \<and> (\<forall>m'. m' \<noteq> qr_model q \<longrightarrow> mq_live s' m' = mq_live s m')
    \<and> map fst (snd s') = map fst (snd s)"
proof -
  obtain rs where rs: "map_of (snd s) (qr_model q) = Some rs" "l = live (fst s) rs"
    using assms(2) by (auto simp: mq_live_def)
  have "qr_model q \<in> fst ` set (snd s)"
    using rs(1) by (force dest: map_of_SomeD)
  with assms(1) rs show ?thesis
    by (auto simp: mq_enqueue_def mq_live_def update_keys_mem)
qed

definition mq_model_of :: "qstate \<Rightarrow> rid \<Rightarrow> string option" where
  "mq_model_of s r = map_option qr_model (fst s r)"

lemma mq_model_of_same_identity:
  "same_identity (fst s) (fst s') \<Longrightarrow> mq_model_of s' = mq_model_of s"
proof
  fix r
  assume si: "same_identity (fst s) (fst s')"
  show "mq_model_of s' r = mq_model_of s r"
  proof (cases "fst s r")
    case None
    with same_identity_None [OF si, of r] show ?thesis by (simp add: mq_model_of_def)
  next
    case (Some q)
    with si obtain q' where q': "fst s' r = Some q'" "fixed_part q' = fixed_part q"
      by (rule same_identity_Some)
    have "qr_request q' = qr_request q"
      using q'(2) by (metis fixed_part_simps(1))
    with Some q'(1) show ?thesis by (simp add: mq_model_of_def qr_model_def)
  qed
qed

interpretation mq: live_fifo mq_live "\<lambda>s. is_cancelled (fst s)" mq_model_of mq_next_for mq_enqueue
proof unfold_locales
  fix q :: qstate and m l now
  assume "mq_live q m = Some l"
  from mq_next_for_spec [OF this, of now]
  show "\<exists>q'. mq_next_for m now q = Some (if l = [] then None else Some (hd l), q')
      \<and> mq_live q' m = Some (tl l) \<and> (\<forall>m'. m' \<noteq> m \<longrightarrow> mq_live q' m' = mq_live q m')
      \<and> is_cancelled (fst q') = is_cancelled (fst q) \<and> mq_model_of q' = mq_model_of q"
    by (blast intro: same_identity_cancelled mq_model_of_same_identity)
next
  fix q :: qstate and r m l
  assume "mq_model_of q r = Some m" and l: "mq_live q m = Some l"
  then obtain qr where "fst q r = Some qr" "m = qr_model qr"
    by (auto simp: mq_model_of_def)
  from mq_enqueue_spec [OF this(1), of l] l this(2) obtain q' where "mq_enqueue r q = Some q'"
    "fst q' = fst q" "mq_live q' m = Some (if is_cancelled (fst q) r then l else l @ [r])"
    "\<forall>m'. m' \<noteq> m \<longrightarrow> mq_live q' m' = mq_live q m'"
    by blast
  then show "\<exists>q'. mq_enqueue r q = Some q'
      \<and> mq_live q' m = Some (if is_cancelled (fst q) r then l else l @ [r])
      \<and> (\<forall>m'. m' \<noteq> m \<longrightarrow> mq_live q' m' = mq_live q m')
      \<and> is_cancelled (fst q') = is_cancelled (fst q) \<and> mq_model_of q' = mq_model_of q"
    using mq_model_of_same_identity [of q q'] by auto
qed

subsection \<open>What a pop does to the store\<close>

definition run_req :: "seconds \<Rightarrow> queued_request \<Rightarrow> queued_request" where
  "run_req now q = q\<lparr>qr_state := RUNNING, qr_started_at := Some now\<rparr>"

definition drop_req :: "queued_request \<Rightarrow> queued_request" where
  "drop_req q = q\<lparr>qr_state := CANCELLED\<rparr>"

lemma mark_running_apply: "mark_running now r st x = (if x = r then map_option (run_req now) (st x) else st x)"
  by (auto simp: mark_running_def upd_req_apply run_req_def [abs_def])

lemma set_cancelled_apply: "set_state CANCELLED r st x = (if x = r then map_option drop_req (st x) else st x)"
  by (auto simp: set_state_def upd_req_apply drop_req_def [abs_def])

text \<open>The store after requests \<open>ts\<close> were dispatched and \<open>ds\<close> dropped.\<close>

definition taken_store :: "seconds \<Rightarrow> rid list \<Rightarrow> rid list \<Rightarrow> store \<Rightarrow> store" where
  "taken_store now ts ds st x =
     (if x \<in> set ts then map_option (run_req now) (st x)
      else if x \<in> set ds then map_option drop_req (st x) else st x)"

lemma is_cancelled_taken_store [simp]: "is_cancelled (taken_store now ts ds st) = is_cancelled st"
  by (auto simp: is_cancelled_def taken_store_def run_req_def drop_req_def fun_eq_iff split: option.splits)

lemma pop_live_store:
  assumes "pop_live now st rs = (ro, st', rs')" and "distinct rs"
  shows "\<exists>ds. rs = ds @ (case ro of None \<Rightarrow> [] | Some r \<Rightarrow> [r]) @ rs'
    \<and> (\<forall>x \<in> set ds. is_cancelled st x) \<and> (\<forall>r. ro = Some r \<longrightarrow> \<not> is_cancelled st r)
    \<and> st' = taken_store now (case ro of None \<Rightarrow> [] | Some r \<Rightarrow> [r]) ds st"
  using assms
proof (induction rs arbitrary: st)
  case Nil
  then show ?case by (auto simp: taken_store_def fun_eq_iff)
next
  case (Cons r rs)
  show ?case
  proof (cases "is_cancelled st r")
    case True
    with Cons.prems have "pop_live now (set_state CANCELLED r st) rs = (ro, st', rs')" by simp
    from Cons.IH [OF this] Cons.prems(2) obtain ds
      where ds: "rs = ds @ (case ro of None \<Rightarrow> [] | Some r \<Rightarrow> [r]) @ rs'"
        "\<forall>x \<in> set ds. is_cancelled st x" "\<forall>r. ro = Some r \<longrightarrow> \<not> is_cancelled st r"
        "st' = taken_store now (case ro of None \<Rightarrow> [] | Some r \<Rightarrow> [r]) ds (set_state CANCELLED r st)"
      by auto
    have "st' = taken_store now (case ro of None \<Rightarrow> [] | Some r \<Rightarrow> [r]) (r # ds) st"
      using ds(1,4) Cons.prems(2)
      by (auto simp: taken_store_def fun_eq_iff set_cancelled_apply)
    with ds True show ?thesis by (intro exI [of _ "r # ds"]) simp
  next
    case False
    with Cons.prems have "ro = Some r" "rs' = rs" "st' = mark_running now r st" by auto
    moreover have "mark_running now r st = taken_store now [r] [] st"
      by (auto simp: taken_store_def fun_eq_iff mark_running_apply)
    ultimately show ?thesis using False by (intro exI [of _ "[]"]) simp
  qed
qed

lemma taken_store_twice:
  "set ts2 \<inter> set (ts1 @ ds1) = {} \<Longrightarrow> set ds2 \<inter> set (ts1 @ ds1) = {} \<Longrightarrow> set ts1 \<inter> set ds1 = {} \<Longrightarrow>
   taken_store now ts2 ds2 (taken_store now ts1 ds1 st) = taken_store now (ts1 @ ts2) (ds1 @ ds2) st"
  by (auto simp: taken_store_def fun_eq_iff)

lemma mq_take_store:
  assumes "take_loop (mq_next_for m now) n s = Some (ts, s')" and "map_of (snd s) m = Some rs"
    and "distinct rs"
  shows "\<exists>ds rs'. map_of (snd s') m = Some rs' \<and> mset rs = mset ts + mset ds + mset rs'
    \<and> (\<forall>x \<in> set ds. is_cancelled (fst s) x) \<and> (\<forall>x \<in> set ts. \<not> is_cancelled (fst s) x)
    \<and> (\<forall>m'. m' \<noteq> m \<longrightarrow> map_of (snd s') m' = map_of (snd s) m')
    \<and> fst s' = taken_store now ts ds (fst s) \<and> map fst (snd s') = map fst (snd s)"
  using assms
proof (induction n arbitrary: s rs ts)
  case 0
  then show ?case by (auto simp: taken_store_def fun_eq_iff intro!: exI [of _ "[]"])
next
  case (Suc n)
  obtain ro st1 rs1 where pop: "pop_live now (fst s) rs = (ro, st1, rs1)"
    by (cases "pop_live now (fst s) rs") auto
  let ?s1 = "(st1, AList.update m rs1 (snd s))"
  let ?r = "case ro of None \<Rightarrow> [] | Some r \<Rightarrow> [r]"
  from pop_live_store [OF pop Suc.prems(3)] obtain ds
    where ds: "rs = ds @ ?r @ rs1" "\<forall>x \<in> set ds. is_cancelled (fst s) x"
      "\<forall>r. ro = Some r \<longrightarrow> \<not> is_cancelled (fst s) r" "st1 = taken_store now ?r ds (fst s)"
    by blast
  have next': "mq_next_for m now s = Some (ro, ?s1)"
    using Suc.prems(2) pop by (simp add: mq_next_for_def)
  have mem: "m \<in> fst ` set (snd s)"
    using Suc.prems(2) by (force dest: map_of_SomeD)
  show ?case
  proof (cases ro)
    case None
    with Suc.prems(1) next' have "ts = []" "s' = ?s1" by auto
    with ds None mem show ?thesis
      by (intro exI [of _ ds] exI [of _ rs1]) (auto simp: update_keys_mem)
  next
    case (Some r)
    with Suc.prems(1) next' obtain ts1 where ts1: "take_loop (mq_next_for m now) n ?s1 = Some (ts1, s')"
      "ts = r # ts1"
      by (auto split: option.splits)
    have "map_of (snd ?s1) m = Some rs1" "distinct rs1"
      using ds(1) Suc.prems(3) by auto
    from Suc.IH [OF ts1(1) this] obtain ds2 rs2 where IH: "map_of (snd s') m = Some rs2"
      "mset rs1 = mset ts1 + mset ds2 + mset rs2"
      "\<forall>x \<in> set ds2. is_cancelled (fst s) x" "\<forall>x \<in> set ts1. \<not> is_cancelled (fst s) x"
      "\<forall>m'. m' \<noteq> m \<longrightarrow> map_of (snd s') m' = map_of (snd s) m'"
      "fst s' = taken_store now ts1 ds2 st1" "map fst (snd s') = map fst (snd s)"
      using ds(4) mem by (auto simp: update_keys_mem)
    have "set ts1 \<subseteq> set rs1" "set ds2 \<subseteq> set rs1"
      using IH(2) by (metis mset_subset_eq_add_left mset_subset_eq_add_right set_mset_mono set_mset_mset
          subset_mset.add_increasing subset_mset.order_trans)+
    then have "fst s' = taken_store now ts (ds @ ds2) (fst s)"
      using IH(6) ds(1,4) Some ts1(2) Suc.prems(3)
        taken_store_twice [of ts1 "[r]" ds ds2 now "fst s"] by auto
    with IH ds Some ts1(2) show ?thesis
      by (intro exI [of _ "ds @ ds2"] exI [of _ rs2]) auto
  qed
qed

subsection \<open>Positions and purging\<close>

lemma position_from_eq:
  "position_from st r p rs = (if r \<in> set rs then Some (p + length (live st (takeWhile (\<lambda>x. x \<noteq> r) rs))) else None)"
  by (induction rs arbitrary: p) auto

lemma live_split:
  assumes "r \<in> set rs" and "\<not> is_cancelled st r"
  shows "\<exists>ys. live st rs = live st (takeWhile (\<lambda>x. x \<noteq> r) rs) @ r # ys
    \<and> r \<notin> set (live st (takeWhile (\<lambda>x. x \<noteq> r) rs))"
proof -
  obtain ys zs where rs: "rs = ys @ r # zs" "r \<notin> set ys"
    using split_list_first [OF assms(1)] by blast
  have "takeWhile (\<lambda>x. x \<noteq> r) rs = ys"
    unfolding rs(1) using rs(2) by (subst takeWhile_append2) auto
  with rs assms(2) show ?thesis by auto
qed

lemma drop_req_idem [simp]: "drop_req (drop_req q) = drop_req q"
  by (simp add: drop_req_def)

lemma taken_store_drop_Cons:
  "taken_store now [] ds (set_state CANCELLED r st) = taken_store now [] (r # ds) st"
  by (auto simp: taken_store_def fun_eq_iff set_cancelled_apply option.map_comp o_def)

lemma taken_store_Nil [simp]: "taken_store now [] [] st = st"
  by (simp add: taken_store_def fun_eq_iff)

lemma taken_store_drop_append:
  "taken_store now [] ds2 (taken_store now [] ds1 st) = taken_store now [] (ds1 @ ds2) st"
  by (auto simp: taken_store_def fun_eq_iff option.map_comp o_def)

lemma purge_queue_spec:
  "purge_queue st rs = (taken_store now [] (filter (is_cancelled st) rs) st, live st rs,
     filter (is_cancelled st) rs)"
  by (induction rs arbitrary: st) (auto simp: taken_store_drop_Cons)

lemma live_all: "\<not> list_ex (is_cancelled st) rs \<Longrightarrow> live st rs = rs \<and> filter (is_cancelled st) rs = []"
  by (auto simp: list_ex_iff live_def filter_empty_conv filter_id_conv)

lemma live_taken_store [simp]: "live (taken_store now ts ds st) = live st"
  by (simp add: live_def fun_eq_iff)

lemma mq_purge_spec:
  "mq_purge_cancelled st qs =
     (concat (map (\<lambda>(n, rs). filter (is_cancelled st) rs) qs),
      (taken_store now [] (concat (map (\<lambda>(n, rs). filter (is_cancelled st) rs) qs)) st,
       map (\<lambda>(n, rs). (n, live st rs)) qs))"
proof (induction qs arbitrary: st)
  case Nil
  then show ?case by simp
next
  case (Cons nq qs)
  obtain n rs where nq: "nq = (n, rs)" by (cases nq)
  show ?case
  proof (cases "list_ex (is_cancelled st) rs")
    case False
    from live_all [OF False] Cons.IH [of st] False show ?thesis by (simp add: nq)
  next
    case True
    with Cons.IH [of "taken_store now [] (filter (is_cancelled st) rs) st"] show ?thesis
      by (simp add: nq purge_queue_spec [of st rs now] taken_store_drop_append)
  qed
qed

lemma map_of_map_live:
  "map_of (map (\<lambda>(n, rs). (n, f rs)) qs) m = map_option f (map_of qs m)"
  by (induction qs) auto

lemma mq_take_while_spec:
  assumes "map_of (snd s) m = Some rs" and "distinct rs"
  shows "\<exists>s' ds rs'. mq_take_while m now limit s = Some (take (nat limit) (live (fst s) rs), s')
    \<and> map_of (snd s') m = Some rs' \<and> live (fst s') rs' = drop (nat limit) (live (fst s) rs)
    \<and> mset rs = mset (take (nat limit) (live (fst s) rs)) + mset ds + mset rs'
    \<and> (\<forall>x \<in> set ds. is_cancelled (fst s) x)
    \<and> fst s' = taken_store now (take (nat limit) (live (fst s) rs)) ds (fst s)
    \<and> (\<forall>m'. m' \<noteq> m \<longrightarrow> map_of (snd s') m' = map_of (snd s) m')
    \<and> map fst (snd s') = map fst (snd s)"
proof -
  have lim: "nat (max 0 limit) = nat limit" by simp
  have lv: "mq_live s m = Some (live (fst s) rs)"
    using assms(1) by (simp add: mq_live_def)
  obtain s' where s': "take_loop (mq_next_for m now) (nat limit) s
      = Some (take (nat limit) (live (fst s) rs), s')"
    "mq_live s' m = Some (drop (nat limit) (live (fst s) rs))"
    using mq.take_prefix [OF lv, of now "nat limit"] by blast
  from mq_take_store [OF s'(1) assms] obtain ds rs' where ds: "map_of (snd s') m = Some rs'"
    "mset rs = mset (take (nat limit) (live (fst s) rs)) + mset ds + mset rs'"
    "\<forall>x \<in> set ds. is_cancelled (fst s) x"
    "\<forall>m'. m' \<noteq> m \<longrightarrow> map_of (snd s') m' = map_of (snd s) m'"
    "fst s' = taken_store now (take (nat limit) (live (fst s) rs)) ds (fst s)"
    "map fst (snd s') = map fst (snd s)"
    by blast
  moreover have "live (fst s') rs' = drop (nat limit) (live (fst s) rs)"
    using s'(2) ds(1) by (simp add: mq_live_def)
  ultimately show ?thesis
    using s'(1) by (intro exI [of _ s'] exI [of _ ds] exI [of _ rs']) (simp add: mq_take_while_def lim)
qed

subsection \<open>Properties\<close>

text \<open>
  Every read of the queues is a function of the live requests alone: depth is their number,
  the oldest arrival is that of the first of them, and a model counts as having work exactly if
  there is one. A cancelled request can therefore not influence a scheduling decision.
\<close>

theorem reads_see_only_live:
  assumes "mq_live s m = Some l" and "\<forall>r \<in> set l. fst s r \<noteq> None"
  shows "mq_depth m s = Some (length l)
    \<and> mq_oldest_enqueued_at m s = Some (if l = [] then None else map_option qr_enqueued_at (fst s (hd l)))
    \<and> (distinct (map fst (snd s)) \<longrightarrow> (m \<in> set (mq_models_with_work s) \<longleftrightarrow> l \<noteq> []))"
proof -
  obtain rs where rs: "map_of (snd s) m = Some rs" "l = live (fst s) rs"
    using assms(1) by (auto simp: mq_live_def)
  have "first_live_at (fst s) rs = (if l = [] then None else map_option qr_enqueued_at (fst s (hd l)))"
    unfolding rs(2) by (induction rs) auto
  moreover have "m \<in> set (mq_models_with_work s) \<longleftrightarrow> l \<noteq> []" if "distinct (map fst (snd s))"
  proof -
    have "(m, rs') \<in> set (snd s) \<longleftrightarrow> rs' = rs" for rs'
      using that rs(1) by (metis map_of_SomeD map_of_eq_Some_iff option.inject)
    then have "m \<in> set (mq_models_with_work s) \<longleftrightarrow> 0 < count_live (fst s) rs"
      by (auto simp: mq_models_with_work_def image_iff split: prod.splits)
    then show ?thesis
      using rs(2) by (simp add: count_live_eq)
  qed
  ultimately show ?thesis
    using rs by (simp add: mq_depth_def mq_oldest_enqueued_at_def count_live_eq)
qed

text \<open>
  C12. Dispatch is first in, first out among live requests, per model: \<open>take_while\<close> returns
  exactly the first \<open>limit\<close> live requests of the model in arrival order, marks precisely those
  as running from now on, drops only cancelled ones on the way, loses nothing else, and leaves
  the other models' queues untouched.
\<close>

theorem take_while_is_fifo:
  assumes "map_of (snd s) m = Some rs" and "distinct rs"
  shows "\<exists>s' ds rs'. mq_take_while m now limit s = Some (take (nat limit) (live (fst s) rs), s')
    \<and> map_of (snd s') m = Some rs' \<and> live (fst s') rs' = drop (nat limit) (live (fst s) rs)
    \<and> mset rs = mset (take (nat limit) (live (fst s) rs)) + mset ds + mset rs'
    \<and> (\<forall>x \<in> set ds. is_cancelled (fst s) x)
    \<and> fst s' = taken_store now (take (nat limit) (live (fst s) rs)) ds (fst s)
    \<and> (\<forall>m'. m' \<noteq> m \<longrightarrow> map_of (snd s') m' = map_of (snd s) m')
    \<and> map fst (snd s') = map fst (snd s)"
  by (rule mq_take_while_spec [OF assms])

text \<open>
  A reported queue position is the exact number of dispatches ahead: a live request at
  position \<open>i\<close> is among the next \<open>limit\<close> requests taken for its model if and only if
  \<open>i < limit\<close>.
\<close>

theorem position_counts_dispatches:
  assumes "fst s r = Some q" and "map_of (snd s) (qr_model q) = Some rs"
    and "\<not> is_cancelled (fst s) r" and "mq_position_of r s = Some i"
  shows "\<exists>ts s'. mq_take_while (qr_model q) now limit s = Some (ts, s')
    \<and> (r \<in> set ts \<longleftrightarrow> int i < limit)"
proof -
  let ?p = "live (fst s) (takeWhile (\<lambda>x. x \<noteq> r) rs)"
  have r: "r \<in> set rs" and i: "i = length ?p"
    using assms by (auto simp: mq_position_of_def position_from_eq split: if_splits)
  from live_split [OF r assms(3)] obtain ys
    where lv: "live (fst s) rs = ?p @ r # ys" and np: "r \<notin> set ?p" by blast
  have "mq_live s (qr_model q) = Some (?p @ r # ys)"
    using assms(2) lv by (simp add: mq_live_def)
  from mq.take_prefix [OF this, of now "nat limit"] obtain s'
    where "take_loop (mq_next_for (qr_model q) now) (nat limit) s = Some (take (nat limit) (?p @ r # ys), s')"
    by blast
  moreover have "nat (max 0 limit) = nat limit" by simp
  ultimately have s': "mq_take_while (qr_model q) now limit s = Some (take (nat limit) (?p @ r # ys), s')"
    unfolding mq_take_while_def by simp
  show ?thesis
  proof (cases "int i < limit")
    case True
    then have "nat limit - length ?p = Suc (nat limit - length ?p - 1)" using i by linarith
    then have "r \<in> set (take (nat limit) (?p @ r # ys))"
      by (metis take_append take_Suc_Cons list.set_intros(1) set_append UnI2)
    with True s' show ?thesis by auto
  next
    case False
    then have "take (nat limit) (?p @ r # ys) = take (nat limit) ?p" using i by simp
    then have "r \<notin> set (take (nat limit) (?p @ r # ys))"
      using np by (metis in_set_takeD)
    with False s' show ?thesis by auto
  qed
qed

text \<open>
  Purging removes exactly the cancelled requests, in queue order, marks them cancelled, and
  changes neither any other request nor the live content of any queue.
\<close>

theorem purge_removes_exactly_cancelled:
  "\<exists>removed st' qs'. mq_purge_cancelled st qs = (removed, (st', qs'))
    \<and> removed = filter (is_cancelled st) (concat (map snd qs))
    \<and> map fst qs' = map fst qs \<and> (\<forall>m. map_of qs' m = map_option (live st) (map_of qs m))
    \<and> (\<forall>m. mq_live (st', qs') m = mq_live (st, qs) m)
    \<and> (\<forall>r. st' r = (if r \<in> set removed then map_option (\<lambda>q. q\<lparr>qr_state := CANCELLED\<rparr>) (st r) else st r))"
proof -
  have flat: "concat (map (\<lambda>(n, rs). filter (is_cancelled st) rs) qs)
      = filter (is_cancelled st) (concat (map snd qs))"
    by (induction qs) auto
  have "live st (live st rs) = live st rs" for rs
    by (simp add: live_def)
  then show ?thesis
    using flat by (auto simp: mq_purge_spec [of st qs 0] map_of_map_live mq_live_def
        option.map_comp o_def taken_store_def drop_req_def [abs_def])
qed

subsection \<open>Witnesses\<close>

text \<open>Three requests for model \<open>a\<close>, of which the first was cancelled by its client.\<close>

definition sample_request :: "string \<Rightarrow> seconds \<Rightarrow> queued_request" where
  "sample_request m t = new_queued_request
     \<lparr>gr_model = m, gr_served_model = m, gr_payload = [], gr_request_id = []\<rparr> t"

definition sample_queues :: qstate where
  "sample_queues =
     ([''r1'' \<mapsto> qr_cancel (sample_request ''a'' 1), ''r2'' \<mapsto> sample_request ''a'' 2,
       ''r3'' \<mapsto> sample_request ''a'' 3],
      [(''a'', [''r1'', ''r2'', ''r3'']), (''b'', [])])"

lemmas sample_defs = sample_queues_def sample_request_def new_queued_request_def qr_cancel_def
  is_cancelled_def qr_model_def

theorem reads_see_only_live_witness:
  "mq_depth ''a'' sample_queues = Some 2 \<and> mq_oldest_enqueued_at ''a'' sample_queues = Some (Some 2)"
proof -
  have lv: "mq_live sample_queues ''a'' = Some [''r2'', ''r3'']"
    by (simp add: mq_live_def sample_defs)
  have st: "\<forall>r \<in> set [''r2'', ''r3'']. fst sample_queues r \<noteq> None"
    by (simp add: sample_defs)
  from reads_see_only_live [OF lv st] show ?thesis by (simp add: sample_defs)
qed

theorem take_while_is_fifo_witness:
  "\<exists>s'. mq_take_while ''a'' 9 1 sample_queues = Some ([''r2''], s')"
proof -
  have rs: "map_of (snd sample_queues) ''a'' = Some [''r1'', ''r2'', ''r3'']"
    by (simp add: sample_queues_def)
  have "take (nat 1) (live (fst sample_queues) [''r1'', ''r2'', ''r3'']) = [''r2'']"
    by (simp add: sample_defs)
  with take_while_is_fifo [OF rs, of 9 1] show ?thesis by auto
qed

theorem position_counts_dispatches_witness:
  "\<exists>ts s'. mq_take_while ''a'' 9 1 sample_queues = Some (ts, s') \<and> ''r3'' \<notin> set ts"
proof -
  have q: "fst sample_queues ''r3'' = Some (sample_request ''a'' 3)"
    and rs: "map_of (snd sample_queues) (qr_model (sample_request ''a'' 3)) = Some [''r1'', ''r2'', ''r3'']"
    and c: "\<not> is_cancelled (fst sample_queues) ''r3''"
    and p: "mq_position_of ''r3'' sample_queues = Some 1"
    and m: "qr_model (sample_request ''a'' 3) = ''a''"
    by (simp_all add: sample_defs mq_position_of_def)
  from position_counts_dispatches [OF q rs c p, of 9 1] show ?thesis by (auto simp: m)
qed

end
