(* ===== verification/Sir_Engine.thy ===== *)
theory Sir_Engine
  imports Sir_Queues Sir_Policy "HOL-Library.Monad_Syntax"
begin

text \<open>
  The mechanism of \<open>src/src/sir/engine.py\<close>. The engine is a record; the code between two
  awaits of the control loop is one function on it. What the loop is waiting for is the field
  \<open>eng_pc\<close>; the functions named after an await (\<open>drain_done\<close>, \<open>load_ok\<close>, ...) are the
  code that runs when that await returns. Everything the outside world does (time, arrivals,
  what a backend yields or raises) is a step of \<open>engine_step\<close>.

  A task that pumps a request is a \<open>task\<close> record. \<open>None\<close> as a result of a loop function
  means that a KeyError escaped the control loop. The field \<open>eng_gpu\<close> is not a field of the
  class: it lists the backends that hold the GPU, from the call of \<open>start()\<close> to the return
  of \<open>stop()\<close>. \<open>eng_logged\<close> collects what \<open>on_decision\<close> was called with. All readings of
  the clock within one uninterrupted stretch of code are taken to be equal, as they are under
  the virtual clock.
\<close>

subsection \<open>State\<close>

record task =
  tk_rid :: rid
  tk_done :: bool
  tk_cancelling :: bool

datatype loop_pc =
  NotStarted
| LoopTop
| FailGather string "string list"
| FailStop string "string list"
| DrainWait string seconds
| UnloadWait string string
| LoadWait string seconds
| LoadFailStop string
| TickWait seconds
| LoopDone
| StopGather
| StopWait string
| Stopped

record engine =
  eng_config :: app_config
  eng_now :: seconds
  eng_store :: store
  eng_queues :: model_queues
  eng_resident :: "string option"
  eng_resident_since :: "seconds option"
  eng_idle_since :: "seconds option"
  eng_unavailable_until :: "string \<rightharpoonup> seconds"
  eng_in_flight :: "task list"
  eng_failed :: "string list"
  eng_draining :: bool
  eng_switching :: bool
  eng_running :: bool
  eng_pc :: loop_pc
  eng_wakeup :: bool
  eng_mean_seconds :: "string \<rightharpoonup> seconds"
  eng_decisions :: "decision list"
  eng_events :: "engine_event list"
  eng_logged :: "decision list"
  eng_swaps :: nat
  eng_loads :: nat
  eng_time_loading :: seconds
  eng_gpu :: "string list"

definition history :: nat where "history = 200"
definition ewma_alpha :: rat where "ewma_alpha = 1 / 5"
definition running_poll_seconds :: seconds where "running_poll_seconds = 1"

definition init_engine :: "app_config \<Rightarrow> seconds \<Rightarrow> engine" where
  "init_engine config t =
     \<lparr>eng_config = config, eng_now = t, eng_store = Map.empty,
      eng_queues = mq_init (model_names config),
      eng_resident = None, eng_resident_since = None, eng_idle_since = None,
      eng_unavailable_until = Map.empty, eng_in_flight = [], eng_failed = [],
      eng_draining = False, eng_switching = False, eng_running = False,
      eng_pc = NotStarted, eng_wakeup = False,
      eng_mean_seconds = map_of (rev (map (\<lambda>m. (mc_name m, estimated_request_seconds m)) (ac_models config))),
      eng_decisions = [], eng_events = [], eng_logged = [],
      eng_swaps = 0, eng_loads = 0, eng_time_loading = 0, eng_gpu = []\<rparr>"

abbreviation sched :: "engine \<Rightarrow> scheduler_config" where
  "sched e \<equiv> ac_scheduler (eng_config e)"

abbreviation qst :: "engine \<Rightarrow> qstate" where
  "qst e \<equiv> (eng_store e, eng_queues e)"

subsection \<open>Events, requests, submission\<close>

definition emit :: "event_kind \<Rightarrow> string \<Rightarrow> string \<Rightarrow> seconds option \<Rightarrow> engine \<Rightarrow> engine" where
  "emit kind model detail duration e =
     e\<lparr>eng_events := push_bounded history
        \<lparr>ee_at = eng_now e, ee_kind = kind, ee_model = model, ee_detail = detail,
         ee_duration = duration\<rparr> (eng_events e)\<rparr>"

definition map_req :: "rid \<Rightarrow> (queued_request \<Rightarrow> queued_request) \<Rightarrow> engine \<Rightarrow> engine" where
  "map_req r f e = e\<lparr>eng_store := upd_req r f (eng_store e)\<rparr>"

text \<open>\<open>submit\<close>; the id is drawn by the caller from uuid4 and is a parameter here.\<close>

definition submit :: "generation_request \<Rightarrow> rid \<Rightarrow> engine \<Rightarrow> py_error + engine" where
  "submit request r e =
     (if \<not> mq_contains (gr_model request) (eng_queues e) then Inl (KeyError (gr_model request))
      else
        let st = (eng_store e)(r \<mapsto> new_queued_request request (eng_now e)) in
        case mq_enqueue r (st, eng_queues e) of
          None \<Rightarrow> Inl (KeyError (gr_model request))
        | Some (st', qs') \<Rightarrow>
            Inr ((emit EV_ENQUEUE (gr_model request) r None
                    (e\<lparr>eng_store := st', eng_queues := qs'\<rparr>))\<lparr>eng_wakeup := True\<rparr>))"

definition client_cancel :: "rid \<Rightarrow> engine \<Rightarrow> engine" where
  "client_cancel r e = map_req r qr_cancel e"

subsection \<open>Tasks\<close>

definition map_task :: "rid \<Rightarrow> (task \<Rightarrow> task) \<Rightarrow> engine \<Rightarrow> engine" where
  "map_task r f e = e\<lparr>eng_in_flight := map (\<lambda>t. if tk_rid t = r then f t else t) (eng_in_flight e)\<rparr>"

text \<open>What the awaited backend stream does next, or the cancellation delivered to the task.\<close>

datatype serve_outcome =
  YieldChunk string nat
| YieldEnd string "usage option"
| Exhausted
| RaiseBackend string
| RaiseOther string string
| DeliverCancel

definition put_event :: "stream_event \<Rightarrow> queued_request \<Rightarrow> queued_request" where
  "put_event ev q = q\<lparr>qr_events := qr_events q @ [ev]\<rparr>"

definition observe_duration :: "rid \<Rightarrow> engine \<Rightarrow> engine" where
  "observe_duration r e =
     (case eng_store e r of
        None \<Rightarrow> e
      | Some q \<Rightarrow>
          if qr_state q \<noteq> DONE then e
          else case (qr_started_at q, qr_finished_at q) of
            (Some started, Some finished) \<Rightarrow>
              let observed = max 0 (finished - started);
                  previous = (case eng_mean_seconds e (qr_model q) of Some p \<Rightarrow> p | None \<Rightarrow> observed)
              in e\<lparr>eng_mean_seconds := (eng_mean_seconds e)
                    (qr_model q \<mapsto> ewma_alpha * observed + (1 - ewma_alpha) * previous)\<rparr>
          | _ \<Rightarrow> e)"

text \<open>The \<open>finally\<close> clause of \<open>_serve\<close>, after which the task is done.\<close>

definition serve_finally :: "rid \<Rightarrow> engine \<Rightarrow> engine" where
  "serve_finally r e =
     map_task r (\<lambda>t. t\<lparr>tk_done := True\<rparr>)
       (observe_duration r (map_req r (\<lambda>q. q\<lparr>qr_finished_at := Some (eng_now e)\<rparr>) e))"

text \<open>The code after the \<open>async for\<close> loop, with \<open>ending\<close> the terminator to put.\<close>

definition serve_end :: "rid \<Rightarrow> stream_event \<Rightarrow> engine \<Rightarrow> engine" where
  "serve_end r ending e =
     (case eng_store e r of
        None \<Rightarrow> e
      | Some q \<Rightarrow>
          serve_finally r
            (if qr_cancelled q then map_req r (\<lambda>q. q\<lparr>qr_state := CANCELLED\<rparr>) e
             else emit EV_COMPLETE (qr_model q) r None
                    (map_req r (\<lambda>q. put_event ending (q\<lparr>qr_state := DONE\<rparr>)) e)))"

definition serve :: "rid \<Rightarrow> serve_outcome \<Rightarrow> engine \<Rightarrow> engine" where
  "serve r out e =
     (case eng_store e r of
        None \<Rightarrow> e
      | Some q \<Rightarrow>
          (case out of
             YieldChunk text i \<Rightarrow>
               if qr_cancelled q then serve_end r (StreamEnd ''stop'' None) e
               else map_req r (put_event (Chunk text i)) e
           | YieldEnd reason usage \<Rightarrow> serve_end r (StreamEnd reason usage) e
           | Exhausted \<Rightarrow> serve_end r (StreamEnd ''stop'' None) e
           | DeliverCancel \<Rightarrow>
               serve_finally r (emit EV_CANCELLED (qr_model q) r None
                 (map_req r (\<lambda>q. q\<lparr>qr_state := CANCELLED\<rparr>) e))
           | RaiseBackend msg \<Rightarrow>
               serve_finally r (emit EV_FAILED (qr_model q) msg None
                 ((map_req r (\<lambda>q. put_event (StreamError msg 503) (q\<lparr>qr_state := FAILED\<rparr>)) e)
                    \<lparr>eng_failed := List.insert (qr_model q) (eng_failed e)\<rparr>))
           | RaiseOther msg rep \<Rightarrow>
               serve_finally r (emit EV_FAILED (qr_model q) rep None
                 (map_req r (\<lambda>q. put_event (StreamError (''internal error: '' @ msg) 500)
                              (q\<lparr>qr_state := FAILED\<rparr>)) e))))"

text \<open>
  A task moves if it is not done; once its cancellation was requested, the next thing that
  happens to it is the CancelledError.
\<close>

definition serve_enabled :: "rid \<Rightarrow> serve_outcome \<Rightarrow> engine \<Rightarrow> bool" where
  "serve_enabled r out e \<longleftrightarrow>
     (\<exists>t \<in> set (eng_in_flight e). tk_rid t = r \<and> \<not> tk_done t
        \<and> (tk_cancelling t \<longleftrightarrow> out = DeliverCancel))"

definition cancel_tasks :: "(rid \<Rightarrow> bool) \<Rightarrow> engine \<Rightarrow> engine" where
  "cancel_tasks p e = e\<lparr>eng_in_flight :=
     map (\<lambda>t. if p (tk_rid t) \<and> \<not> tk_done t then t\<lparr>tk_cancelling := True\<rparr> else t) (eng_in_flight e)\<rparr>"

definition cancel_disconnected :: "engine \<Rightarrow> engine" where
  "cancel_disconnected e = cancel_tasks (is_cancelled (eng_store e)) e"

definition reap_finished :: "engine \<Rightarrow> engine" where
  "reap_finished e = e\<lparr>eng_in_flight := filter (\<lambda>t. \<not> tk_done t) (eng_in_flight e)\<rparr>"

definition all_done :: "engine \<Rightarrow> bool" where
  "all_done e \<longleftrightarrow> list_all tk_done (eng_in_flight e)"

subsection \<open>Bookkeeping of the loop\<close>

definition purge_cancelled :: "engine \<Rightarrow> engine" where
  "purge_cancelled e =
     (case mq_purge_cancelled (eng_store e) (eng_queues e) of
        (removed, (st, qs)) \<Rightarrow> e\<lparr>eng_store := st, eng_queues := qs\<rparr>)"

definition track_idleness :: "engine \<Rightarrow> engine option" where
  "track_idleness e =
     (case eng_resident e of
        None \<Rightarrow> Some (e\<lparr>eng_idle_since := None\<rparr>)
      | Some m \<Rightarrow>
          do { d \<leftarrow> mq_depth m (qst e);
               Some (if d > 0 \<or> eng_in_flight e \<noteq> [] then e\<lparr>eng_idle_since := None\<rparr>
                     else if eng_idle_since e = None then e\<lparr>eng_idle_since := Some (eng_now e)\<rparr>
                     else e) })"

definition model_state_of :: "engine \<Rightarrow> model_config \<Rightarrow> model_state option" where
  "model_state_of e m =
     do { d \<leftarrow> mq_depth (mc_name m) (qst e);
          oldest \<leftarrow> mq_oldest_enqueued_at (mc_name m) (qst e);
          let here = (Some (mc_name m) = eng_resident e);
          Some \<lparr>ms_name = mc_name m, ms_priority = mc_priority m, ms_depth = d,
                ms_oldest_enqueued_at = oldest,
                ms_estimated_load_seconds = estimated_load_seconds m,
                ms_resident = here,
                ms_resident_since = (if here then eng_resident_since e else None),
                ms_in_flight = (if here then length (eng_in_flight e) else 0),
                ms_idle_since = (if here then eng_idle_since e else None),
                ms_unavailable_until = eng_unavailable_until e (mc_name m)\<rparr> }"

fun option_all :: "'a option list \<Rightarrow> 'a list option" where
  "option_all [] = Some []"
| "option_all (None # xs) = None"
| "option_all (Some x # xs) = map_option ((#) x) (option_all xs)"

definition snapshot :: "engine \<Rightarrow> scheduler_snapshot option" where
  "snapshot e =
     do { models \<leftarrow> option_all (map (model_state_of e) (ac_models (eng_config e)));
          Some \<lparr>ss_models = models, ss_resident = eng_resident e,
                ss_draining = eng_draining e, ss_switching = eng_switching e\<rparr> }"

text \<open>\<open>Engine.estimate_wait\<close>: \<open>None\<close> once the request is no longer queued.\<close>

definition engine_estimate_wait :: "rid \<Rightarrow> engine \<Rightarrow> (py_error + wait_estimate option)" where
  "engine_estimate_wait r e =
     (case (eng_store e r, mq_position_of r (qst e)) of
        (Some q, Some position) \<Rightarrow>
          (case snapshot e of
             None \<Rightarrow> Inl (KeyError (qr_model q))
           | Some snap \<Rightarrow>
               (case estimate_wait snap (qr_model q) position (eng_now e) (sched e)
                       (case eng_mean_seconds e (qr_model q) of Some s \<Rightarrow> s | None \<Rightarrow> 0) of
                  Inl err \<Rightarrow> Inl err
                | Inr w \<Rightarrow> Inr (Some w)))
      | _ \<Rightarrow> Inr None)"

definition same_news :: "decision \<Rightarrow> decision \<Rightarrow> bool" where
  "same_news a b \<longleftrightarrow> dc_kind a = dc_kind b \<and> dc_reason a = dc_reason b
     \<and> dc_target a = dc_target b \<and> dc_resident a = dc_resident b"

definition record_decision :: "decision \<Rightarrow> engine \<Rightarrow> engine" where
  "record_decision d e =
     e\<lparr>eng_decisions := push_bounded history d (eng_decisions e),
       eng_logged := (if eng_decisions e = [] \<or> \<not> same_news (last (eng_decisions e)) d
                      then eng_logged e @ [d] else eng_logged e)\<rparr>"

definition mark_unavailable :: "string \<Rightarrow> engine \<Rightarrow> engine" where
  "mark_unavailable m e = e\<lparr>eng_unavailable_until := (eng_unavailable_until e)
     (m \<mapsto> eng_now e + sc_backend_retry_seconds (sched e))\<rparr>"

subsection \<open>Dispatch\<close>

definition dispatch_one :: "rid \<Rightarrow> engine \<Rightarrow> engine" where
  "dispatch_one r e =
     (case eng_store e r of
        None \<Rightarrow> e
      | Some q \<Rightarrow>
          (emit EV_DISPATCH (qr_model q) r (Some (qr_wait_time q (eng_now e))) e)
            \<lparr>eng_in_flight := eng_in_flight e @ [\<lparr>tk_rid = r, tk_done = False, tk_cancelling = False\<rparr>]\<rparr>)"

definition has_backend :: "string \<Rightarrow> engine \<Rightarrow> bool" where
  "has_backend m e \<longleftrightarrow> m \<in> set (model_names (eng_config e))"

definition dispatch :: "engine \<Rightarrow> engine option" where
  "dispatch e =
     (case eng_resident e of
        None \<Rightarrow> Some e
      | Some m \<Rightarrow>
          let capacity = sc_max_concurrent_requests (sched e) - int (length (eng_in_flight e)) in
          if capacity \<le> 0 then Some e
          else if \<not> has_backend m e then None
          else do { (rs, st, qs) \<leftarrow> mq_take_while m (eng_now e) capacity (qst e);
                    Some (fold dispatch_one rs (e\<lparr>eng_store := st, eng_queues := qs\<rparr>)) })"

subsection \<open>Transitions\<close>

text \<open>\<open>_switch\<close>, cut at its awaits: the drain, the unload, the load, the stop after a failed load.\<close>

definition load_begin :: "string \<Rightarrow> engine \<Rightarrow> engine option" where
  "load_begin target e =
     (if \<not> has_backend target e then None
      else Some ((emit EV_LOAD_START target [] None e)
                   \<lparr>eng_gpu := List.insert target (eng_gpu e), eng_pc := LoadWait target (eng_now e)\<rparr>))"

definition after_drain :: "string \<Rightarrow> engine \<Rightarrow> engine option" where
  "after_drain target e =
     (let e = e\<lparr>eng_switching := True\<rparr> in
      case eng_resident e of
        Some previous \<Rightarrow>
          if \<not> has_backend previous e then None
          else Some (e\<lparr>eng_resident := None, eng_resident_since := None,
                       eng_pc := UnloadWait target previous\<rparr>)
      | None \<Rightarrow> load_begin target e)"

definition resident_or_dash :: "engine \<Rightarrow> string" where
  "resident_or_dash e = (case eng_resident e of None \<Rightarrow> ''-'' | Some r \<Rightarrow> if r = [] then ''-'' else r)"

definition switch_begin :: "string \<Rightarrow> engine \<Rightarrow> engine option" where
  "switch_begin target e =
     (if eng_in_flight e = [] then after_drain target e
      else Some ((cancel_disconnected
             (emit EV_DRAIN_START (resident_or_dash e)
                (show_nat (length (eng_in_flight e)) @ '' in flight'') None
                (e\<lparr>eng_draining := True\<rparr>)))
             \<lparr>eng_pc := DrainWait target (eng_now e)\<rparr>))"

definition drain_done :: "string \<Rightarrow> seconds \<Rightarrow> engine \<Rightarrow> engine option" where
  "drain_done target started e =
     after_drain target
       (emit EV_DRAIN_END (resident_or_dash e) [] (Some (eng_now e - started))
         (e\<lparr>eng_in_flight := [], eng_draining := False\<rparr>))"

definition unload_done :: "string \<Rightarrow> string \<Rightarrow> engine \<Rightarrow> engine option" where
  "unload_done target previous e =
     (let e = emit EV_UNLOAD previous [] None (e\<lparr>eng_gpu := removeAll previous (eng_gpu e)\<rparr>)
      in load_begin target (e\<lparr>eng_swaps := eng_swaps e + 1\<rparr>))"

definition load_ok :: "string \<Rightarrow> seconds \<Rightarrow> engine \<Rightarrow> engine" where
  "load_ok target started e =
     (let elapsed = eng_now e - started in
      (emit EV_LOAD_END target [] (Some elapsed)
        (e\<lparr>eng_loads := eng_loads e + 1, eng_time_loading := eng_time_loading e + elapsed,
           eng_resident := Some target, eng_resident_since := Some (eng_now e),
           eng_idle_since := None,
           eng_unavailable_until := (eng_unavailable_until e)(target := None)\<rparr>))
        \<lparr>eng_switching := False, eng_pc := LoopTop\<rparr>)"

definition load_failed :: "string \<Rightarrow> seconds \<Rightarrow> string \<Rightarrow> engine \<Rightarrow> engine" where
  "load_failed target started msg e =
     (let elapsed = eng_now e - started in
      (emit EV_LOAD_FAILED target msg (Some elapsed)
        (e\<lparr>eng_time_loading := eng_time_loading e + elapsed\<rparr>))\<lparr>eng_pc := LoadFailStop target\<rparr>)"

definition load_fail_stopped :: "string \<Rightarrow> engine \<Rightarrow> engine" where
  "load_fail_stopped target e =
     (mark_unavailable target (e\<lparr>eng_gpu := removeAll target (eng_gpu e)\<rparr>))
       \<lparr>eng_switching := False, eng_pc := LoopTop\<rparr>"

subsection \<open>The control loop\<close>

text \<open>One pass of \<open>_run\<close> after the failures are handled, up to its next await.\<close>

definition loop_body :: "engine \<Rightarrow> engine option" where
  "loop_body e =
     do { e \<leftarrow> track_idleness (reap_finished (cancel_disconnected (purge_cancelled e)));
          snap \<leftarrow> snapshot e;
          let d = decide snap (eng_now e) (sched e);
          let e = record_decision d e;
          if dc_kind d = SWITCH \<and> dc_target d \<notin> {None, Some []}
          then switch_begin (the (dc_target d)) e
          else do { e \<leftarrow> (if dc_kind d \<in> {SERVE, HOLD} then dispatch e else Some e);
                    Some (e\<lparr>eng_pc := TickWait (eng_now e + sc_tick_interval_seconds (sched e))\<rparr>) } }"

text \<open>
  \<open>_handle_failures\<close>: for each reported model, back it off and, if it is the resident one,
  abandon its tasks, wait for them, and stop the backend.
\<close>

definition crash_unload :: "string \<Rightarrow> string list \<Rightarrow> engine \<Rightarrow> engine option" where
  "crash_unload m ms e =
     (if \<not> has_backend m e then None
      else Some (e\<lparr>eng_resident := None, eng_resident_since := None, eng_pc := FailStop m ms\<rparr>))"

definition request_of_model :: "engine \<Rightarrow> string \<Rightarrow> rid \<Rightarrow> bool" where
  "request_of_model e m r = (case eng_store e r of None \<Rightarrow> False | Some q \<Rightarrow> qr_model q = m)"

fun handle_failed :: "string list \<Rightarrow> engine \<Rightarrow> engine option" where
  "handle_failed [] e = loop_body e"
| "handle_failed (m # ms) e =
     (let e = emit EV_CRASH m ''backend marked unavailable'' None (mark_unavailable m e) in
      if eng_resident e \<noteq> Some m then handle_failed ms e
      else
        let e = cancel_tasks (request_of_model e m) e in
        if eng_in_flight e \<noteq> [] then Some (e\<lparr>eng_pc := FailGather m ms\<rparr>)
        else crash_unload m ms e)"

definition fail_gathered :: "string \<Rightarrow> string list \<Rightarrow> engine \<Rightarrow> engine option" where
  "fail_gathered m ms e = crash_unload m ms (e\<lparr>eng_in_flight := []\<rparr>)"

definition fail_stopped :: "string \<Rightarrow> string list \<Rightarrow> engine \<Rightarrow> engine option" where
  "fail_stopped m ms e =
     handle_failed ms (emit EV_UNLOAD m ''after crash'' None (e\<lparr>eng_gpu := removeAll m (eng_gpu e)\<rparr>))"

definition handle_failures :: "engine \<Rightarrow> engine option" where
  "handle_failures e = handle_failed (eng_failed e) (e\<lparr>eng_failed := []\<rparr>)"

definition loop_top :: "engine \<Rightarrow> engine option" where
  "loop_top e =
     (if \<not> eng_running e then Some (e\<lparr>eng_pc := LoopDone\<rparr>)
      else handle_failures (e\<lparr>eng_wakeup := False\<rparr>))"

definition start_engine :: "engine \<Rightarrow> engine" where
  "start_engine e = (if eng_running e then e else e\<lparr>eng_running := True, eng_pc := LoopTop\<rparr>)"

subsection \<open>Shutdown\<close>

text \<open>
  \<open>stop()\<close> up to its first await: the loop task is cancelled, which runs the \<open>finally\<close>
  clauses of the await it is in (and, in a drain, cancels the gathered tasks), and every
  in-flight task is cancelled.
\<close>

definition cancel_loop :: "engine \<Rightarrow> engine" where
  "cancel_loop e =
     (case eng_pc e of
        DrainWait target started \<Rightarrow>
          emit EV_DRAIN_END (resident_or_dash e) [] (Some (eng_now e - started)) (e\<lparr>eng_draining := False\<rparr>)
      | UnloadWait target previous \<Rightarrow> e\<lparr>eng_switching := False\<rparr>
      | LoadWait target started \<Rightarrow> e\<lparr>eng_switching := False\<rparr>
      | LoadFailStop target \<Rightarrow> e\<lparr>eng_switching := False\<rparr>
      | _ \<Rightarrow> e)"

definition stop_begin :: "engine \<Rightarrow> engine" where
  "stop_begin e =
     (cancel_tasks (\<lambda>_. True) (cancel_loop (e\<lparr>eng_running := False, eng_wakeup := True\<rparr>)))
       \<lparr>eng_pc := StopGather\<rparr>"

definition shut_request :: "queued_request \<Rightarrow> queued_request" where
  "shut_request q = put_event (StreamError ''router shutting down'' 503) (q\<lparr>qr_state := CANCELLED\<rparr>)"

fun drain_queues :: "string list \<Rightarrow> qstate \<Rightarrow> qstate option" where
  "drain_queues [] s = Some s"
| "drain_queues (n # ns) s =
     do { (rs, st, qs) \<leftarrow> mq_drain n s;
          drain_queues ns (fold (\<lambda>r st. upd_req r shut_request st) rs st, qs) }"

definition stop_gathered :: "engine \<Rightarrow> engine option" where
  "stop_gathered e =
     do { (st, qs) \<leftarrow> drain_queues (mq_model_names (eng_queues e)) (qst e);
          let e = e\<lparr>eng_in_flight := [], eng_store := st, eng_queues := qs\<rparr>;
          (case eng_resident e of
             None \<Rightarrow> Some (e\<lparr>eng_pc := Stopped\<rparr>)
           | Some m \<Rightarrow> if \<not> has_backend m e then None else Some (e\<lparr>eng_pc := StopWait m\<rparr>)) }"

definition stop_finish :: "string \<Rightarrow> engine \<Rightarrow> engine" where
  "stop_finish m e = e\<lparr>eng_gpu := removeAll m (eng_gpu e), eng_resident := None,
     eng_resident_since := None, eng_pc := Stopped\<rparr>"

subsection \<open>Steps\<close>

text \<open>
  One step of the engine in its environment: time passes, a request arrives under a fresh id, a
  client goes away, a task moves, the loop resumes from the await it is in, or the router is
  started or stopped. An engine is started once, as the application does.
\<close>

fun stopping :: "loop_pc \<Rightarrow> bool" where
  "stopping StopGather = True"
| "stopping (StopWait _) = True"
| "stopping Stopped = True"
| "stopping _ = False"

inductive engine_step :: "engine \<Rightarrow> engine \<Rightarrow> bool" where
  time: "0 \<le> d \<Longrightarrow> engine_step e (e\<lparr>eng_now := eng_now e + d\<rparr>)"
| arrive: "eng_store e r = None \<Longrightarrow> submit req r e = Inr e' \<Longrightarrow> engine_step e e'"
| disconnect: "engine_step e (client_cancel r e)"
| task: "serve_enabled r out e \<Longrightarrow> engine_step e (serve r out e)"
| start: "eng_pc e = NotStarted \<Longrightarrow> engine_step e (start_engine e)"
| top: "eng_pc e = LoopTop \<Longrightarrow> loop_top e = Some e' \<Longrightarrow> engine_step e e'"
| tick: "eng_pc e = TickWait d \<Longrightarrow> d \<le> eng_now e \<or> eng_wakeup e \<Longrightarrow>
    engine_step e (e\<lparr>eng_pc := LoopTop\<rparr>)"
| failed_gather: "eng_pc e = FailGather m ms \<Longrightarrow> all_done e \<Longrightarrow> fail_gathered m ms e = Some e' \<Longrightarrow>
    engine_step e e'"
| failed_stop: "eng_pc e = FailStop m ms \<Longrightarrow> fail_stopped m ms e = Some e' \<Longrightarrow> engine_step e e'"
| drained: "eng_pc e = DrainWait t s \<Longrightarrow> all_done e \<Longrightarrow> drain_done t s e = Some e' \<Longrightarrow> engine_step e e'"
| unloaded: "eng_pc e = UnloadWait t p \<Longrightarrow> unload_done t p e = Some e' \<Longrightarrow> engine_step e e'"
| loaded: "eng_pc e = LoadWait t s \<Longrightarrow> engine_step e (load_ok t s e)"
| load_fails: "eng_pc e = LoadWait t s \<Longrightarrow> engine_step e (load_failed t s msg e)"
| load_fail_stop: "eng_pc e = LoadFailStop t \<Longrightarrow> engine_step e (load_fail_stopped t e)"
| stop: "\<not> stopping (eng_pc e) \<Longrightarrow> engine_step e (stop_begin e)"
| stop_gather: "eng_pc e = StopGather \<Longrightarrow> all_done e \<Longrightarrow> stop_gathered e = Some e' \<Longrightarrow> engine_step e e'"
| stop_wait: "eng_pc e = StopWait m \<Longrightarrow> engine_step e (stop_finish m e)"

inductive reachable :: "app_config \<Rightarrow> seconds \<Rightarrow> engine \<Rightarrow> bool" for c t0 where
  init: "valid_app_config c \<Longrightarrow> reachable c t0 (init_engine c t0)"
| step: "reachable c t0 e \<Longrightarrow> engine_step e e' \<Longrightarrow> reachable c t0 e'"

end
