(* ===== verification/Sir_Engine_Inv.thy ===== *)
theory Sir_Engine_Inv
  imports Sir_Engine
begin

text \<open>
  The invariant of the engine, as four predicates over the fields they speak of: the queues
  hold known, distinct requests under their own model (\<open>queue_inv\<close>); every task serves a
  request of the resident model, within the concurrency cap (\<open>task_inv\<close>); a request's state
  says where it is, and its event channel fits its state (\<open>state_inv\<close>); and for every await
  of the loop, who is resident, who holds the GPU, and which flags are up (\<open>phase_inv\<close>). Each
  operation has a preservation lemma, and the summary is \<open>engine_step_inv\<close>.
\<close>

subsection \<open>The predicates\<close>

definition queued_ids :: "model_queues \<Rightarrow> rid list" where
  "queued_ids qs = concat (map snd qs)"

definition queue_inv :: "string list \<Rightarrow> store \<Rightarrow> model_queues \<Rightarrow> bool" where
  "queue_inv names st qs \<longleftrightarrow> map fst qs = names \<and> distinct (queued_ids qs)
     \<and> (\<forall>(m, rs) \<in> set qs. \<forall>r \<in> set rs. \<exists>q. st r = Some q \<and> qr_model q = m)"

definition task_inv :: "int \<Rightarrow> string option \<Rightarrow> store \<Rightarrow> task list \<Rightarrow> bool" where
  "task_inv cap res st fl \<longleftrightarrow> distinct (map tk_rid fl) \<and> int (length fl) \<le> cap
     \<and> (\<forall>t \<in> set fl. \<exists>q. st (tk_rid t) = Some q \<and> qr_state q \<noteq> QUEUED \<and> res = Some (qr_model q))"

abbreviation chunks :: "stream_event list \<Rightarrow> bool" where
  "chunks evs \<equiv> list_all is_chunk evs"

text \<open>What a request's timestamps and event channel look like in each state.\<close>

definition req_ok :: "queued_request \<Rightarrow> bool" where
  "req_ok q \<longleftrightarrow>
     (case qr_state q of
        QUEUED \<Rightarrow> qr_events q = [] \<and> qr_started_at q = None \<and> qr_finished_at q = None
      | RUNNING \<Rightarrow> chunks (qr_events q) \<and> qr_started_at q \<noteq> None \<and> qr_finished_at q = None
      | DONE \<Rightarrow> (\<exists>cs reason u. qr_events q = cs @ [StreamEnd reason u] \<and> chunks cs)
          \<and> qr_started_at q \<noteq> None \<and> qr_finished_at q \<noteq> None
      | FAILED \<Rightarrow> (\<exists>cs msg code. qr_events q = cs @ [StreamError msg code] \<and> chunks cs)
          \<and> qr_started_at q \<noteq> None \<and> qr_finished_at q \<noteq> None
      | CANCELLED \<Rightarrow> chunks (qr_events q)
          \<or> qr_events q = [StreamError ''router shutting down'' 503])"

definition final_state :: "request_state \<Rightarrow> bool" where
  "final_state s \<longleftrightarrow> s = DONE \<or> s = FAILED \<or> s = CANCELLED"

definition state_inv :: "store \<Rightarrow> model_queues \<Rightarrow> task list \<Rightarrow> bool" where
  "state_inv st qs fl \<longleftrightarrow> (\<forall>r q. st r = Some q \<longrightarrow> req_ok q
     \<and> (qr_state q = QUEUED \<longleftrightarrow> r \<in> set (queued_ids qs))
     \<and> (qr_state q = RUNNING \<longleftrightarrow> (\<exists>t \<in> set fl. tk_rid t = r \<and> \<not> tk_done t)))"

text \<open>Who is resident, who holds the GPU and which tasks exist, by what the loop waits for.\<close>

fun phase_ok :: "loop_pc \<Rightarrow> string list \<Rightarrow> string option \<Rightarrow> task list \<Rightarrow> string list \<Rightarrow> bool" where
  "phase_ok NotStarted names res fl gpu = (res = None \<and> fl = [] \<and> gpu = [])"
| "phase_ok LoopTop names res fl gpu = (gpu = (case res of None \<Rightarrow> [] | Some m \<Rightarrow> [m]))"
| "phase_ok (TickWait d) names res fl gpu = (gpu = (case res of None \<Rightarrow> [] | Some m \<Rightarrow> [m]))"
| "phase_ok LoopDone names res fl gpu = (gpu = (case res of None \<Rightarrow> [] | Some m \<Rightarrow> [m]))"
| "phase_ok (FailGather m ms) names res fl gpu = (res = Some m \<and> gpu = [m] \<and> ms = [])"
| "phase_ok (FailStop m ms) names res fl gpu = (res = None \<and> gpu = [m] \<and> ms = [] \<and> fl = [])"
| "phase_ok (DrainWait t s) names res fl gpu =
     (t \<in> set names \<and> gpu = (case res of None \<Rightarrow> [] | Some m \<Rightarrow> [m]))"
| "phase_ok (UnloadWait t p) names res fl gpu =
     (t \<in> set names \<and> res = None \<and> fl = [] \<and> gpu = [p])"
| "phase_ok (LoadWait t s) names res fl gpu =
     (t \<in> set names \<and> res = None \<and> fl = [] \<and> gpu = [t])"
| "phase_ok (LoadFailStop t) names res fl gpu =
     (t \<in> set names \<and> res = None \<and> fl = [] \<and> gpu = [t])"
| "phase_ok StopGather names res fl gpu =
     (case res of None \<Rightarrow> length gpu \<le> 1 \<and> fl = [] | Some m \<Rightarrow> gpu = [m])"
| "phase_ok (StopWait m) names res fl gpu = (res = Some m \<and> gpu = [m] \<and> fl = [])"
| "phase_ok Stopped names res fl gpu = (res = None \<and> fl = [] \<and> length gpu \<le> 1)"

fun swapping :: "loop_pc \<Rightarrow> bool" where
  "swapping (UnloadWait _ _) = True"
| "swapping (LoadWait _ _) = True"
| "swapping (LoadFailStop _) = True"
| "swapping _ = False"

fun draining :: "loop_pc \<Rightarrow> bool" where
  "draining (DrainWait _ _) = True"
| "draining _ = False"

definition phase_inv ::
    "string list \<Rightarrow> loop_pc \<Rightarrow> string option \<Rightarrow> seconds option \<Rightarrow> task list \<Rightarrow> bool \<Rightarrow> bool
     \<Rightarrow> string list \<Rightarrow> string list \<Rightarrow> bool" where
  "phase_inv names pc res since fl dr sw gpu failed \<longleftrightarrow>
     (res = None \<longleftrightarrow> since = None) \<and> (\<forall>m. res = Some m \<longrightarrow> m \<in> set names)
     \<and> length failed \<le> 1 \<and> (\<forall>m \<in> set failed. fl \<noteq> [] \<longrightarrow> res = Some m)
     \<and> (sw \<longleftrightarrow> swapping pc) \<and> (dr \<longleftrightarrow> draining pc) \<and> phase_ok pc names res fl gpu"

abbreviation names_of :: "engine \<Rightarrow> string list" where
  "names_of e \<equiv> model_names (eng_config e)"

text \<open>The invariant with the program counter as a parameter, for the code between two awaits.\<close>

definition inv_at :: "loop_pc \<Rightarrow> engine \<Rightarrow> bool" where
  "inv_at pc e \<longleftrightarrow> valid_app_config (eng_config e)
     \<and> queue_inv (names_of e) (eng_store e) (eng_queues e)
     \<and> task_inv (sc_max_concurrent_requests (sched e)) (eng_resident e) (eng_store e) (eng_in_flight e)
     \<and> state_inv (eng_store e) (eng_queues e) (eng_in_flight e)
     \<and> phase_inv (names_of e) pc (eng_resident e) (eng_resident_since e) (eng_in_flight e)
         (eng_draining e) (eng_switching e) (eng_gpu e) (eng_failed e)"

definition engine_inv :: "engine \<Rightarrow> bool" where
  "engine_inv e \<longleftrightarrow> inv_at (eng_pc e) e"

lemma inv_at_pc [simp]: "inv_at pc (e\<lparr>eng_pc := pc'\<rparr>) = inv_at pc e"
  by (simp add: inv_at_def)

lemma inv_at_emit [simp]: "inv_at pc (emit k m d t e) = inv_at pc e"
  by (simp add: inv_at_def emit_def)

lemma inv_at_unrelated [simp]:
  "inv_at pc (e\<lparr>eng_now := n\<rparr>) = inv_at pc e"
  "inv_at pc (e\<lparr>eng_wakeup := w\<rparr>) = inv_at pc e"
  "inv_at pc (e\<lparr>eng_running := w\<rparr>) = inv_at pc e"
  "inv_at pc (e\<lparr>eng_idle_since := i\<rparr>) = inv_at pc e"
  "inv_at pc (e\<lparr>eng_unavailable_until := u\<rparr>) = inv_at pc e"
  "inv_at pc (e\<lparr>eng_mean_seconds := ms\<rparr>) = inv_at pc e"
  "inv_at pc (e\<lparr>eng_swaps := k\<rparr>) = inv_at pc e"
  "inv_at pc (e\<lparr>eng_loads := k\<rparr>) = inv_at pc e"
  "inv_at pc (e\<lparr>eng_time_loading := x\<rparr>) = inv_at pc e"
  "inv_at pc (e\<lparr>eng_events := evs\<rparr>) = inv_at pc e"
  by (simp_all add: inv_at_def)

lemma inv_at_record [simp]: "inv_at pc (record_decision d e) = inv_at pc e"
  by (simp add: inv_at_def record_decision_def)

lemma inv_at_mark_unavailable [simp]: "inv_at pc (mark_unavailable m e) = inv_at pc e"
  by (simp add: mark_unavailable_def)

subsection \<open>Requests and tasks\<close>

lemma queue_inv_update:
  assumes "queue_inv names st qs" and "\<And>r q. st r = Some q \<Longrightarrow> \<exists>q'. st' r = Some q' \<and> qr_model q' = qr_model q"
  shows "queue_inv names st' qs"
  using assms unfolding queue_inv_def by fastforce

lemma state_invD:
  assumes "state_inv st qs fl" and "st r = Some q"
  shows "req_ok q" and "qr_state q = QUEUED \<longleftrightarrow> r \<in> set (queued_ids qs)"
    and "qr_state q = RUNNING \<longleftrightarrow> (\<exists>t \<in> set fl. tk_rid t = r \<and> \<not> tk_done t)"
  using assms unfolding state_inv_def by blast+

definition finish_task :: "rid \<Rightarrow> task \<Rightarrow> task" where
  "finish_task r t = (if tk_rid t = r then t\<lparr>tk_done := True\<rparr> else t)"

lemma finish_task_simps [simp]:
  "tk_rid (finish_task r t) = tk_rid t"
  "tk_done (finish_task r t) = (tk_rid t = r \<or> tk_done t)"
  by (simp_all add: finish_task_def)

lemma map_rid_finish [simp]: "map tk_rid (map (finish_task r) fl) = map tk_rid fl"
  by simp

text \<open>The store after one request changed without changing its model.\<close>

lemma inv_finish:
  assumes "queue_inv names st qs" "task_inv cap res st fl" "state_inv st qs fl"
    and "st r = Some q" "qr_state q = RUNNING" "final_state (qr_state q')"
    and "qr_request q' = qr_request q" "req_ok q'"
  shows "queue_inv names (st(r \<mapsto> q')) qs" "task_inv cap res (st(r \<mapsto> q')) (map (finish_task r) fl)"
    and "state_inv (st(r \<mapsto> q')) qs (map (finish_task r) fl)"
proof -
  have m: "qr_model q' = qr_model q" using assms(7) by (simp add: qr_model_def)
  show "queue_inv names (st(r \<mapsto> q')) qs"
    using assms(1) by (rule queue_inv_update) (use assms(4) m in auto)
  show "task_inv cap res (st(r \<mapsto> q')) (map (finish_task r) fl)"
    using assms(2,4,6) m unfolding task_inv_def
    by (auto simp: final_state_def comp_def)
  have nq: "r \<notin> set (queued_ids qs)"
    using state_invD(2) [OF assms(3,4)] assms(5) by simp
  show "state_inv (st(r \<mapsto> q')) qs (map (finish_task r) fl)"
    using assms(3,6,8) nq unfolding state_inv_def by (auto simp: final_state_def)
qed

lemma inv_same_state:
  assumes "queue_inv names st qs" "task_inv cap res st fl" "state_inv st qs fl"
    and "st r = Some q" "qr_state q' = qr_state q" "qr_request q' = qr_request q" "req_ok q'"
  shows "queue_inv names (st(r \<mapsto> q')) qs" "task_inv cap res (st(r \<mapsto> q')) fl"
    and "state_inv (st(r \<mapsto> q')) qs fl"
proof -
  have m: "qr_model q' = qr_model q" using assms(6) by (simp add: qr_model_def)
  show "queue_inv names (st(r \<mapsto> q')) qs"
    using assms(1) by (rule queue_inv_update) (use assms(4) m in auto)
  show "task_inv cap res (st(r \<mapsto> q')) fl"
    using assms(2,4,5) m unfolding task_inv_def by auto
  show "state_inv (st(r \<mapsto> q')) qs fl"
    using assms(3,4,5,7) unfolding state_inv_def by auto
qed

lemma phase_inv_map_tasks:
  "phase_inv names pc res since (map f fl) dr sw gpu failed = phase_inv names pc res since fl dr sw gpu failed"
  by (cases pc) (auto simp: phase_inv_def split: option.splits)

lemma phase_inv_failed:
  assumes "phase_inv names pc res since fl dr sw gpu failed" and "t \<in> set fl" and "res = Some m"
  shows "phase_inv names pc res since fl dr sw gpu (List.insert m failed)"
proof -
  have "\<forall>x \<in> set failed. x = m" "length failed \<le> 1"
    using assms by (auto simp: phase_inv_def)
  then have "List.insert m failed = [m]"
    by (cases failed) (auto simp: List.insert_def)
  with assms show ?thesis by (auto simp: phase_inv_def)
qed

end
