(* ===== verification/Sir_Engine_Steps.thy ===== *)
theory Sir_Engine_Steps
  imports Sir_Engine_Inv
begin

text \<open>
  Preservation of the engine invariant: first the operations (tasks, queues, dispatch,
  transitions), each also shown to return a state, that is, to let no KeyError escape the loop;
  then \<open>engine_step_inv\<close>, that every step keeps the invariant.
\<close>

subsection \<open>Tasks\<close>

lemma upd_req_Some: "st r = Some q \<Longrightarrow> upd_req r f st = st(r \<mapsto> f q)"
  by (simp add: upd_req_def)

text \<open>What a step of a task does to the engine, for a request that exists and is running.\<close>

definition task_effect :: "rid \<Rightarrow> queued_request \<Rightarrow> engine \<Rightarrow> engine \<Rightarrow> bool" where
  "task_effect r q e e' \<longleftrightarrow>
     (\<exists>q'. e' = e\<lparr>eng_store := (eng_store e)(r \<mapsto> q')\<rparr> \<and> qr_state q' = qr_state q
        \<and> qr_request q' = qr_request q \<and> req_ok q')
   \<or> (\<exists>q' evs means failed. e' = e\<lparr>eng_store := (eng_store e)(r \<mapsto> q'), eng_events := evs,
          eng_mean_seconds := means, eng_failed := failed,
          eng_in_flight := map (finish_task r) (eng_in_flight e)\<rparr>
        \<and> final_state (qr_state q') \<and> qr_request q' = qr_request q \<and> req_ok q'
        \<and> (failed = eng_failed e \<or> failed = List.insert (qr_model q) (eng_failed e)))"

lemma observe_duration_effect: "\<exists>means. observe_duration r e = e\<lparr>eng_mean_seconds := means\<rparr>"
  by (rule exI [of _ "eng_mean_seconds (observe_duration r e)"])
    (simp add: observe_duration_def Let_def split: option.splits)

lemma map_task_finish: "map_task r (\<lambda>t. t\<lparr>tk_done := True\<rparr>) e =
    e\<lparr>eng_in_flight := map (finish_task r) (eng_in_flight e)\<rparr>"
  by (simp add: map_task_def finish_task_def [abs_def])

lemma serve_finally_effect:
  assumes "eng_store e r = Some q"
  shows "\<exists>means. serve_finally r e = e\<lparr>eng_store := (eng_store e)(r \<mapsto> q\<lparr>qr_finished_at := Some (eng_now e)\<rparr>),
      eng_mean_seconds := means, eng_in_flight := map (finish_task r) (eng_in_flight e)\<rparr>"
proof -
  have "map_req r (\<lambda>q. q\<lparr>qr_finished_at := Some (eng_now e)\<rparr>) e
      = e\<lparr>eng_store := (eng_store e)(r \<mapsto> q\<lparr>qr_finished_at := Some (eng_now e)\<rparr>)\<rparr>" (is "_ = ?e")
    using assms by (simp add: map_req_def upd_req_Some)
  moreover obtain means where "observe_duration r ?e = ?e\<lparr>eng_mean_seconds := means\<rparr>"
    using observe_duration_effect by blast
  ultimately show ?thesis by (auto simp: serve_finally_def map_task_finish)
qed

lemma task_effect_finishI:
  assumes "e' = serve_finally r
    (e\<lparr>eng_store := (eng_store e)(r \<mapsto> q1), eng_failed := failed, eng_events := evs\<rparr>)"
    and "qr_state q1 \<in> {DONE, FAILED, CANCELLED}"
    and "qr_request q1 = qr_request q" and "req_ok (q1\<lparr>qr_finished_at := Some (eng_now e)\<rparr>)"
    and "failed = eng_failed e \<or> failed = List.insert (qr_model q) (eng_failed e)"
  shows "task_effect r q e e'"
proof -
  let ?e = "e\<lparr>eng_store := (eng_store e)(r \<mapsto> q1), eng_failed := failed, eng_events := evs\<rparr>"
  let ?q = "q1\<lparr>qr_finished_at := Some (eng_now e)\<rparr>"
  obtain means where "serve_finally r ?e = ?e\<lparr>eng_store := (eng_store ?e)(r \<mapsto> ?q),
      eng_mean_seconds := means, eng_in_flight := map (finish_task r) (eng_in_flight ?e)\<rparr>"
    using serve_finally_effect [of ?e r q1] by auto
  then have "e' = e\<lparr>eng_store := (eng_store e)(r \<mapsto> ?q), eng_events := evs,
      eng_mean_seconds := means, eng_failed := failed,
      eng_in_flight := map (finish_task r) (eng_in_flight e)\<rparr>"
    using assms(1) by simp
  moreover have "final_state (qr_state ?q)" "qr_request ?q = qr_request q"
    using assms(2,3) by (auto simp: final_state_def)
  ultimately show ?thesis
    unfolding task_effect_def using assms(4,5) by blast
qed

lemma serve_end_effect:
  assumes "eng_store e r = Some q" and "qr_state q = RUNNING" and "req_ok q"
    and "ending = StreamEnd reason u"
  shows "task_effect r q e (serve_end r ending e)"
proof (cases "qr_cancelled q")
  case True
  have eq: "serve_end r ending e = serve_finally r (e\<lparr>eng_store := (eng_store e)(r \<mapsto> q\<lparr>qr_state := CANCELLED\<rparr>),
      eng_failed := eng_failed e, eng_events := eng_events e\<rparr>)"
    using assms(1) True by (simp add: serve_end_def map_req_def upd_req_Some)
  show ?thesis
    by (rule task_effect_finishI [OF eq]) (use assms(2,3) in \<open>auto simp: req_ok_def\<close>)
next
  case False
  obtain evs where eq: "serve_end r ending e = serve_finally r (e\<lparr>eng_store := (eng_store e)(r \<mapsto> put_event ending (q\<lparr>qr_state := DONE\<rparr>)),
      eng_failed := eng_failed e, eng_events := evs\<rparr>)"
    using assms(1) False by (auto simp: serve_end_def map_req_def upd_req_Some emit_def)
  show ?thesis
    by (rule task_effect_finishI [OF eq])
      (use assms(2,3,4) in \<open>auto simp: req_ok_def put_event_def\<close>)
qed

lemma serve_effect:
  assumes "eng_store e r = Some q" and "qr_state q = RUNNING" and "req_ok q"
  shows "task_effect r q e (serve r out e)"
proof (cases out)
  case (YieldChunk tx i)
  show ?thesis
  proof (cases "qr_cancelled q")
    case True
    with serve_end_effect [OF assms] assms(1) YieldChunk show ?thesis by (simp add: serve_def)
  next
    case False
    have "req_ok (put_event (Chunk tx i) q)"
      using assms(2,3) by (simp add: req_ok_def put_event_def)
    moreover have "qr_state (put_event (Chunk tx i) q) = qr_state q"
      "qr_request (put_event (Chunk tx i) q) = qr_request q"
      by (simp_all add: put_event_def)
    moreover have "serve r out e = e\<lparr>eng_store := (eng_store e)(r \<mapsto> put_event (Chunk tx i) q)\<rparr>"
      using assms(1) YieldChunk False by (simp add: serve_def map_req_def upd_req_Some)
    ultimately show ?thesis unfolding task_effect_def by blast
  qed
next
  case (YieldEnd reason u)
  with serve_end_effect [OF assms] assms(1) show ?thesis by (simp add: serve_def)
next
  case Exhausted
  with serve_end_effect [OF assms] assms(1) show ?thesis by (simp add: serve_def)
next
  case (RaiseBackend msg)
  obtain evs where eq: "serve r out e = serve_finally r (e\<lparr>eng_store := (eng_store e)(r \<mapsto> put_event (StreamError msg 503) (q\<lparr>qr_state := FAILED\<rparr>)),
      eng_failed := List.insert (qr_model q) (eng_failed e), eng_events := evs\<rparr>)"
    using assms(1) RaiseBackend by (auto simp: serve_def map_req_def upd_req_Some emit_def)
  show ?thesis
    by (rule task_effect_finishI [OF eq])
      (use assms(2,3) in \<open>auto simp: req_ok_def put_event_def\<close>)
next
  case (RaiseOther msg rep)
  obtain evs where eq: "serve r out e = serve_finally r (e\<lparr>eng_store := (eng_store e)(r \<mapsto> put_event (StreamError (''internal error: '' @ msg) 500) (q\<lparr>qr_state := FAILED\<rparr>)),
      eng_failed := eng_failed e, eng_events := evs\<rparr>)"
    using assms(1) RaiseOther by (auto simp: serve_def map_req_def upd_req_Some emit_def)
  show ?thesis
    by (rule task_effect_finishI [OF eq])
      (use assms(2,3) in \<open>auto simp: req_ok_def put_event_def\<close>)
next
  case DeliverCancel
  obtain evs where eq: "serve r out e = serve_finally r (e\<lparr>eng_store := (eng_store e)(r \<mapsto> q\<lparr>qr_state := CANCELLED\<rparr>),
      eng_failed := eng_failed e, eng_events := evs\<rparr>)"
    using assms(1) DeliverCancel by (auto simp: serve_def map_req_def upd_req_Some emit_def)
  show ?thesis
    by (rule task_effect_finishI [OF eq])
      (use assms(2,3) in \<open>auto simp: req_ok_def put_event_def\<close>)
qed

lemma enabled_running:
  assumes "inv_at pc e" and "t \<in> set (eng_in_flight e)" and "\<not> tk_done t"
  obtains q where "eng_store e (tk_rid t) = Some q" "qr_state q = RUNNING" "req_ok q"
    "eng_resident e = Some (qr_model q)"
proof -
  from assms(1,2) obtain q where q: "eng_store e (tk_rid t) = Some q" "eng_resident e = Some (qr_model q)"
    unfolding inv_at_def task_inv_def by blast
  moreover have "state_inv (eng_store e) (eng_queues e) (eng_in_flight e)"
    using assms(1) by (simp add: inv_at_def)
  from state_invD [OF this q(1)] assms(2,3) have "req_ok q" "qr_state q = RUNNING" by blast+
  ultimately show thesis using that by blast
qed

lemma serve_inv:
  assumes "inv_at pc e" and "serve_enabled r out e"
  shows "inv_at pc (serve r out e)"
proof -
  from assms(2) obtain t where t: "t \<in> set (eng_in_flight e)" "tk_rid t = r" "\<not> tk_done t"
    by (auto simp: serve_enabled_def)
  from enabled_running [OF assms(1) t(1,3)] t(2) obtain q
    where q: "eng_store e r = Some q" "qr_state q = RUNNING" "req_ok q" "eng_resident e = Some (qr_model q)"
    by blast
  have invs: "queue_inv (names_of e) (eng_store e) (eng_queues e)"
    "task_inv (sc_max_concurrent_requests (sched e)) (eng_resident e) (eng_store e) (eng_in_flight e)"
    "state_inv (eng_store e) (eng_queues e) (eng_in_flight e)"
    using assms(1) by (simp_all add: inv_at_def)
  from serve_effect [OF q(1-3), of out] consider
    (same) q' where "serve r out e = e\<lparr>eng_store := (eng_store e)(r \<mapsto> q')\<rparr>"
      "qr_state q' = qr_state q" "qr_request q' = qr_request q" "req_ok q'"
  | (finish) q' evs means failed where "serve r out e = e\<lparr>eng_store := (eng_store e)(r \<mapsto> q'),
        eng_events := evs, eng_mean_seconds := means, eng_failed := failed,
        eng_in_flight := map (finish_task r) (eng_in_flight e)\<rparr>"
      "final_state (qr_state q')" "qr_request q' = qr_request q" "req_ok q'"
      "failed = eng_failed e \<or> failed = List.insert (qr_model q) (eng_failed e)"
    unfolding task_effect_def by blast
  then show ?thesis
  proof cases
    case same
    from inv_same_state [OF invs q(1) same(2-4)] assms(1) same(1) show ?thesis
      by (simp add: inv_at_def)
  next
    case finish
    have "phase_inv (names_of e) pc (eng_resident e) (eng_resident_since e)
        (map (finish_task r) (eng_in_flight e)) (eng_draining e) (eng_switching e) (eng_gpu e) failed"
      using assms(1) finish(5) phase_inv_failed [OF _ t(1) q(4)]
      by (auto simp: inv_at_def phase_inv_map_tasks)
    with inv_finish [OF invs q(1,2) finish(2-4)] assms(1) finish(1) show ?thesis
      by (simp add: inv_at_def)
  qed
qed

definition ask_cancel :: "(rid \<Rightarrow> bool) \<Rightarrow> task \<Rightarrow> task" where
  "ask_cancel p t = (if p (tk_rid t) \<and> \<not> tk_done t then t\<lparr>tk_cancelling := True\<rparr> else t)"

lemma ask_cancel_simps [simp]:
  "tk_rid (ask_cancel p t) = tk_rid t" "tk_done (ask_cancel p t) = tk_done t"
  by (simp_all add: ask_cancel_def)

lemma cancel_tasks_eq: "cancel_tasks p e = e\<lparr>eng_in_flight := map (ask_cancel p) (eng_in_flight e)\<rparr>"
  by (simp add: cancel_tasks_def ask_cancel_def [abs_def])

lemma cancel_tasks_inv [simp]: "inv_at pc (cancel_tasks p e) = inv_at pc e"
proof -
  have "task_inv cap res st (map (ask_cancel p) fl) = task_inv cap res st fl" for cap res st fl
    unfolding task_inv_def by (simp add: comp_def)
  moreover have "state_inv st qs (map (ask_cancel p) fl) = state_inv st qs fl" for st qs fl
    unfolding state_inv_def by simp
  ultimately show ?thesis
    by (simp add: inv_at_def cancel_tasks_eq phase_inv_map_tasks)
qed

lemma cancel_disconnected_inv [simp]: "inv_at pc (cancel_disconnected e) = inv_at pc e"
  by (simp add: cancel_disconnected_def)

subsection \<open>Queues\<close>

lemma mset_queued_ids:
  "distinct (map fst qs) \<Longrightarrow>
   mset (queued_ids qs) = (\<Sum>k \<in> set (map fst qs). mset (the (map_of qs k)))"
proof (induction qs)
  case Nil
  then show ?case by (simp add: queued_ids_def)
next
  case (Cons x qs)
  obtain k v where x: "x = (k, v)" by (cases x)
  have "(\<Sum>j \<in> set (map fst qs). mset (the (map_of (x # qs) j)))
      = (\<Sum>j \<in> set (map fst qs). mset (the (map_of qs j)))"
    using Cons.prems x by (intro sum.cong) auto
  with Cons x show ?case by (simp add: queued_ids_def)
qed

lemma mset_queued_ids_change:
  assumes "distinct (map fst qs)" and "map fst qs' = map fst qs" and "map_of qs m = Some rs"
    and "map_of qs' m = Some rs'" and "\<And>k. k \<noteq> m \<Longrightarrow> map_of qs' k = map_of qs k"
  shows "mset (queued_ids qs) + mset rs' = mset (queued_ids qs') + mset rs"
proof -
  let ?K = "set (map fst qs)"
  have m: "m \<in> ?K" using assms(3) by (force dest: map_of_SomeD)
  have "(\<Sum>k \<in> ?K - {m}. mset (the (map_of qs' k))) = (\<Sum>k \<in> ?K - {m}. mset (the (map_of qs k)))"
    using assms(5) by (intro sum.cong) auto
  moreover have "mset (queued_ids qs') = mset rs' + (\<Sum>k \<in> ?K - {m}. mset (the (map_of qs' k)))"
    using mset_queued_ids [of qs'] assms(1,2,4) m sum.remove [of ?K m "\<lambda>k. mset (the (map_of qs' k))"]
    by simp
  moreover have "mset (queued_ids qs) = mset rs + (\<Sum>k \<in> ?K - {m}. mset (the (map_of qs k)))"
    using mset_queued_ids [of qs] assms(1,3) m sum.remove [of ?K m "\<lambda>k. mset (the (map_of qs k))"]
    by simp
  ultimately show ?thesis by simp
qed

lemma queued_ids_mem: "r \<in> set (queued_ids qs) \<longleftrightarrow> (\<exists>(m, rs) \<in> set qs. r \<in> set rs)"
  by (force simp: queued_ids_def)

lemma queue_invE:
  assumes "queue_inv names st qs" and "map_of qs m = Some rs" and "r \<in> set rs"
  obtains q where "st r = Some q" "qr_model q = m" "r \<in> set (queued_ids qs)"
  using assms by (fastforce simp: queue_inv_def queued_ids_mem dest: map_of_SomeD)

definition new_task :: "rid \<Rightarrow> task" where
  "new_task r = \<lparr>tk_rid = r, tk_done = False, tk_cancelling = False\<rparr>"

lemma new_task_simps [simp]: "tk_rid (new_task r) = r" "\<not> tk_done (new_task r)" "\<not> tk_cancelling (new_task r)"
  by (simp_all add: new_task_def)

lemma taken_store_SomeD:
  "taken_store now ts ds st r = Some q' \<Longrightarrow> \<exists>q. st r = Some q \<and> qr_request q' = qr_request q
     \<and> q' = (if r \<in> set ts then run_req now q else if r \<in> set ds then drop_req q else q)"
  by (auto simp: taken_store_def run_req_def drop_req_def split: if_splits)

lemma taken_store_Some:
  "st r = Some q \<Longrightarrow> \<exists>q'. taken_store now ts ds st r = Some q' \<and> qr_model q' = qr_model q"
  by (auto simp: taken_store_def run_req_def drop_req_def qr_model_def)

text \<open>Requests leave the queues: \<open>ts\<close> to become tasks, \<open>ds\<close> because they were cancelled.\<close>

lemma inv_taken:
  assumes inv: "queue_inv names st qs" "task_inv cap res st fl" "state_inv st qs fl"
    and keys: "map fst qs' = map fst qs"
    and sub: "\<And>m rs'. (m, rs') \<in> set qs' \<Longrightarrow> \<exists>rs. (m, rs) \<in> set qs \<and> set rs' \<subseteq> set rs"
    and ms: "mset (queued_ids qs) = mset ts + mset ds + mset (queued_ids qs')"
    and model: "\<And>r q. r \<in> set ts \<Longrightarrow> st r = Some q \<Longrightarrow> res = Some (qr_model q)"
    and cap: "int (length fl + length ts) \<le> cap"
  shows "queue_inv names (taken_store now ts ds st) qs'"
    and "task_inv cap res (taken_store now ts ds st) (fl @ map new_task ts)"
    and "state_inv (taken_store now ts ds st) qs' (fl @ map new_task ts)"
proof -
  have "distinct (queued_ids qs)" using inv(1) by (simp add: queue_inv_def)
  then have "distinct (ts @ ds @ queued_ids qs')"
    using ms by (metis mset_append mset_eq_imp_distinct_iff add.assoc)
  then have dist: "distinct ts" "set ts \<inter> set ds = {}" "set ts \<inter> set (queued_ids qs') = {}"
    "set ds \<inter> set (queued_ids qs') = {}" "distinct (queued_ids qs')" by auto
  have mem: "set (queued_ids qs) = set ts \<union> set ds \<union> set (queued_ids qs')"
    using ms by (metis set_mset_mset set_mset_union)
  show "queue_inv names (taken_store now ts ds st) qs'"
    unfolding queue_inv_def
  proof (intro conjI ballI)
    show "map fst qs' = names" using keys inv(1) by (simp add: queue_inv_def)
    show "distinct (queued_ids qs')" by fact
    fix p assume p: "p \<in> set qs'"
    obtain m rs' where mr: "p = (m, rs')" by (cases p)
    with p sub obtain rs where "(m, rs) \<in> set qs" "set rs' \<subseteq> set rs" by blast
    with inv(1) have "\<forall>r \<in> set rs'. \<exists>q. st r = Some q \<and> qr_model q = m"
      unfolding queue_inv_def by blast
    then show "case p of (m, rs) \<Rightarrow> \<forall>r \<in> set rs. \<exists>q. taken_store now ts ds st r = Some q \<and> qr_model q = m"
      using mr taken_store_Some by fastforce
  qed
  have ts_queued: "\<exists>q. st r = Some q \<and> qr_state q = QUEUED" if "r \<in> set ts \<union> set ds" for r
  proof -
    have "r \<in> set (queued_ids qs)" using that mem by blast
    with inv(1) obtain q where "st r = Some q" by (fastforce simp: queue_inv_def queued_ids_mem)
    with state_invD(2) [OF inv(3)] \<open>r \<in> set (queued_ids qs)\<close> show ?thesis by blast
  qed
  have old_task: "\<exists>q. st (tk_rid t) = Some q \<and> qr_state q \<noteq> QUEUED \<and> res = Some (qr_model q)"
    if "t \<in> set fl" for t using inv(2) that unfolding task_inv_def by blast
  have fresh: "tk_rid t \<notin> set ts \<union> set ds" if "t \<in> set fl" for t
    using old_task [OF that] ts_queued [of "tk_rid t"] by fastforce
  show "task_inv cap res (taken_store now ts ds st) (fl @ map new_task ts)"
    unfolding task_inv_def
  proof (intro conjI ballI)
    show "distinct (map tk_rid (fl @ map new_task ts))"
      using inv(2) dist(1) fresh by (auto simp: task_inv_def comp_def)
    show "int (length (fl @ map new_task ts)) \<le> cap" using cap by simp
    fix t assume "t \<in> set (fl @ map new_task ts)"
    then consider "t \<in> set fl" | r where "t = new_task r" "r \<in> set ts" by auto
    then show "\<exists>q. taken_store now ts ds st (tk_rid t) = Some q \<and> qr_state q \<noteq> QUEUED
        \<and> res = Some (qr_model q)"
    proof cases
      case 1
      then show ?thesis using old_task fresh by (auto simp: taken_store_def)
    next
      case 2
      obtain q where q: "st r = Some q" using ts_queued [of r] 2(2) by blast
      with model [OF 2(2)] 2 show ?thesis by (simp add: taken_store_def run_req_def qr_model_def)
    qed
  qed
  show "state_inv (taken_store now ts ds st) qs' (fl @ map new_task ts)"
    unfolding state_inv_def
  proof (intro allI impI)
    fix r q' assume "taken_store now ts ds st r = Some q'"
    then obtain q where q: "st r = Some q"
      and q': "q' = (if r \<in> set ts then run_req now q else if r \<in> set ds then drop_req q else q)"
      by (blast dest: taken_store_SomeD)
    note old = state_invD [OF inv(3) q]
    have "\<not> (\<exists>t \<in> set fl. tk_rid t = r \<and> \<not> tk_done t)" if "r \<in> set ts \<union> set ds"
      using fresh that by blast
    moreover have "qr_state q = QUEUED" if "r \<in> set ts \<union> set ds"
      using ts_queued [OF that] q by simp
    moreover have "\<exists>t \<in> set fl \<union> new_task ` set ts. tk_rid t = r \<and> \<not> tk_done t" if "r \<in> set ts"
      using that by (intro bexI [of _ "new_task r"]) auto
    ultimately show "req_ok q' \<and> (qr_state q' = QUEUED \<longleftrightarrow> r \<in> set (queued_ids qs'))
        \<and> (qr_state q' = RUNNING \<longleftrightarrow> (\<exists>t \<in> set (fl @ map new_task ts). tk_rid t = r \<and> \<not> tk_done t))"
      using old mem dist(2-4) q'
      by (cases "r \<in> set ts"; cases "r \<in> set ds") (auto simp: run_req_def drop_req_def req_ok_def)
  qed
qed

abbreviation tasks_inv :: "engine \<Rightarrow> bool" where
  "tasks_inv e \<equiv> task_inv (sc_max_concurrent_requests (sched e)) (eng_resident e) (eng_store e) (eng_in_flight e)"

lemma inv_atD:
  assumes "inv_at pc e"
  shows "valid_app_config (eng_config e)"
    and "queue_inv (names_of e) (eng_store e) (eng_queues e)" and "tasks_inv e"
    and "state_inv (eng_store e) (eng_queues e) (eng_in_flight e)"
    and "phase_inv (names_of e) pc (eng_resident e) (eng_resident_since e) (eng_in_flight e)
         (eng_draining e) (eng_switching e) (eng_gpu e) (eng_failed e)"
  using assms by (simp_all add: inv_at_def)

lemma names_distinct: "inv_at pc e \<Longrightarrow> distinct (names_of e) \<and> [] \<notin> set (names_of e)"
  by (auto simp: inv_at_def valid_app_config_def valid_model_config_def model_names_def)

lemma queue_keys: "inv_at pc e \<Longrightarrow> map fst (eng_queues e) = names_of e"
  by (simp add: inv_at_def queue_inv_def)

lemma known_model:
  assumes "inv_at pc e" and "m \<in> set (names_of e)"
  obtains rs where "map_of (eng_queues e) m = Some rs"
proof -
  have "m \<in> fst ` set (eng_queues e)"
    using assms queue_keys [OF assms(1)] by (metis list.set_map)
  then show thesis using that by (metis map_of_eq_None_iff option.exhaust)
qed

lemma purge_cancelled_inv: "inv_at pc e \<Longrightarrow> inv_at pc (purge_cancelled e)"
proof -
  assume inv: "inv_at pc e"
  let ?st = "eng_store e" and ?qs = "eng_queues e"
  let ?ds = "concat (map (\<lambda>(n, rs). filter (is_cancelled ?st) rs) ?qs)"
  let ?qs' = "map (\<lambda>(n, rs). (n, live ?st rs)) ?qs"
  have eq: "purge_cancelled e = e\<lparr>eng_store := taken_store 0 [] ?ds ?st, eng_queues := ?qs'\<rparr>"
    by (simp add: purge_cancelled_def mq_purge_spec [of _ _ 0])
  have "mset (queued_ids qs) = mset (concat (map (\<lambda>(n, rs). filter (is_cancelled ?st) rs) qs))
      + mset (queued_ids (map (\<lambda>(n, rs). (n, live ?st rs)) qs))" for qs
  proof (induction qs)
    case Nil
    then show ?case by (simp add: queued_ids_def)
  next
    case (Cons x qs)
    obtain n rs where x: "x = (n, rs)" by (cases x)
    have "mset rs = mset (filter (is_cancelled ?st) rs) + mset (live ?st rs)"
      unfolding live_def by (induction rs) auto
    with Cons x show ?case by (simp add: queued_ids_def)
  qed
  note ms = this [of ?qs]
  have keys: "map fst ?qs' = map fst ?qs" by auto
  have sub: "\<exists>rs. (m, rs) \<in> set ?qs \<and> set rs' \<subseteq> set rs" if "(m, rs') \<in> set ?qs'" for m rs'
    using that by (auto simp: live_def)
  have cap: "int (length (eng_in_flight e) + length []) \<le> sc_max_concurrent_requests (sched e)"
    using inv_atD(3) [OF inv] by (simp add: task_inv_def)
  from inv_taken [OF inv_atD(2-4) [OF inv] keys sub _ _ cap, of ?ds 0] ms
  show "inv_at pc (purge_cancelled e)"
    using inv unfolding eq by (simp add: inv_at_def)
qed

lemma state_inv_undone:
  "state_inv st qs fl \<Longrightarrow> {t \<in> set fl'. \<not> tk_done t} = {t \<in> set fl. \<not> tk_done t} \<Longrightarrow> state_inv st qs fl'"
  unfolding state_inv_def by (smt (verit, best) mem_Collect_eq)

lemma task_inv_filter: "task_inv cap res st fl \<Longrightarrow> task_inv cap res st (filter P fl)"
proof -
  assume t: "task_inv cap res st fl"
  have len: "int (length (filter P fl)) \<le> int (length fl)" by simp
  from t have "int (length fl) \<le> cap" by (simp add: task_inv_def)
  with len have "int (length (filter P fl)) \<le> cap" by (rule order_trans)
  with t show ?thesis unfolding task_inv_def by (auto intro: distinct_map_filter)
qed

lemma reap_finished_inv:
  assumes "inv_at LoopTop e"
  shows "inv_at LoopTop (reap_finished e)"
proof -
  have "state_inv (eng_store e) (eng_queues e) (filter (\<lambda>t. \<not> tk_done t) (eng_in_flight e))"
    using inv_atD(4) [OF assms] by (rule state_inv_undone) auto
  moreover have "phase_inv (names_of e) LoopTop (eng_resident e) (eng_resident_since e)
      (filter (\<lambda>t. \<not> tk_done t) (eng_in_flight e)) (eng_draining e) (eng_switching e) (eng_gpu e) (eng_failed e)"
    using inv_atD(5) [OF assms] by (auto simp: phase_inv_def)
  ultimately show ?thesis
    using assms task_inv_filter [OF inv_atD(3) [OF assms]] by (simp add: inv_at_def reap_finished_def)
qed

text \<open>When every task is done, the task table may be cleared, whatever the phase becomes.\<close>

lemma clear_tasks:
  assumes "inv_at pc e" and "all_done e"
  shows "task_inv (sc_max_concurrent_requests (sched e)) res (eng_store e) []"
    and "state_inv (eng_store e) (eng_queues e) []"
proof -
  show "task_inv (sc_max_concurrent_requests (sched e)) res (eng_store e) []"
    using inv_atD(3) [OF assms(1)] by (simp add: task_inv_def)
  show "state_inv (eng_store e) (eng_queues e) []"
    using inv_atD(4) [OF assms(1)] by (rule state_inv_undone) (use assms(2) in \<open>auto simp: all_done_def list_all_iff\<close>)
qed

subsection \<open>Reads that cannot fail\<close>

lemma resident_known: "inv_at pc e \<Longrightarrow> eng_resident e = Some m \<Longrightarrow> m \<in> set (names_of e)"
  by (simp add: inv_at_def phase_inv_def)

lemma track_idleness_inv:
  assumes "inv_at pc e"
  obtains i where "track_idleness e = Some (e\<lparr>eng_idle_since := i\<rparr>)"
proof (cases "eng_resident e")
  case None
  with that show thesis by (simp add: track_idleness_def)
next
  case (Some m)
  obtain rs where "map_of (eng_queues e) m = Some rs"
    using known_model [OF assms resident_known [OF assms Some]] by blast
  then obtain d where d: "mq_depth m (qst e) = Some d" by (simp add: mq_depth_def)
  have same: "e = e\<lparr>eng_idle_since := eng_idle_since e\<rparr>" by simp
  show thesis
  proof (cases "d > 0 \<or> eng_in_flight e \<noteq> []")
    case True
    with that Some d show thesis by (auto simp: track_idleness_def)
  next
    case False
    show thesis
    proof (cases "eng_idle_since e")
      case None
      with that Some d False show thesis by (auto simp: track_idleness_def)
    next
      case (Some t)
      have "track_idleness e = Some (e\<lparr>eng_idle_since := eng_idle_since e\<rparr>)"
        using \<open>eng_resident e = Some m\<close> d False Some by (simp add: track_idleness_def)
      with that show thesis by blast
    qed
  qed
qed

lemma option_all_map:
  "(\<And>x. x \<in> set xs \<Longrightarrow> \<exists>y. f x = Some y) \<Longrightarrow> option_all (map f xs) = Some (map (\<lambda>x. the (f x)) xs)"
proof (induction xs)
  case Nil
  then show ?case by simp
next
  case (Cons x xs)
  obtain y where "f x = Some y" using Cons.prems [of x] by auto
  with Cons show ?case by simp
qed

lemma model_state_of_Some:
  assumes "inv_at pc e" and "mc_name m \<in> set (names_of e)"
  obtains ms where "model_state_of e m = Some ms" "ms_name ms = mc_name m"
proof -
  obtain rs where "map_of (eng_queues e) (mc_name m) = Some rs"
    using known_model [OF assms] by blast
  with that show thesis
    by (simp add: model_state_of_def mq_depth_def mq_oldest_enqueued_at_def Let_def)
qed

lemma snapshot_Some:
  assumes "inv_at pc e"
  obtains snap where "snapshot e = Some snap" "snapshot_ok snap" "ss_resident snap = eng_resident e"
    "map ms_name (ss_models snap) = names_of e"
    "ss_draining snap = eng_draining e" "ss_switching snap = eng_switching e"
    "\<And>m. m \<in> set (ac_models (eng_config e)) \<Longrightarrow> \<exists>ms \<in> set (ss_models snap). model_state_of e m = Some ms"
proof -
  let ?ms = "ac_models (eng_config e)"
  have some: "\<exists>ms. model_state_of e m = Some ms \<and> ms_name ms = mc_name m" if "m \<in> set ?ms" for m
    using model_state_of_Some [OF assms, of m] that by (metis image_eqI list.set_map model_names_def)
  have all: "option_all (map (model_state_of e) ?ms) = Some (map (\<lambda>m. the (model_state_of e m)) ?ms)"
    by (rule option_all_map) (use some in blast)
  let ?snap = "\<lparr>ss_models = map (\<lambda>m. the (model_state_of e m)) ?ms, ss_resident = eng_resident e,
                ss_draining = eng_draining e, ss_switching = eng_switching e\<rparr>"
  have names: "map ms_name (ss_models ?snap) = names_of e"
    using some by (fastforce simp: model_names_def)
  have "eng_resident e \<noteq> Some []"
    using resident_known [OF assms] names_distinct [OF assms] by auto
  then have "snapshot_ok ?snap"
    using names names_distinct [OF assms] unfolding snapshot_ok_def by simp
  moreover have "\<exists>ms \<in> set (ss_models ?snap). model_state_of e m = Some ms" if "m \<in> set ?ms" for m
  proof -
    from some [OF that] obtain ms where ms: "model_state_of e m = Some ms" by blast
    then have "ms \<in> (\<lambda>m. the (model_state_of e m)) ` set ?ms"
      using that by (metis image_eqI option.sel)
    with ms show ?thesis by auto
  qed
  moreover have "snapshot e = Some ?snap" by (simp add: snapshot_def all)
  ultimately show thesis using that names by simp
qed

subsection \<open>Transitions\<close>

lemma inv_at_TickWait [simp]: "inv_at (TickWait d) e = inv_at LoopTop e"
  by (simp add: inv_at_def phase_inv_def)

lemma inv_at_LoopDone [simp]: "inv_at LoopDone e = inv_at LoopTop e"
  by (simp add: inv_at_def phase_inv_def)

text \<open>The flags, the residency and the GPU are only looked at by \<open>phase_inv\<close>.\<close>

lemma inv_at_cong:
  assumes "inv_at pc e" "eng_config e' = eng_config e" "eng_store e' = eng_store e"
    "eng_queues e' = eng_queues e" "all_done e \<and> eng_in_flight e' = []"
    "phase_inv (names_of e) pc' (eng_resident e') (eng_resident_since e') []
      (eng_draining e') (eng_switching e') (eng_gpu e') (eng_failed e')"
  shows "inv_at pc' e'"
  using clear_tasks [OF assms(1)] assms by (simp add: inv_at_def)

lemma after_drain_inv:
  assumes "inv_at LoopTop e" "eng_in_flight e = []" and "t \<in> set (names_of e)"
  shows "\<exists>e'. after_drain t e = Some e' \<and> engine_inv e'"
proof (cases "eng_resident e")
  case None
  have ph: "eng_resident_since e = None" "eng_gpu e = []" "\<not> eng_draining e" "length (eng_failed e) \<le> 1"
    using inv_atD(5) [OF assms(1)] None by (auto simp: phase_inv_def)
  have ad: "all_done e" using assms(2) by (simp add: all_done_def)
  let ?f = "(emit EV_LOAD_START t [] None (e\<lparr>eng_switching := True\<rparr>))
      \<lparr>eng_gpu := List.insert t (eng_gpu e), eng_pc := LoadWait t (eng_now e)\<rparr>"
  have "inv_at (LoadWait t (eng_now e)) ?f"
    using inv_at_cong [OF assms(1), of ?f] ad assms(2,3) ph None by (simp add: emit_def phase_inv_def)
  then have "engine_inv ?f" by (simp add: engine_inv_def)
  moreover have "after_drain t e = Some ?f"
    using None assms(3) by (simp add: after_drain_def load_begin_def has_backend_def)
  ultimately show ?thesis by blast
next
  case (Some p)
  have ph: "eng_gpu e = [p]" "\<not> eng_draining e" "length (eng_failed e) \<le> 1"
    using inv_atD(5) [OF assms(1)] Some by (auto simp: phase_inv_def)
  have ad: "all_done e" using assms(2) by (simp add: all_done_def)
  let ?f = "e\<lparr>eng_switching := True, eng_resident := None, eng_resident_since := None,
              eng_pc := UnloadWait t p\<rparr>"
  have "inv_at (UnloadWait t p) ?f"
    using inv_at_cong [OF assms(1), of ?f] ad assms(2,3) ph by (simp add: phase_inv_def)
  then have "engine_inv ?f" by (simp add: engine_inv_def)
  moreover have "after_drain t e = Some ?f"
    using Some resident_known [OF assms(1) Some] by (simp add: after_drain_def has_backend_def)
  ultimately show ?thesis by blast
qed

lemma switch_begin_inv:
  assumes "inv_at LoopTop e" and "t \<in> set (names_of e)"
  shows "\<exists>e'. switch_begin t e = Some e' \<and> engine_inv e'"
proof (cases "eng_in_flight e = []")
  case True
  with after_drain_inv [OF assms(1) _ assms(2)] show ?thesis by (simp add: switch_begin_def)
next
  case False
  have "inv_at (DrainWait t (eng_now e)) (e\<lparr>eng_draining := True\<rparr>)"
    using assms by (simp add: inv_at_def phase_inv_def)
  with False show ?thesis by (simp add: switch_begin_def engine_inv_def)
qed

lemma drain_done_inv:
  assumes "inv_at (DrainWait t s) e" and "all_done e"
  shows "\<exists>e'. drain_done t s e = Some e' \<and> engine_inv e'"
proof -
  let ?e = "e\<lparr>eng_in_flight := [], eng_draining := False\<rparr>"
  have "inv_at LoopTop ?e" and t: "t \<in> set (names_of e)"
    using inv_at_cong [OF assms(1), of ?e LoopTop] assms inv_atD(5) [OF assms(1)]
    by (simp_all add: phase_inv_def)
  then have "inv_at LoopTop (emit EV_DRAIN_END (resident_or_dash e) [] (Some (eng_now e - s)) ?e)" by simp
  from after_drain_inv [OF this, of t] t show ?thesis by (simp add: drain_done_def emit_def)
qed

lemma unload_done_inv:
  assumes "inv_at (UnloadWait t p) e"
  shows "\<exists>e'. unload_done t p e = Some e' \<and> engine_inv e'"
proof -
  have ph: "eng_resident e = None" "eng_resident_since e = None" "\<not> eng_draining e" "eng_switching e"
    "eng_in_flight e = []" "eng_gpu e = [p]" "t \<in> set (names_of e)" "length (eng_failed e) \<le> 1"
    using inv_atD(5) [OF assms(1)] by (auto simp: phase_inv_def)
  let ?f = "(emit EV_LOAD_START t [] None ((emit EV_UNLOAD p [] None (e\<lparr>eng_gpu := removeAll p (eng_gpu e)\<rparr>))
      \<lparr>eng_swaps := eng_swaps e + 1\<rparr>))\<lparr>eng_gpu := [t], eng_pc := LoadWait t (eng_now e)\<rparr>"
  have "inv_at (LoadWait t (eng_now e)) ?f"
    using inv_at_cong [OF assms(1), of ?f] ph by (simp add: emit_def phase_inv_def all_done_def)
  then have "engine_inv ?f" by (simp add: engine_inv_def)
  moreover have "unload_done t p e = Some ?f"
    using ph by (simp add: unload_done_def load_begin_def has_backend_def emit_def)
  ultimately show ?thesis by blast
qed

lemma load_ok_inv:
  assumes "inv_at (LoadWait t s) e"
  shows "engine_inv (load_ok t s e)"
proof -
  have ph: "\<not> eng_draining e" "eng_in_flight e = []" "eng_gpu e = [t]" "t \<in> set (names_of e)"
    "length (eng_failed e) \<le> 1"
    using inv_atD(5) [OF assms(1)] by (auto simp: phase_inv_def)
  have "inv_at LoopTop (load_ok t s e)"
    using inv_at_cong [OF assms, of "load_ok t s e" LoopTop] ph
    by (simp add: load_ok_def Let_def emit_def phase_inv_def all_done_def)
  then show ?thesis by (simp add: engine_inv_def load_ok_def Let_def emit_def)
qed

lemma load_failed_inv:
  assumes "inv_at (LoadWait t s) e"
  shows "engine_inv (load_failed t s msg e)"
proof -
  have "inv_at (LoadFailStop t) e" using assms by (auto simp: inv_at_def phase_inv_def)
  then show ?thesis by (simp add: engine_inv_def load_failed_def Let_def)
qed

lemma load_fail_stopped_inv:
  assumes "inv_at (LoadFailStop t) e"
  shows "engine_inv (load_fail_stopped t e)"
proof -
  have ph: "\<not> eng_draining e" "eng_in_flight e = []" "eng_gpu e = [t]" "length (eng_failed e) \<le> 1"
    "eng_resident e = None" "eng_resident_since e = None"
    using inv_atD(5) [OF assms(1)] by (auto simp: phase_inv_def)
  have "inv_at LoopTop (load_fail_stopped t e)"
    using inv_at_cong [OF assms, of "load_fail_stopped t e" LoopTop] ph
    by (simp add: load_fail_stopped_def mark_unavailable_def phase_inv_def all_done_def)
  then show ?thesis by (simp add: engine_inv_def load_fail_stopped_def mark_unavailable_def)
qed

subsection \<open>Dispatch\<close>

lemma fold_dispatch_one:
  "(\<forall>r \<in> set rs. eng_store e r \<noteq> None) \<Longrightarrow>
   \<exists>evs. fold dispatch_one rs e = e\<lparr>eng_events := evs, eng_in_flight := eng_in_flight e @ map new_task rs\<rparr>"
proof (induction rs arbitrary: e)
  case Nil
  show ?case by (rule exI [of _ "eng_events e"]) simp
next
  case (Cons r rs)
  then obtain q where "eng_store e r = Some q" by auto
  then obtain evs where one: "dispatch_one r e = e\<lparr>eng_events := evs, eng_in_flight := eng_in_flight e @ [new_task r]\<rparr>"
    by (auto simp: dispatch_one_def emit_def new_task_def)
  have "\<forall>x \<in> set rs. eng_store (dispatch_one r e) x \<noteq> None"
    using Cons.prems one by simp
  from Cons.IH [OF this] one show ?case by auto
qed

text \<open>
  What a dispatch does: nothing without a resident model or a free slot, and otherwise the
  first live requests of the resident model, as many as there are free slots, become tasks.
\<close>

lemma dispatch_spec:
  assumes inv: "inv_at pc e" and res: "eng_resident e = Some m"
    and rs: "map_of (eng_queues e) m = Some rs"
  defines "free \<equiv> nat (sc_max_concurrent_requests (sched e) - int (length (eng_in_flight e)))"
  defines "ts \<equiv> take free (live (eng_store e) rs)"
  shows "\<exists>ds rs' qs' evs. dispatch e = Some (e\<lparr>eng_store := taken_store (eng_now e) ts ds (eng_store e),
        eng_queues := qs', eng_events := evs, eng_in_flight := eng_in_flight e @ map new_task ts\<rparr>)
    \<and> map fst qs' = map fst (eng_queues e) \<and> map_of qs' m = Some rs'
    \<and> (\<forall>k. k \<noteq> m \<longrightarrow> map_of qs' k = map_of (eng_queues e) k)
    \<and> mset rs = mset ts + mset ds + mset rs' \<and> (\<forall>r \<in> set ds. is_cancelled (eng_store e) r)
    \<and> live (eng_store e) rs' = drop free (live (eng_store e) rs)"
proof (cases "0 < sc_max_concurrent_requests (sched e) - int (length (eng_in_flight e))")
  case False
  then have "ts = []" "free = 0" by (simp_all add: ts_def free_def)
  moreover have "dispatch e = Some e"
    using False res by (simp add: dispatch_def)
  ultimately show ?thesis using rs
    by (intro exI [of _ "[]"] exI [of _ rs] exI [of _ "eng_queues e"] exI [of _ "eng_events e"])
      (simp add: taken_store_def [abs_def])
next
  case True
  let ?cap = "sc_max_concurrent_requests (sched e) - int (length (eng_in_flight e))"
  have qi: "queue_inv (names_of e) (eng_store e) (eng_queues e)" using inv by (simp add: inv_at_def)
  have "rs \<in> set (map snd (eng_queues e))" using rs by (force dest: map_of_SomeD)
  then have dist: "distinct rs" using qi by (auto simp: queue_inv_def queued_ids_def distinct_concat_iff)
  have q: "map_of (snd (qst e)) m = Some rs" using rs by simp
  obtain s' ds rs' where take: "mq_take_while m (eng_now e) ?cap (qst e) = Some (ts, s')"
    "map_of (snd s') m = Some rs'" "mset rs = mset ts + mset ds + mset rs'"
    "\<forall>x \<in> set ds. is_cancelled (eng_store e) x"
    "live (fst s') rs' = drop free (live (eng_store e) rs)"
    "fst s' = taken_store (eng_now e) ts ds (eng_store e)"
    "\<forall>m'. m' \<noteq> m \<longrightarrow> map_of (snd s') m' = map_of (eng_queues e) m'"
    "map fst (snd s') = map fst (eng_queues e)"
    using mq_take_while_spec [OF q dist, of "eng_now e" ?cap]
    unfolding ts_def free_def fst_conv snd_conv by blast
  have in_store: "eng_store (e\<lparr>eng_store := fst s', eng_queues := snd s'\<rparr>) r \<noteq> None" if "r \<in> set ts" for r
  proof -
    have "r \<in> set rs" using that by (auto simp: ts_def live_def dest: in_set_takeD)
    then obtain q where "eng_store e r = Some q" using queue_invE [OF qi rs] by blast
    from taken_store_Some [where st = "eng_store e" and now = "eng_now e" and ts = ts and ds = ds, OF this]
    show ?thesis using take(6) by auto
  qed
  then have "\<forall>r \<in> set ts. eng_store (e\<lparr>eng_store := fst s', eng_queues := snd s'\<rparr>) r \<noteq> None" by blast
  from fold_dispatch_one [OF this] obtain evs where evs: "fold dispatch_one ts (e\<lparr>eng_store := fst s', eng_queues := snd s'\<rparr>)
      = e\<lparr>eng_store := fst s', eng_queues := snd s', eng_events := evs,
          eng_in_flight := eng_in_flight e @ map new_task ts\<rparr>"
    by auto
  obtain st' qs' where s': "s' = (st', qs')" by (cases s')
  have "has_backend m e" using resident_known [OF inv res] by (simp add: has_backend_def)
  then have "dispatch e = Some (e\<lparr>eng_store := fst s', eng_queues := snd s', eng_events := evs,
          eng_in_flight := eng_in_flight e @ map new_task ts\<rparr>)"
    using True res take(1) evs s' by (simp add: dispatch_def Let_def)
  moreover have "live (eng_store e) rs' = drop free (live (eng_store e) rs)" using take(5,6) by simp
  ultimately show ?thesis using take
    by (intro exI [of _ ds] exI [of _ rs'] exI [of _ "snd s'"] exI [of _ evs]) simp
qed

lemma dispatch_inv:
  assumes inv: "inv_at LoopTop e" and failed: "\<forall>m \<in> set (eng_failed e). eng_resident e = None \<or> eng_resident e = Some m"
  shows "\<exists>e'. dispatch e = Some e' \<and> inv_at LoopTop e'"
proof (cases "eng_resident e")
  case None
  with inv show ?thesis by (simp add: dispatch_def)
next
  case (Some m)
  obtain rs where rs: "map_of (eng_queues e) m = Some rs"
    using known_model [OF inv resident_known [OF inv Some]] by blast
  let ?free = "nat (sc_max_concurrent_requests (sched e) - int (length (eng_in_flight e)))"
  let ?ts = "take ?free (live (eng_store e) rs)"
  obtain ds rs' qs' evs where d: "dispatch e = Some (e\<lparr>eng_store := taken_store (eng_now e) ?ts ds (eng_store e),
        eng_queues := qs', eng_events := evs, eng_in_flight := eng_in_flight e @ map new_task ?ts\<rparr>)"
    and keys: "map fst qs' = map fst (eng_queues e)" and rs': "map_of qs' m = Some rs'"
    and other: "\<forall>k. k \<noteq> m \<longrightarrow> map_of qs' k = map_of (eng_queues e) k"
    and ms: "mset rs = mset ?ts + mset ds + mset rs'"
    using dispatch_spec [OF inv Some rs] by blast
  have dk: "distinct (map fst (eng_queues e))"
    using names_distinct [OF inv] queue_keys [OF inv] by simp
  have dk': "distinct (map fst qs')" using dk keys by simp
  have all: "mset (queued_ids (eng_queues e)) = mset ?ts + mset ds + mset (queued_ids qs')"
    using mset_queued_ids_change [OF dk keys rs rs'] other ms by (simp add: add.commute add.left_commute)
  have sub: "\<exists>ys. (k, ys) \<in> set (eng_queues e) \<and> set xs \<subseteq> set ys" if "(k, xs) \<in> set qs'" for k xs
  proof (cases "k = m")
    case True
    then have "xs = rs'" using that rs' dk' by simp
    moreover have "set rs' \<subseteq> set rs" using ms by (metis mset_subset_eq_add_right set_mset_mono set_mset_mset)
    ultimately show ?thesis using True rs by (auto dest: map_of_SomeD)
  next
    case False
    have "map_of qs' k = Some xs" using that dk' by simp
    with False other have "map_of (eng_queues e) k = Some xs" by simp
    then show ?thesis by (auto dest: map_of_SomeD)
  qed
  have model: "eng_resident e = Some (qr_model q)" if "r \<in> set ?ts" "eng_store e r = Some q" for r q
  proof -
    have "r \<in> set rs" using that(1) by (auto simp: live_def dest: in_set_takeD)
    from queue_invE [OF inv_atD(2) [OF inv] rs this] that(2) have "qr_model q = m" by force
    with Some show ?thesis by simp
  qed
  have "int (length (eng_in_flight e)) \<le> sc_max_concurrent_requests (sched e)"
    using inv_atD(3) [OF inv] by (simp add: task_inv_def)
  then have cap: "int (length (eng_in_flight e) + length ?ts) \<le> sc_max_concurrent_requests (sched e)"
    by simp
  note new = inv_taken [OF inv_atD(2-4) [OF inv] keys sub all model cap]
  have "phase_inv (names_of e) LoopTop (eng_resident e) (eng_resident_since e) fl
         (eng_draining e) (eng_switching e) (eng_gpu e) (eng_failed e)" for fl
    using inv_atD(5) [OF inv] failed Some by (auto simp: phase_inv_def)
  with new [where now = "eng_now e"] inv d show ?thesis by (simp add: inv_at_def)
qed

subsection \<open>A pass of the control loop\<close>

abbreviation failed_fit :: "engine \<Rightarrow> bool" where
  "failed_fit e \<equiv> (\<forall>m \<in> set (eng_failed e). eng_resident e = None \<or> eng_resident e = Some m)"

text \<open>The housekeeping at the head of a pass changes neither residency nor the reported failures.\<close>

definition housekeep :: "engine \<Rightarrow> engine" where
  "housekeep e = reap_finished (cancel_disconnected (purge_cancelled e))"

lemma housekeep_inv: "inv_at LoopTop e \<Longrightarrow> inv_at LoopTop (housekeep e)"
  by (simp add: housekeep_def reap_finished_inv purge_cancelled_inv)

lemma housekeep_frame [simp]:
  "eng_failed (housekeep e) = eng_failed e" "eng_resident (housekeep e) = eng_resident e"
  "eng_config (housekeep e) = eng_config e" "eng_now (housekeep e) = eng_now e"
  "eng_unavailable_until (housekeep e) = eng_unavailable_until e"
  "eng_decisions (housekeep e) = eng_decisions e" "eng_pc (housekeep e) = eng_pc e"
  "eng_resident_since (housekeep e) = eng_resident_since e"
  "eng_draining (housekeep e) = eng_draining e" "eng_switching (housekeep e) = eng_switching e"
  by (simp_all add: housekeep_def reap_finished_def cancel_disconnected_def cancel_tasks_def
      purge_cancelled_def split: prod.splits)

lemma loop_body_inv:
  assumes "inv_at LoopTop e" and "failed_fit e"
  shows "\<exists>e'. loop_body e = Some e' \<and> engine_inv e'"
proof -
  have h: "inv_at LoopTop (housekeep e)" by (rule housekeep_inv [OF assms(1)])
  obtain i where i: "track_idleness (housekeep e) = Some ((housekeep e)\<lparr>eng_idle_since := i\<rparr>)"
    using track_idleness_inv [OF h] by blast
  let ?e = "(housekeep e)\<lparr>eng_idle_since := i\<rparr>"
  have e: "inv_at LoopTop ?e" using h by simp
  obtain snap where snap: "snapshot ?e = Some snap" "snapshot_ok snap"
    "map ms_name (ss_models snap) = names_of ?e" using snapshot_Some [OF e] by blast
  let ?d = "decide snap (eng_now ?e) (sched ?e)"
  let ?r = "record_decision ?d ?e"
  have r: "inv_at LoopTop ?r" using e by simp
  have frame: "eng_failed ?r = eng_failed e" "eng_resident ?r = eng_resident e" "eng_config ?r = eng_config e"
    by (simp_all add: record_decision_def)
  let ?sw = "dc_kind ?d = SWITCH \<and> dc_target ?d \<notin> {None, Some []}"
  let ?go = "if dc_kind ?d \<in> {SERVE, HOLD} then dispatch ?r else Some ?r"
  have body: "loop_body e = (if ?sw then switch_begin (the (dc_target ?d)) ?r
      else Option.bind ?go (\<lambda>e. Some (e\<lparr>eng_pc := TickWait (eng_now e + sc_tick_interval_seconds (sched e))\<rparr>)))"
    unfolding loop_body_def housekeep_def [symmetric] i snap(1) Let_def Option.bind.simps ..
  show ?thesis
  proof (cases ?sw)
    case True
    then obtain t where t: "dc_target ?d = Some (ms_name t)" "t \<in> set (ss_models snap)"
      using switch_target [OF snap(2)] by blast
    then have "ms_name t \<in> set (map ms_name (ss_models snap))" by simp
    then have "ms_name t \<in> set (names_of ?r)" unfolding snap(3) frame by simp
    from switch_begin_inv [OF r this] have "\<exists>e'. switch_begin (the (dc_target ?d)) ?r = Some e' \<and> engine_inv e'"
      unfolding t(1) option.sel .
    then show ?thesis unfolding body if_P [OF True] .
  next
    case False
    have "\<exists>e'. dispatch ?r = Some e' \<and> inv_at LoopTop e'"
      using dispatch_inv [OF r] assms(2) unfolding frame by blast
    then obtain e' where e': "?go = Some e'" "inv_at LoopTop e'"
      using r by (cases "dc_kind ?d \<in> {SERVE, HOLD}") (simp_all only: if_True if_False, blast+)
    have "loop_body e = Some (e'\<lparr>eng_pc := TickWait (eng_now e' + sc_tick_interval_seconds (sched e'))\<rparr>)"
      unfolding body if_not_P [OF False] e'(1) Option.bind.simps ..
    with e'(2) show ?thesis by (simp add: engine_inv_def)
  qed
qed

lemma crash_unload_inv:
  assumes "inv_at pc e" "eng_in_flight e = []" "eng_resident e = Some m" "eng_gpu e = [m]"
    and "\<not> eng_draining e" "\<not> eng_switching e"
  shows "\<exists>e'. crash_unload m [] e = Some e' \<and> engine_inv e'"
proof -
  let ?f = "e\<lparr>eng_resident := None, eng_resident_since := None, eng_pc := FailStop m []\<rparr>"
  have "length (eng_failed e) \<le> 1" using assms(1) by (simp add: inv_at_def phase_inv_def)
  then have "inv_at (FailStop m []) ?f"
    using inv_at_cong [OF assms(1), of ?f] assms(2-) by (simp add: phase_inv_def all_done_def)
  then have "engine_inv ?f" by (simp add: engine_inv_def)
  moreover have "crash_unload m [] e = Some ?f"
    using resident_known [OF assms(1,3)] by (simp add: crash_unload_def has_backend_def)
  ultimately show ?thesis by blast
qed

lemma handle_failed_inv:
  assumes "inv_at LoopTop e" "failed_fit e" "length ms \<le> 1"
  shows "\<exists>e'. handle_failed ms e = Some e' \<and> engine_inv e'"
proof (cases ms)
  case Nil
  with loop_body_inv [OF assms(1,2)] show ?thesis by simp
next
  case (Cons m ms')
  then have ms: "ms = [m]" using assms(3) by simp
  let ?e = "emit EV_CRASH m ''backend marked unavailable'' None (mark_unavailable m e)"
  have e: "inv_at LoopTop ?e" "failed_fit ?e" using assms(1,2) by (simp_all add: emit_def mark_unavailable_def)
  show ?thesis
  proof (cases "eng_resident ?e = Some m")
    case False
    with loop_body_inv [OF e] ms show ?thesis by (simp add: Let_def)
  next
    case True
    let ?c = "cancel_tasks (request_of_model ?e m) ?e"
    have c: "inv_at LoopTop ?c" using e(1) by simp
    have ph: "eng_gpu ?c = [m]" "\<not> eng_draining ?c" "\<not> eng_switching ?c" "eng_resident ?c = Some m"
      using inv_atD(5) [OF c] True by (auto simp: phase_inv_def cancel_tasks_def)
    show ?thesis
    proof (cases "eng_in_flight ?c = []")
      case True
      with crash_unload_inv [OF c True ph(4,1-3)] \<open>eng_resident ?e = Some m\<close> ms show ?thesis
        by (simp add: Let_def)
    next
      case False
      have "inv_at (FailGather m []) ?c"
        using c ph unfolding inv_at_def phase_inv_def by auto
      with False \<open>eng_resident ?e = Some m\<close> ms show ?thesis by (simp add: Let_def engine_inv_def)
    qed
  qed
qed

lemma handle_failures_inv:
  assumes "inv_at LoopTop e"
  shows "\<exists>e'. handle_failures e = Some e' \<and> engine_inv e'"
proof -
  have "inv_at LoopTop (e\<lparr>eng_failed := []\<rparr>)" and "length (eng_failed e) \<le> 1"
    using assms by (simp_all add: inv_at_def phase_inv_def)
  from handle_failed_inv [OF this(1) _ this(2)] show ?thesis by (simp add: handle_failures_def)
qed

lemma loop_top_inv:
  assumes "inv_at LoopTop e"
  shows "\<exists>e'. loop_top e = Some e' \<and> engine_inv e'"
proof (cases "eng_running e")
  case True
  have "inv_at LoopTop (e\<lparr>eng_wakeup := False\<rparr>)" using assms by simp
  from handle_failures_inv [OF this] True show ?thesis by (simp add: loop_top_def)
next
  case False
  with assms show ?thesis by (simp add: loop_top_def engine_inv_def)
qed

lemma fail_gathered_inv:
  assumes "inv_at (FailGather m ms) e" and "all_done e"
  shows "\<exists>e'. fail_gathered m ms e = Some e' \<and> engine_inv e'"
proof -
  have ph: "eng_resident e = Some m" "eng_gpu e = [m]" "ms = []" "\<not> eng_draining e" "\<not> eng_switching e"
    using inv_atD(5) [OF assms(1)] by (auto simp: phase_inv_def)
  let ?e = "e\<lparr>eng_in_flight := []\<rparr>"
  have "inv_at (FailGather m ms) ?e"
    using inv_at_cong [OF assms(1), of ?e] assms inv_atD(5) [OF assms(1)] by (auto simp: phase_inv_def)
  from crash_unload_inv [OF this] ph show ?thesis by (simp add: fail_gathered_def)
qed

lemma fail_stopped_inv:
  assumes "inv_at (FailStop m ms) e"
  shows "\<exists>e'. fail_stopped m ms e = Some e' \<and> engine_inv e'"
proof -
  have ph: "eng_resident e = None" "eng_resident_since e = None" "eng_gpu e = [m]" "ms = []"
    "\<not> eng_draining e" "\<not> eng_switching e" "eng_in_flight e = []" "length (eng_failed e) \<le> 1"
    using inv_atD(5) [OF assms] by (auto simp: phase_inv_def)
  let ?e = "emit EV_UNLOAD m ''after crash'' None (e\<lparr>eng_gpu := removeAll m (eng_gpu e)\<rparr>)"
  have "inv_at LoopTop ?e"
    using inv_at_cong [OF assms, of ?e LoopTop] ph by (simp add: emit_def phase_inv_def all_done_def)
  moreover have "failed_fit ?e" using ph by (simp add: emit_def)
  ultimately show ?thesis using handle_failed_inv [of ?e ms] ph(4) by (simp add: fail_stopped_def)
qed

subsection \<open>Arrivals, departures, the lifecycle\<close>

lemma engine_inv_frame:
  "engine_inv (e\<lparr>eng_now := n\<rparr>) = engine_inv e"
  by (simp add: engine_inv_def)

lemma client_cancel_inv: "inv_at pc e \<Longrightarrow> inv_at pc (client_cancel r e)"
proof (cases "eng_store e r")
  case None
  moreover assume "inv_at pc e"
  ultimately show ?thesis by (simp add: client_cancel_def map_req_def upd_req_def)
next
  case (Some q)
  assume inv: "inv_at pc e"
  have "req_ok (qr_cancel q)"
    using state_invD(1) [OF inv_atD(4) [OF inv] Some] by (auto simp: qr_cancel_def req_ok_def split: request_state.splits)
  from inv_same_state [OF inv_atD(2-4) [OF inv] Some _ _ this] Some inv show ?thesis
    by (simp add: client_cancel_def map_req_def upd_req_Some inv_at_def qr_cancel_def)
qed

text \<open>\<open>submit\<close> accepts a request for any configured model, and puts it last in that model's queue.\<close>

lemma submit_known:
  assumes inv: "inv_at pc e" and "gr_model req \<in> set (names_of e)"
    and rs: "map_of (eng_queues e) (gr_model req) = Some rs"
  shows "\<exists>evs. submit req r e = Inr (e\<lparr>eng_store := (eng_store e)(r \<mapsto> new_queued_request req (eng_now e)),
      eng_queues := AList.update (gr_model req) (rs @ [r]) (eng_queues e), eng_events := evs,
      eng_wakeup := True\<rparr>)"
  using rs by (intro exI [of _ "eng_events (emit EV_ENQUEUE (gr_model req) r None e)"])
    (simp add: submit_def mq_contains_def mq_enqueue_def new_queued_request_def qr_model_def Let_def emit_def)

lemma submit_inv:
  assumes inv: "inv_at pc e" and fresh: "eng_store e r = None" and sub: "submit req r e = Inr e'"
  shows "inv_at pc e'"
proof -
  let ?m = "gr_model req" and ?q = "new_queued_request req (eng_now e)"
  let ?st = "(eng_store e)(r \<mapsto> ?q)"
  obtain rs where rs: "map_of (eng_queues e) ?m = Some rs"
    using sub by (auto simp: submit_def mq_contains_def split: if_splits)
  let ?qs = "AList.update ?m (rs @ [r]) (eng_queues e)"
  have m: "?m \<in> set (names_of e)"
    using rs queue_keys [OF inv] by (metis list.set_map map_of_eq_None_iff option.distinct(1))
  obtain evs where e': "e' = e\<lparr>eng_store := ?st, eng_queues := ?qs, eng_events := evs, eng_wakeup := True\<rparr>"
    using submit_known [OF inv m rs, of r] sub by auto
  have dk: "distinct (map fst (eng_queues e))"
    using names_distinct [OF inv] queue_keys [OF inv] by simp
  have keys: "map fst ?qs = map fst (eng_queues e)"
    using rs by (intro update_keys_mem) (force dest: map_of_SomeD)
  have "mset (queued_ids (eng_queues e)) + mset (rs @ [r]) = mset (queued_ids ?qs) + mset rs"
    by (rule mset_queued_ids_change [OF dk keys rs]) (simp_all add: map_of_update)
  then have ids: "mset (queued_ids ?qs) = add_mset r (mset (queued_ids (eng_queues e)))" by simp
  have old: "\<exists>q. eng_store e x = Some q" if "x \<in> set (queued_ids (eng_queues e))" for x
    using that inv_atD(2) [OF inv] by (fastforce simp: queue_inv_def queued_ids_mem)
  then have new: "r \<notin> set (queued_ids (eng_queues e))" using fresh by force
  have ids_set: "set (queued_ids ?qs) = insert r (set (queued_ids (eng_queues e)))"
    using ids by (metis set_mset_add_mset_insert set_mset_mset)
  have qi: "queue_inv (names_of e) ?st ?qs"
    unfolding queue_inv_def
  proof (intro conjI ballI)
    show "map fst ?qs = names_of e" using keys queue_keys [OF inv] by simp
    have "distinct (r # queued_ids (eng_queues e))"
      using new inv_atD(2) [OF inv] by (simp add: queue_inv_def)
    then show "distinct (queued_ids ?qs)"
      using ids mset_eq_imp_distinct_iff [of "queued_ids ?qs" "r # queued_ids (eng_queues e)"] by simp
    fix p assume p: "p \<in> set ?qs"
    obtain k xs where kx: "p = (k, xs)" by (cases p)
    have "map_of ?qs k = Some xs"
      by (rule map_of_is_SomeI) (use p kx keys dk in simp_all)
    then have "if k = ?m then xs = rs @ [r] else map_of (eng_queues e) k = Some xs"
      by (simp add: map_of_update split: if_splits)
    note mem = this
    have "\<exists>q. ?st x = Some q \<and> qr_model q = k" if "x \<in> set xs" for x
    proof (cases "x = r")
      case True
      have "k = ?m"
      proof (rule ccontr)
        assume "k \<noteq> ?m"
        with mem have "map_of (eng_queues e) k = Some xs" by simp
        from queue_invE [OF inv_atD(2) [OF inv] this that] True fresh show False by auto
      qed
      with True show ?thesis by (simp add: new_queued_request_def qr_model_def)
    next
      case False
      with mem rs that have "\<exists>ys. map_of (eng_queues e) k = Some ys \<and> x \<in> set ys"
        by (cases "k = ?m") auto
      then obtain ys where "map_of (eng_queues e) k = Some ys" "x \<in> set ys" by blast
      from queue_invE [OF inv_atD(2) [OF inv] this] False show ?thesis by auto
    qed
    then show "case p of (m, rs) \<Rightarrow> \<forall>x \<in> set rs. \<exists>q. ?st x = Some q \<and> qr_model q = m"
      using kx by simp
  qed
  have no_task: "tk_rid t \<noteq> r" if "t \<in> set (eng_in_flight e)" for t
    using inv_atD(3) [OF inv] that fresh unfolding task_inv_def by force
  have ti: "task_inv (sc_max_concurrent_requests (sched e)) (eng_resident e) ?st (eng_in_flight e)"
    using inv_atD(3) [OF inv] no_task unfolding task_inv_def by simp
  have si: "state_inv ?st ?qs (eng_in_flight e)"
    using inv_atD(4) [OF inv] no_task ids_set unfolding state_inv_def
    by (auto simp: new_queued_request_def req_ok_def)
  show ?thesis using inv qi ti si unfolding e' by (simp add: inv_at_def)
qed

subsection \<open>Shutdown\<close>

definition shut_store :: "rid list \<Rightarrow> store \<Rightarrow> store" where
  "shut_store ids st x = (if x \<in> set ids then map_option shut_request (st x) else st x)"

lemma fold_shut:
  "distinct rs \<Longrightarrow> fold (\<lambda>r. upd_req r shut_request) rs st = shut_store rs st"
proof (induction rs arbitrary: st)
  case Nil
  show ?case by (simp add: shut_store_def fun_eq_iff)
next
  case (Cons r rs)
  then show ?case by (auto simp: shut_store_def fun_eq_iff upd_req_def split: option.splits)
qed

lemma drain_queues_spec:
  "distinct ns \<Longrightarrow> set ns \<subseteq> set (map fst qs) \<Longrightarrow> distinct (map fst qs) \<Longrightarrow>
   distinct (concat (map (\<lambda>n. the (map_of qs n)) ns)) \<Longrightarrow>
   \<exists>qs'. drain_queues ns (st, qs) = Some (shut_store (concat (map (\<lambda>n. the (map_of qs n)) ns)) st, qs')
     \<and> map fst qs' = map fst qs
     \<and> (\<forall>k. map_of qs' k = (if k \<in> set ns then Some [] else map_of qs k))"
proof (induction ns arbitrary: st qs)
  case Nil
  show ?case by (simp add: shut_store_def fun_eq_iff)
next
  case (Cons n ns)
  then have "n \<in> fst ` set qs" by auto
  then obtain rs where rs: "map_of qs n = Some rs" by (metis map_of_eq_None_iff option.exhaust)
  let ?qs = "AList.update n [] qs"
  have keys: "map fst ?qs = map fst qs" using \<open>n \<in> fst ` set qs\<close> by (rule update_keys_mem)
  have same: "map (\<lambda>k. the (map_of ?qs k)) ns = map (\<lambda>k. the (map_of qs k)) ns"
    using Cons.prems(1) by auto
  have "set ns \<subseteq> set (map fst ?qs)" "distinct (map fst ?qs)" "distinct ns"
    "distinct (concat (map (\<lambda>k. the (map_of ?qs k)) ns))"
    using Cons.prems unfolding keys same by simp_all
  from Cons.IH [OF this(3,1,2,4), of "shut_store rs st"] obtain qs' where
    qs': "drain_queues ns (shut_store rs st, ?qs)
        = Some (shut_store (concat (map (\<lambda>k. the (map_of ?qs k)) ns)) (shut_store rs st), qs')"
      "map fst qs' = map fst ?qs" "\<forall>k. map_of qs' k = (if k \<in> set ns then Some [] else map_of ?qs k)"
    by blast
  have "set rs \<inter> set (concat (map (\<lambda>k. the (map_of qs k)) ns)) = {}" and "distinct rs"
    using Cons.prems(4) rs by simp_all
  then have "shut_store (concat (map (\<lambda>k. the (map_of qs k)) ns)) (shut_store rs st)
      = shut_store (concat (map (\<lambda>k. the (map_of qs k)) (n # ns))) st"
    using rs by (auto simp: shut_store_def fun_eq_iff)
  moreover have "drain_queues (n # ns) (st, qs) = drain_queues ns (shut_store rs st, ?qs)"
    using rs fold_shut [OF \<open>distinct rs\<close>] by (simp add: mq_drain_def)
  ultimately show ?case using qs' keys unfolding same by auto
qed

lemma queued_ids_keys:
  assumes "distinct (map fst qs)"
  shows "concat (map (\<lambda>n. the (map_of qs n)) (map fst qs)) = queued_ids qs"
proof -
  have "the (map_of qs (fst p)) = snd p" if "p \<in> set qs" for p
    using map_of_is_SomeI [OF assms, of "fst p" "snd p"] that by simp
  then have "map (\<lambda>n. the (map_of qs n)) (map fst qs) = map snd qs" by simp
  then show ?thesis unfolding queued_ids_def by (rule arg_cong)
qed

lemma stop_gathered_eq:
  assumes inv: "inv_at pc e"
  shows "\<exists>qs'. stop_gathered e = Some (let e = e\<lparr>eng_in_flight := [],
        eng_store := shut_store (queued_ids (eng_queues e)) (eng_store e), eng_queues := qs'\<rparr> in
      (case eng_resident e of None \<Rightarrow> e\<lparr>eng_pc := Stopped\<rparr> | Some m \<Rightarrow> e\<lparr>eng_pc := StopWait m\<rparr>))
    \<and> map fst qs' = map fst (eng_queues e) \<and> queued_ids qs' = []"
proof -
  have dk: "distinct (map fst (eng_queues e))"
    using names_distinct [OF inv] queue_keys [OF inv] by simp
  have "distinct (queued_ids (eng_queues e))" using inv_atD(2) [OF inv] by (simp add: queue_inv_def)
  then obtain qs' where qs': "drain_queues (map fst (eng_queues e)) (qst e)
      = Some (shut_store (queued_ids (eng_queues e)) (eng_store e), qs')"
    "map fst qs' = map fst (eng_queues e)"
    "\<forall>k. map_of qs' k = (if k \<in> set (map fst (eng_queues e)) then Some [] else map_of (eng_queues e) k)"
    using drain_queues_spec [OF dk subset_refl dk] unfolding queued_ids_keys [OF dk] by blast
  have "rs = []" if "(k, rs) \<in> set qs'" for k rs
  proof -
    have "distinct (map fst qs')" using dk qs'(2) by simp
    with that have "map_of qs' k = Some rs" by simp
    moreover have "k \<in> set (map fst (eng_queues e))" using that qs'(2) by (metis image_eqI fst_conv list.set_map)
    ultimately show ?thesis using qs'(3) by simp
  qed
  then have "queued_ids qs' = []" by (auto simp: queued_ids_def)
  with qs' show ?thesis
    by (intro exI [of _ qs'])
      (auto simp: stop_gathered_def mq_model_names_def has_backend_def Let_def dest: resident_known [OF inv]
        split: option.splits)
qed

lemma shut_invs:
  assumes "queue_inv names st qs" "state_inv st qs []" and "map fst qs' = map fst qs" "queued_ids qs' = []"
  shows "queue_inv names (shut_store (queued_ids qs) st) qs'" "state_inv (shut_store (queued_ids qs) st) qs' []"
proof -
  have "rs = []" if "(m, rs) \<in> set qs'" for m rs
    using assms(4) that by (auto simp: queued_ids_def)
  then show "queue_inv names (shut_store (queued_ids qs) st) qs'"
    using assms(1,3,4) unfolding queue_inv_def by fastforce
  show "state_inv (shut_store (queued_ids qs) st) qs' []"
    unfolding state_inv_def
  proof (intro allI impI)
    fix r q assume "shut_store (queued_ids qs) st r = Some q"
    then obtain q0 where q0: "st r = Some q0"
      and q: "q = (if r \<in> set (queued_ids qs) then shut_request q0 else q0)"
      by (auto simp: shut_store_def split: if_splits)
    note old = state_invD [OF assms(2) q0]
    show "req_ok q \<and> (qr_state q = QUEUED) = (r \<in> set (queued_ids qs'))
        \<and> (qr_state q = RUNNING) = (\<exists>t \<in> set []. tk_rid t = r \<and> \<not> tk_done t)"
      using old q assms(4) by (cases "r \<in> set (queued_ids qs)") (auto simp: shut_request_def put_event_def req_ok_def)
  qed
qed

lemma stop_gathered_inv:
  assumes inv: "inv_at StopGather e" and "all_done e"
  shows "\<exists>e'. stop_gathered e = Some e' \<and> engine_inv e'"
proof -
  obtain qs' where eq: "stop_gathered e = Some (let e = e\<lparr>eng_in_flight := [],
        eng_store := shut_store (queued_ids (eng_queues e)) (eng_store e), eng_queues := qs'\<rparr> in
      (case eng_resident e of None \<Rightarrow> e\<lparr>eng_pc := Stopped\<rparr> | Some m \<Rightarrow> e\<lparr>eng_pc := StopWait m\<rparr>))"
    and qs': "map fst qs' = map fst (eng_queues e)" "queued_ids qs' = []"
    using stop_gathered_eq [OF inv] by blast
  note new = shut_invs [OF inv_atD(2) [OF inv] clear_tasks(2) [OF assms] qs']
  note ph = inv_atD(5) [OF inv, unfolded phase_inv_def]
  have cap: "0 \<le> sc_max_concurrent_requests (sched e)"
    using inv_atD(3) [OF inv] by (simp add: task_inv_def)
  show ?thesis
  proof (cases "eng_resident e")
    case None
    with new ph inv_atD(1) [OF inv] cap show ?thesis
      unfolding eq by (simp add: engine_inv_def inv_at_def Let_def task_inv_def phase_inv_def)
  next
    case (Some m)
    with new ph inv_atD(1) [OF inv] cap show ?thesis
      unfolding eq by (simp add: engine_inv_def inv_at_def Let_def task_inv_def phase_inv_def)
  qed
qed

lemma stop_finish_inv:
  assumes inv: "inv_at (StopWait m) e"
  shows "engine_inv (stop_finish m e)"
proof -
  have "inv_at Stopped (stop_finish m e)"
    using inv_at_cong [OF inv, of "stop_finish m e" Stopped] inv_atD(5) [OF inv]
    by (auto simp: stop_finish_def phase_inv_def all_done_def)
  then show ?thesis by (simp add: engine_inv_def stop_finish_def)
qed

lemma task_inv_None: "task_inv cap None st fl \<Longrightarrow> fl = []"
  by (cases fl) (auto simp: task_inv_def)

lemma stop_begin_inv:
  assumes inv: "inv_at (eng_pc e) e" and "\<not> stopping (eng_pc e)"
  shows "engine_inv (stop_begin e)"
proof -
  let ?e = "e\<lparr>eng_running := False, eng_wakeup := True\<rparr>"
  have pc: "inv_at (eng_pc e) ?e" using inv by simp
  note ph = inv_atD(5) [OF pc]
  have "inv_at StopGather (cancel_loop ?e)"
  proof (cases "eng_pc e")
    case (DrainWait t s)
    have "eng_in_flight ?e = []" if "eng_resident ?e = None"
      using inv_atD(3) [OF pc] that by (simp add: task_inv_None)
    then have "inv_at StopGather (?e\<lparr>eng_draining := False\<rparr>)"
      using pc ph DrainWait unfolding inv_at_def phase_inv_def by (auto split: option.splits)
    with DrainWait show ?thesis by (simp add: cancel_loop_def)
  qed (use pc ph assms(2) task_inv_None in \<open>auto simp: cancel_loop_def inv_at_def phase_inv_def split: option.splits\<close>)
  then show ?thesis by (simp add: engine_inv_def stop_begin_def cancel_tasks_eq)
      (simp add: cancel_tasks_eq [symmetric])
qed

lemma start_engine_inv:
  assumes "inv_at (eng_pc e) e" and "eng_pc e = NotStarted"
  shows "engine_inv (start_engine e)"
proof (cases "eng_running e")
  case True
  with assms show ?thesis by (simp add: start_engine_def engine_inv_def)
next
  case False
  have "inv_at LoopTop e" using assms by (auto simp: inv_at_def phase_inv_def)
  with False show ?thesis by (simp add: start_engine_def engine_inv_def)
qed

lemma mq_init_distinct: "distinct ns \<Longrightarrow> mq_init ns = map (\<lambda>n. (n, [])) ns"
proof -
  have "distinct (map fst d @ ns) \<Longrightarrow>
      foldl (\<lambda>d n. AList.update n [] d) d ns = d @ map (\<lambda>n. (n, [])) ns" for d
  proof (induction ns arbitrary: d)
    case Nil
    show ?case by simp
  next
    case (Cons n ns)
    have "AList.update n [] d = d @ [(n, [])]"
      using Cons.prems by (induction d) auto
    with Cons show ?case by simp
  qed
  from this [of "[]"] show "distinct ns \<Longrightarrow> mq_init ns = map (\<lambda>n. (n, [])) ns"
    by (simp add: mq_init_def)
qed

lemma init_engine_inv:
  assumes "valid_app_config c"
  shows "engine_inv (init_engine c t)"
proof -
  have "distinct (model_names c)" and "0 \<le> sc_max_concurrent_requests (ac_scheduler c)"
    using assms by (auto simp: valid_app_config_def valid_scheduler_config_def)
  moreover have "distinct (concat (map (\<lambda>x. [] :: rid list) ns))" for ns :: "string list"
    by (induction ns) auto
  ultimately show ?thesis
    using assms by (auto simp: engine_inv_def init_engine_def inv_at_def queue_inv_def task_inv_def state_inv_def
      phase_inv_def mq_init_distinct queued_ids_def comp_def)
qed

lemma op_pc [simp]:
  "eng_pc (emit k m d t e) = eng_pc e" "eng_pc (map_req r f e) = eng_pc e"
  "eng_pc (map_task r g e) = eng_pc e" "eng_pc (observe_duration r e) = eng_pc e"
  by (simp_all add: emit_def map_req_def map_task_def observe_duration_def Let_def split: option.splits)

lemma serve_finally_pc [simp]: "eng_pc (serve_finally r e) = eng_pc e"
  by (simp add: serve_finally_def)

lemma serve_end_pc [simp]: "eng_pc (serve_end r ending e) = eng_pc e"
  by (simp add: serve_end_def split: option.splits)

lemma serve_pc: "eng_pc (serve r out e) = eng_pc e"
  by (cases out) (simp_all add: serve_def split: option.splits)

lemma submit_pc: "submit req r e = Inr e' \<Longrightarrow> eng_pc e' = eng_pc e"
  by (auto simp: submit_def Let_def emit_def split: option.splits if_splits)

text \<open>Every step keeps the invariant.\<close>

lemma engine_step_inv:
  assumes "engine_step e e'" and "engine_inv e"
  shows "engine_inv e'"
  using assms
proof (induction rule: engine_step.induct)
  case (arrive e r req e')
  then show ?case using submit_inv submit_pc by (metis engine_inv_def)
next
  case (disconnect e r)
  then have "inv_at (eng_pc e) (client_cancel r e)" by (simp add: engine_inv_def client_cancel_inv)
  then show ?case by (simp add: engine_inv_def client_cancel_def map_req_def)
next
  case (task r out e)
  then show ?case using serve_inv by (simp add: engine_inv_def serve_pc)
next
  case (stop e)
  then show ?case by (simp add: engine_inv_def [of e] stop_begin_inv)
next
  case (start e)
  then show ?case by (simp add: engine_inv_def [of e] start_engine_inv)
next
  case (stop_gather e e')
  then show ?case using stop_gathered_inv [of e] by (simp add: engine_inv_def [of e])
next
  case (top e e')
  then show ?case using loop_top_inv [of e] by (simp add: engine_inv_def [of e])
next
  case (failed_gather e m ms e')
  then show ?case using fail_gathered_inv [of m ms e] by (simp add: engine_inv_def [of e])
next
  case (failed_stop e m ms e')
  then show ?case using fail_stopped_inv [of m ms e] by (simp add: engine_inv_def [of e])
next
  case (drained e t s e')
  then show ?case using drain_done_inv [of t s e] by (simp add: engine_inv_def [of e])
next
  case (unloaded e t p e')
  then show ?case using unload_done_inv [of t p e] by (simp add: engine_inv_def [of e])
qed (simp_all add: engine_inv_def load_ok_inv [unfolded engine_inv_def] load_failed_inv [unfolded engine_inv_def]
    load_fail_stopped_inv [unfolded engine_inv_def] stop_finish_inv [unfolded engine_inv_def])

lemma reachable_inv: "reachable c t0 e \<Longrightarrow> engine_inv e"
  by (induction rule: reachable.induct) (auto intro: init_engine_inv engine_step_inv)

end
