(* ===== verification/Sir_Engine_Run.thy ===== *)
theory Sir_Engine_Run
  imports Sir_Engine_Steps
begin

text \<open>
  The step relation as a function: \<open>move\<close> names what happens next, \<open>do_move\<close> carries it out,
  and \<open>run\<close> carries out a list of moves. \<open>do_move\<close> and \<open>engine_step\<close> agree, so that a run
  computed by evaluation is a run of the relation, and reaches only reachable states.
\<close>

datatype move =
  Pass seconds
| Arrive generation_request rid
| Disconnect rid
| Move_task rid serve_outcome
| Start
| Resume
| Load_error string
| Stop

definition resume :: "engine \<Rightarrow> engine option" where
  "resume e =
     (case eng_pc e of
        LoopTop \<Rightarrow> loop_top e
      | TickWait d \<Rightarrow> if d \<le> eng_now e \<or> eng_wakeup e then Some (e\<lparr>eng_pc := LoopTop\<rparr>) else None
      | FailGather m ms \<Rightarrow> if all_done e then fail_gathered m ms e else None
      | FailStop m ms \<Rightarrow> fail_stopped m ms e
      | DrainWait t s \<Rightarrow> if all_done e then drain_done t s e else None
      | UnloadWait t p \<Rightarrow> unload_done t p e
      | LoadWait t s \<Rightarrow> Some (load_ok t s e)
      | LoadFailStop t \<Rightarrow> Some (load_fail_stopped t e)
      | StopGather \<Rightarrow> if all_done e then stop_gathered e else None
      | StopWait m \<Rightarrow> Some (stop_finish m e)
      | _ \<Rightarrow> None)"

fun do_move :: "move \<Rightarrow> engine \<Rightarrow> engine option" where
  "do_move (Pass d) e = (if 0 \<le> d then Some (e\<lparr>eng_now := eng_now e + d\<rparr>) else None)"
| "do_move (Arrive req r) e =
     (if eng_store e r \<noteq> None then None else case submit req r e of Inl _ \<Rightarrow> None | Inr e' \<Rightarrow> Some e')"
| "do_move (Disconnect r) e = Some (client_cancel r e)"
| "do_move (Move_task r out) e = (if serve_enabled r out e then Some (serve r out e) else None)"
| "do_move Start e = (if eng_pc e = NotStarted then Some (start_engine e) else None)"
| "do_move Resume e = resume e"
| "do_move (Load_error msg) e =
     (case eng_pc e of LoadWait t s \<Rightarrow> Some (load_failed t s msg e) | _ \<Rightarrow> None)"
| "do_move Stop e = (if stopping (eng_pc e) then None else Some (stop_begin e))"

fun run :: "move list \<Rightarrow> engine \<Rightarrow> engine option" where
  "run [] e = Some e"
| "run (m # ms) e = (case do_move m e of None \<Rightarrow> None | Some e' \<Rightarrow> run ms e')"

lemma resume_sound: "resume e = Some e' \<Longrightarrow> engine_step e e'"
  by (cases "eng_pc e") (auto simp: resume_def intro: engine_step.intros split: if_splits)

lemma do_move_sound: "do_move m e = Some e' \<Longrightarrow> engine_step e e'"
  by (cases m) (auto intro: engine_step.intros resume_sound split: if_splits sum.splits loop_pc.splits)

lemma run_sound: "run ms e = Some e' \<Longrightarrow> engine_step\<^sup>*\<^sup>* e e'"
  by (induction ms arbitrary: e) (auto dest!: do_move_sound intro: converse_rtranclp_into_rtranclp split: option.splits)

lemma reachable_steps: "engine_step\<^sup>*\<^sup>* e e' \<Longrightarrow> reachable c t0 e \<Longrightarrow> reachable c t0 e'"
  by (induction rule: rtranclp_induct) (auto intro: reachable.step)

lemma run_append: "run (xs @ ys) e = (case run xs e of None \<Rightarrow> None | Some e' \<Rightarrow> run ys e')"
  by (induction xs arbitrary: e) (auto split: option.splits)

lemma run_reachable:
  assumes "valid_app_config c" and "run ms (init_engine c t0) = Some e"
  shows "reachable c t0 e"
  using reachable_steps [OF run_sound [OF assms(2)] reachable.init [OF assms(1)]] .

end
