(* ===== verification/Sir_Engine_Props.thy ===== *)
theory Sir_Engine_Props
  imports Sir_Engine_Run
begin

text \<open>
  What the engine promises, on every state it can reach: one backend on the GPU, no backend
  stopped or loaded under a running request, requests served in order within the cap and
  answered with exactly one terminator, nothing cancelled without a reason, and a control loop
  that always goes on. The properties rest on \<open>reachable_inv\<close> and on what a pass of the loop
  leaves alone (\<open>keeps\<close>).
\<close>

subsection \<open>What a pass of the loop leaves alone\<close>

text \<open>The requests there are, each with what was put on its channel.\<close>

definition channels :: "engine \<Rightarrow> rid \<rightharpoonup> stream_event list" where
  "channels e = map_option qr_events \<circ> eng_store e"

lemma channels_same: "eng_store e' = eng_store e \<Longrightarrow> channels e' = channels e"
  by (simp add: channels_def)

lemma channels_taken: "eng_store e' = taken_store t ts ds (eng_store e) \<Longrightarrow> channels e' = channels e"
  by (simp add: channels_def fun_eq_iff taken_store_def run_req_def drop_req_def option.map_comp comp_def)

definition keeps_cancels :: "engine \<Rightarrow> engine \<Rightarrow> bool" where
  "keeps_cancels e e' \<longleftrightarrow> (\<forall>t \<in> set (eng_in_flight e'). tk_cancelling t \<longrightarrow>
     (\<exists>u \<in> set (eng_in_flight e). tk_rid u = tk_rid t \<and> tk_cancelling u)
     \<or> is_cancelled (eng_store e') (tk_rid t))"

definition keeps :: "engine \<Rightarrow> engine \<Rightarrow> bool" where
  "keeps e e' \<longleftrightarrow> eng_config e' = eng_config e \<and> eng_now e' = eng_now e
     \<and> is_cancelled (eng_store e') = is_cancelled (eng_store e)
     \<and> channels e' = channels e
     \<and> (\<forall>r q. eng_store e r = Some q \<longrightarrow> qr_state q \<noteq> QUEUED \<longrightarrow> eng_store e' r = Some q)"

lemma keeps_refl [simp, intro]: "keeps e e" "keeps_cancels e e"
  by (auto simp: keeps_def keeps_cancels_def)

lemma keeps_trans: "keeps e1 e2 \<Longrightarrow> keeps e2 e3 \<Longrightarrow> keeps e1 e3"
  by (auto simp: keeps_def)

lemma keeps_cancels_trans:
  assumes "keeps_cancels e1 e2" and "keeps_cancels e2 e3" and "keeps e2 e3"
  shows "keeps_cancels e1 e3"
  unfolding keeps_cancels_def
proof (intro ballI impI)
  fix t assume t: "t \<in> set (eng_in_flight e3)" "tk_cancelling t"
  have same: "is_cancelled (eng_store e3) = is_cancelled (eng_store e2)"
    using assms(3) by (simp add: keeps_def)
  from assms(2) t consider "is_cancelled (eng_store e3) (tk_rid t)"
    | u where "u \<in> set (eng_in_flight e2)" "tk_rid u = tk_rid t" "tk_cancelling u"
    unfolding keeps_cancels_def by blast
  then show "(\<exists>u \<in> set (eng_in_flight e1). tk_rid u = tk_rid t \<and> tk_cancelling u)
      \<or> is_cancelled (eng_store e3) (tk_rid t)"
  proof cases
    case 2
    with assms(1) show ?thesis unfolding keeps_cancels_def same by metis
  qed simp
qed

text \<open>Both hold when the store is untouched and no task was asked to stop.\<close>

lemma keeps_frameI:
  assumes "eng_config e' = eng_config e" "eng_now e' = eng_now e" "eng_store e' = eng_store e"
    and "set (eng_in_flight e') \<subseteq> set (eng_in_flight e)"
  shows "keeps e e' \<and> keeps_cancels e e'"
  using assms channels_same [OF assms(3)] by (auto simp: keeps_def keeps_cancels_def)

lemma keeps_housekeep:
  assumes inv: "inv_at pc e"
  shows "keeps e (housekeep e) \<and> keeps_cancels e (housekeep e)"
proof -
  let ?st = "eng_store e" and ?qs = "eng_queues e"
  let ?ds = "concat (map (\<lambda>(n, rs). filter (is_cancelled ?st) rs) ?qs)"
  let ?p = "purge_cancelled e"
  have p: "eng_config ?p = eng_config e" "eng_now ?p = eng_now e" "eng_in_flight ?p = eng_in_flight e"
    "eng_store ?p = taken_store 0 [] ?ds ?st"
    by (simp_all add: purge_cancelled_def mq_purge_spec [of _ _ 0])
  have "set ?ds \<subseteq> set (queued_ids ?qs)" by (fastforce simp: queued_ids_mem)
  then have out: "r \<notin> set ?ds" if "?st r = Some q" "qr_state q \<noteq> QUEUED" for r q
    using state_invD(2) [OF inv_atD(4) [OF inv] that(1)] that(2) by blast
  have gen: "keeps e ?p" if "\<And>r q. ?st r = Some q \<Longrightarrow> qr_state q \<noteq> QUEUED \<Longrightarrow> r \<notin> set ds"
    "eng_store ?p = taken_store 0 [] ds ?st" for ds
    using p(1,2) that channels_taken [OF that(2)] by (auto simp: keeps_def taken_store_def)
  have "keeps e ?p" by (rule gen [OF out p(4)])
  moreover have "keeps_cancels e ?p" using p(3) unfolding keeps_cancels_def by metis
  ultimately have 1: "keeps e ?p \<and> keeps_cancels e ?p" ..
  have 2: "keeps ?p (cancel_disconnected ?p) \<and> keeps_cancels ?p (cancel_disconnected ?p)"
    by (auto simp: cancel_disconnected_def cancel_tasks_def keeps_def keeps_cancels_def channels_def)
  have 3: "keeps (cancel_disconnected ?p) (housekeep e) \<and> keeps_cancels (cancel_disconnected ?p) (housekeep e)"
    by (rule keeps_frameI) (auto simp: housekeep_def reap_finished_def)
  from 1 2 3 show ?thesis by (meson keeps_trans keeps_cancels_trans)
qed

lemma keeps_dispatch:
  assumes inv: "inv_at pc e" and d: "dispatch e = Some e'"
  shows "keeps e e' \<and> keeps_cancels e e'"
proof (cases "eng_resident e")
  case None
  with d show ?thesis by (simp add: dispatch_def)
next
  case (Some m)
  obtain rs where rs: "map_of (eng_queues e) m = Some rs"
    using known_model [OF inv resident_known [OF inv Some]] by blast
  let ?free = "nat (sc_max_concurrent_requests (sched e) - int (length (eng_in_flight e)))"
  let ?ts = "take ?free (live (eng_store e) rs)"
  obtain ds rs' qs' evs where eq: "dispatch e = Some (e\<lparr>eng_store := taken_store (eng_now e) ?ts ds (eng_store e),
        eng_queues := qs', eng_events := evs, eng_in_flight := eng_in_flight e @ map new_task ?ts\<rparr>)"
    and ms: "mset rs = mset ?ts + mset ds + mset rs'"
    using dispatch_spec [OF inv Some rs] by blast
  have "set ?ts \<union> set ds \<subseteq> set rs"
    using ms by (metis set_mset_mset set_mset_union Un_upper1)
  then have "r \<notin> set ?ts \<union> set ds" if "eng_store e r = Some q" "qr_state q \<noteq> QUEUED" for r q
    using queue_invE [OF inv_atD(2) [OF inv] rs, of r] that
      state_invD(2) [OF inv_atD(4) [OF inv] that(1)] by blast
  then have "keeps e e'"
    using d eq channels_taken [of e' _ ?ts ds e] by (auto simp: keeps_def taken_store_def)
  moreover have "keeps_cancels e e'"
    using d eq by (auto simp: keeps_cancels_def)
  ultimately show ?thesis ..
qed

lemma keeps_after_drain:
  assumes "after_drain t e = Some e'"
  shows "keeps e e' \<and> keeps_cancels e e'"
  using assms by (intro keeps_frameI)
    (auto simp: after_drain_def load_begin_def emit_def Let_def split: option.splits if_splits)

lemma keeps_switch_begin:
  assumes "switch_begin t e = Some e'"
  shows "keeps e e' \<and> keeps_cancels e e'"
proof (cases "eng_in_flight e = []")
  case True
  with assms keeps_after_drain show ?thesis by (simp add: switch_begin_def)
next
  case False
  then have "e' = (cancel_disconnected
             (emit EV_DRAIN_START (resident_or_dash e)
                (show_nat (length (eng_in_flight e)) @ '' in flight'') None
                (e\<lparr>eng_draining := True\<rparr>)))
             \<lparr>eng_pc := DrainWait t (eng_now e)\<rparr>"
    using assms by (simp add: switch_begin_def)
  then have "eng_config e' = eng_config e" "eng_now e' = eng_now e" "eng_store e' = eng_store e"
    "eng_in_flight e' = map (ask_cancel (is_cancelled (eng_store e))) (eng_in_flight e)"
    by (simp_all add: cancel_disconnected_def cancel_tasks_eq emit_def)
  then show ?thesis by (auto simp: keeps_def keeps_cancels_def ask_cancel_def channels_def)
qed

text \<open>
  The pass as a whole, with the decision it takes: the state in which it decides, and what it
  does with the decision.
\<close>

lemma loop_body_cases:
  assumes inv: "inv_at LoopTop e" and fit: "failed_fit e" and body: "loop_body e = Some e'"
  obtains i snap d r where "track_idleness (housekeep e) = Some ((housekeep e)\<lparr>eng_idle_since := i\<rparr>)"
    "snapshot ((housekeep e)\<lparr>eng_idle_since := i\<rparr>) = Some snap"
    "d = decide snap (eng_now e) (sched e)" "r = record_decision d ((housekeep e)\<lparr>eng_idle_since := i\<rparr>)"
    "inv_at LoopTop r"
    "(\<exists>t. dc_kind d = SWITCH \<and> dc_target d = Some t \<and> switch_begin t r = Some e')
     \<or> (dc_kind d \<in> {SERVE, HOLD} \<and> (\<exists>f. dispatch r = Some f
          \<and> e' = f\<lparr>eng_pc := TickWait (eng_now f + sc_tick_interval_seconds (sched f))\<rparr>))
     \<or> (dc_kind d = IDLE \<and> e' = r\<lparr>eng_pc := TickWait (eng_now e + sc_tick_interval_seconds (sched e))\<rparr>)"
proof -
  have h: "inv_at LoopTop (housekeep e)" by (rule housekeep_inv [OF inv])
  obtain i where i: "track_idleness (housekeep e) = Some ((housekeep e)\<lparr>eng_idle_since := i\<rparr>)"
    using track_idleness_inv [OF h] by blast
  let ?e = "(housekeep e)\<lparr>eng_idle_since := i\<rparr>"
  have e: "inv_at LoopTop ?e" using h by simp
  obtain snap where snap: "snapshot ?e = Some snap" "snapshot_ok snap"
    "map ms_name (ss_models snap) = names_of ?e" using snapshot_Some [OF e] by blast
  obtain d where d: "d = decide snap (eng_now e) (sched e)" by blast
  obtain r where r: "r = record_decision d ?e" by blast
  have ri: "inv_at LoopTop r" using e r by simp
  have rn: "eng_now r = eng_now e" "sched r = sched e" using r by (simp_all add: record_decision_def)
  let ?sw = "dc_kind d = SWITCH \<and> dc_target d \<notin> {None, Some []}"
  let ?go = "if dc_kind d \<in> {SERVE, HOLD} then dispatch r else Some r"
  have now: "eng_now ?e = eng_now e" "sched ?e = sched e" by simp_all
  have eq: "loop_body e = (if ?sw then switch_begin (the (dc_target d)) r
      else Option.bind ?go (\<lambda>e. Some (e\<lparr>eng_pc := TickWait (eng_now e + sc_tick_interval_seconds (sched e))\<rparr>)))"
    unfolding loop_body_def housekeep_def [symmetric] i snap(1) Let_def Option.bind.simps now d r ..
  have sw: "\<exists>t. dc_target d = Some t \<and> t \<noteq> []" if "dc_kind d = SWITCH"
  proof -
    have "\<exists>t \<in> set (ss_models snap). dc_target d = Some (ms_name t)"
      using switch_target [OF snap(2) that [unfolded d]] unfolding d by blast
    then obtain t where t: "t \<in> set (ss_models snap)" "dc_target d = Some (ms_name t)" by blast
    then have "ms_name t \<in> set (names_of ?e)" unfolding snap(3) [symmetric] by simp
    then show ?thesis using t(2) names_distinct [OF e] by auto
  qed
  have "(\<exists>t. dc_kind d = SWITCH \<and> dc_target d = Some t \<and> switch_begin t r = Some e')
     \<or> (dc_kind d \<in> {SERVE, HOLD} \<and> (\<exists>f. dispatch r = Some f
          \<and> e' = f\<lparr>eng_pc := TickWait (eng_now f + sc_tick_interval_seconds (sched f))\<rparr>))
     \<or> (dc_kind d = IDLE \<and> e' = r\<lparr>eng_pc := TickWait (eng_now e + sc_tick_interval_seconds (sched e))\<rparr>)"
    using body sw rn unfolding eq by (cases "dc_kind d") (auto simp: bind_eq_Some_conv)
  with that i snap(1) d r ri show thesis by blast
qed

lemma keeps_record: "keeps e (record_decision d e) \<and> keeps_cancels e (record_decision d e)"
  by (rule keeps_frameI) (simp_all add: record_decision_def)

lemma keeps_loop_body:
  assumes inv: "inv_at LoopTop e" and fit: "failed_fit e" and body: "loop_body e = Some e'"
  shows "keeps e e' \<and> keeps_cancels e e'"
  using inv fit body
proof (rule loop_body_cases)
  fix i snap d r
  let ?h = "(housekeep e)\<lparr>eng_idle_since := i\<rparr>"
  assume r: "r = record_decision d ?h" and ri: "inv_at LoopTop r"
    and cases: "(\<exists>t. dc_kind d = SWITCH \<and> dc_target d = Some t \<and> switch_begin t r = Some e')
     \<or> (dc_kind d \<in> {SERVE, HOLD} \<and> (\<exists>f. dispatch r = Some f
          \<and> e' = f\<lparr>eng_pc := TickWait (eng_now f + sc_tick_interval_seconds (sched f))\<rparr>))
     \<or> (dc_kind d = IDLE \<and> e' = r\<lparr>eng_pc := TickWait (eng_now e + sc_tick_interval_seconds (sched e))\<rparr>)"
  have "keeps (housekeep e) ?h \<and> keeps_cancels (housekeep e) ?h" by (rule keeps_frameI) simp_all
  moreover note keeps_housekeep [OF inv] keeps_record [of ?h d]
  ultimately have er: "keeps e r \<and> keeps_cancels e r"
    unfolding r by (meson keeps_trans keeps_cancels_trans)
  have re: "keeps r e' \<and> keeps_cancels r e'"
    using cases
  proof (elim disjE exE conjE)
    fix t assume "switch_begin t r = Some e'"
    then show ?thesis by (rule keeps_switch_begin)
  next
    fix f assume "dispatch r = Some f"
      and e': "e' = f\<lparr>eng_pc := TickWait (eng_now f + sc_tick_interval_seconds (sched f))\<rparr>"
    from keeps_dispatch [OF ri this(1)] have "keeps r f \<and> keeps_cancels r f" .
    then show ?thesis unfolding e' keeps_def keeps_cancels_def channels_def by auto
  next
    assume "e' = r\<lparr>eng_pc := TickWait (eng_now e + sc_tick_interval_seconds (sched e))\<rparr>"
    then show ?thesis by (intro keeps_frameI) simp_all
  qed
  from er re show ?thesis by (meson keeps_trans keeps_cancels_trans)
qed

abbreviation gathering :: "engine \<Rightarrow> bool" where
  "gathering e \<equiv> (\<exists>m ms. eng_pc e = FailGather m ms)"

lemma keeps_handle_failed:
  assumes inv: "inv_at LoopTop e" and fit: "failed_fit e" and "length ms \<le> 1"
    and "handle_failed ms e = Some e'"
  shows "keeps e e' \<and> (keeps_cancels e e' \<or> gathering e')"
proof (cases ms)
  case Nil
  with assms keeps_loop_body [OF inv fit] show ?thesis by simp
next
  case (Cons m ms')
  then have ms: "ms = [m]" using assms(3) by simp
  let ?e = "emit EV_CRASH m ''backend marked unavailable'' None (mark_unavailable m e)"
  have 1: "keeps e ?e \<and> keeps_cancels e ?e"
    by (rule keeps_frameI) (simp_all add: emit_def mark_unavailable_def)
  have e: "inv_at LoopTop ?e" "failed_fit ?e" using inv fit by (simp_all add: emit_def mark_unavailable_def)
  show ?thesis
  proof (cases "eng_resident ?e = Some m")
    case False
    then have "loop_body ?e = Some e'" using assms(4) ms by (simp add: Let_def)
    from keeps_loop_body [OF e this] 1 show ?thesis by (meson keeps_trans keeps_cancels_trans)
  next
    case True
    let ?c = "cancel_tasks (request_of_model ?e m) ?e"
    have 2: "keeps ?e ?c" by (simp add: keeps_def cancel_tasks_def channels_def)
    have hf: "(if eng_in_flight ?c \<noteq> [] then Some (?c\<lparr>eng_pc := FailGather m []\<rparr>) else crash_unload m [] ?c) = Some e'"
      using assms(4) ms True by (simp add: Let_def)
    show ?thesis
    proof (cases "eng_in_flight ?c = []")
      case False
      then have "e' = ?c\<lparr>eng_pc := FailGather m []\<rparr>" using hf by simp
      then show ?thesis using 1 2 by (auto simp: keeps_def channels_def)
    next
      case True
      then have "keeps ?c e' \<and> keeps_cancels ?c e'" and "keeps_cancels ?e ?c"
        using hf by (auto simp: crash_unload_def keeps_def keeps_cancels_def channels_def split: if_splits)
      with 1 2 show ?thesis by (meson keeps_trans keeps_cancels_trans)
    qed
  qed
qed

lemma keeps_loop_top:
  assumes "inv_at LoopTop e" and "loop_top e = Some e'"
  shows "keeps e e' \<and> (keeps_cancels e e' \<or> gathering e')"
proof (cases "eng_running e")
  case True
  let ?e = "e\<lparr>eng_wakeup := False, eng_failed := []\<rparr>"
  have "inv_at LoopTop ?e" and l: "length (eng_failed e) \<le> 1"
    using assms(1) by (simp_all add: inv_at_def phase_inv_def)
  moreover have "handle_failed (eng_failed e) ?e = Some e'"
    using assms(2) True by (simp add: loop_top_def handle_failures_def)
  ultimately have "keeps ?e e' \<and> (keeps_cancels ?e e' \<or> gathering e')"
    using keeps_handle_failed [of ?e "eng_failed e" e'] by simp
  then show ?thesis by (auto simp: keeps_def keeps_cancels_def channels_def)
next
  case False
  with assms show ?thesis by (auto simp: loop_top_def keeps_def keeps_cancels_def channels_def)
qed

lemma keeps_fail_stopped:
  assumes inv: "inv_at (FailStop m ms) e" and "fail_stopped m ms e = Some e'"
  shows "keeps e e' \<and> (keeps_cancels e e' \<or> gathering e')"
proof -
  have ph: "eng_resident e = None" "eng_resident_since e = None" "eng_gpu e = [m]" "ms = []"
    "\<not> eng_draining e" "\<not> eng_switching e" "eng_in_flight e = []" "length (eng_failed e) \<le> 1"
    using inv_atD(5) [OF inv] by (auto simp: phase_inv_def)
  let ?e = "emit EV_UNLOAD m ''after crash'' None (e\<lparr>eng_gpu := removeAll m (eng_gpu e)\<rparr>)"
  have "inv_at LoopTop ?e"
    using inv_at_cong [OF inv, of ?e LoopTop] ph by (simp add: emit_def phase_inv_def all_done_def)
  then have "keeps ?e e' \<and> keeps_cancels ?e e'"
    using keeps_loop_body [of ?e e'] assms(2) ph by (simp add: fail_stopped_def emit_def)
  then show ?thesis by (auto simp: keeps_def keeps_cancels_def channels_def emit_def)
qed

lemma keeps_transitions:
  "fail_gathered m ms e = Some e' \<Longrightarrow> keeps e e' \<and> keeps_cancels e e'"
  "drain_done t s e = Some e' \<Longrightarrow> keeps e e' \<and> keeps_cancels e e'"
  "unload_done t p e = Some e' \<Longrightarrow> keeps e e' \<and> keeps_cancels e e'"
  "keeps e (load_ok t s e) \<and> keeps_cancels e (load_ok t s e)"
  "keeps e (load_failed t s msg e) \<and> keeps_cancels e (load_failed t s msg e)"
  "keeps e (load_fail_stopped t e) \<and> keeps_cancels e (load_fail_stopped t e)"
  by (rule keeps_frameI; auto simp: fail_gathered_def crash_unload_def drain_done_def after_drain_def
      unload_done_def load_begin_def load_ok_def load_failed_def load_fail_stopped_def
      mark_unavailable_def emit_def Let_def split: if_splits option.splits)+

subsection \<open>Why a task is asked to stop, and what no step undoes\<close>

lemma is_cancelled_upd: "(\<And>q. qr_cancelled (f q) = qr_cancelled q) \<Longrightarrow> is_cancelled (upd_req r f st) = is_cancelled st"
  by (auto simp: is_cancelled_def upd_req_def fun_eq_iff split: option.splits)

lemma is_cancelled_ops [simp]:
  "is_cancelled (eng_store (emit k m d t e)) = is_cancelled (eng_store e)"
  "is_cancelled (eng_store (observe_duration r e)) = is_cancelled (eng_store e)"
  "is_cancelled (eng_store (map_task r g e)) = is_cancelled (eng_store e)"
  by (simp_all add: emit_def observe_duration_def map_task_def Let_def split: option.splits)

lemma is_cancelled_map_req:
  "(\<And>q. qr_cancelled (f q) = qr_cancelled q) \<Longrightarrow>
   is_cancelled (eng_store (map_req r f e)) = is_cancelled (eng_store e)"
  by (simp add: map_req_def is_cancelled_upd)

lemma serve_is_cancelled: "is_cancelled (eng_store (serve r out e)) = is_cancelled (eng_store e)"
proof -
  have fin: "is_cancelled (eng_store (serve_finally r e)) = is_cancelled (eng_store e)" for e
    by (simp add: serve_finally_def is_cancelled_map_req)
  have endd: "is_cancelled (eng_store (serve_end r ev e)) = is_cancelled (eng_store e)" for ev e
    by (simp add: serve_end_def fin is_cancelled_map_req put_event_def split: option.split)
  show ?thesis
    by (cases out) (simp_all add: serve_def fin endd is_cancelled_map_req put_event_def split: option.split)
qed

lemma serve_cases:
  assumes "inv_at pc e" and "serve_enabled r out e"
  obtains q q' fl where "eng_store e r = Some q" "qr_state q = RUNNING"
    "eng_store (serve r out e) = (eng_store e)(r \<mapsto> q')" "fl \<in> {id, map (finish_task r)}"
    "eng_in_flight (serve r out e) = fl (eng_in_flight e)" "eng_config (serve r out e) = eng_config e"
proof -
  from assms(2) obtain t where t: "t \<in> set (eng_in_flight e)" "tk_rid t = r" "\<not> tk_done t"
    by (auto simp: serve_enabled_def)
  from enabled_running [OF assms(1) t(1,3)] t(2) obtain q
    where q: "eng_store e r = Some q" "qr_state q = RUNNING" "req_ok q" by blast
  from serve_effect [OF q, of out] consider
    (same) q' where "serve r out e = e\<lparr>eng_store := (eng_store e)(r \<mapsto> q')\<rparr>"
  | (finish) q' evs means failed where "serve r out e = e\<lparr>eng_store := (eng_store e)(r \<mapsto> q'),
        eng_events := evs, eng_mean_seconds := means, eng_failed := failed,
        eng_in_flight := map (finish_task r) (eng_in_flight e)\<rparr>"
    unfolding task_effect_def by blast
  then show thesis
  proof cases
    case same
    with that [OF q(1,2), of q' id] show thesis by simp
  next
    case finish
    with that [OF q(1,2), of q' "map (finish_task r)"] show thesis by simp
  qed
qed

definition cancel_reason :: "engine \<Rightarrow> bool" where
  "cancel_reason e \<longleftrightarrow> (\<forall>t \<in> set (eng_in_flight e). tk_cancelling t \<longrightarrow>
     is_cancelled (eng_store e) (tk_rid t) \<or> gathering e \<or> eng_pc e = StopGather)"

lemma cancel_reason_keeps:
  assumes "cancel_reason e" "\<not> gathering e" "eng_pc e \<noteq> StopGather"
    and "keeps e e' \<and> (keeps_cancels e e' \<or> gathering e')"
  shows "cancel_reason e'"
proof (cases "gathering e'")
  case True
  then show ?thesis by (simp add: cancel_reason_def)
next
  case False
  with assms(4) have kc: "keeps_cancels e e'" and same: "is_cancelled (eng_store e') = is_cancelled (eng_store e)"
    by (auto simp: keeps_def)
  show ?thesis
    unfolding cancel_reason_def
  proof (intro ballI impI)
    fix t assume "t \<in> set (eng_in_flight e')" "tk_cancelling t"
    with kc have "(\<exists>u \<in> set (eng_in_flight e). tk_rid u = tk_rid t \<and> tk_cancelling u)
        \<or> is_cancelled (eng_store e') (tk_rid t)" unfolding keeps_cancels_def by blast
    moreover have "is_cancelled (eng_store e') (tk_rid t)"
      if "u \<in> set (eng_in_flight e)" "tk_rid u = tk_rid t" "tk_cancelling u" for u
      using assms(1-3) that unfolding cancel_reason_def same by metis
    ultimately show "is_cancelled (eng_store e') (tk_rid t) \<or> gathering e' \<or> eng_pc e' = StopGather" by blast
  qed
qed

lemma no_tasks_reason: "eng_in_flight e = [] \<Longrightarrow> cancel_reason e"
  by (simp add: cancel_reason_def)

lemma submit_frame:
  assumes "engine_inv e" "eng_store e r = None" "submit req r e = Inr e'"
  obtains q where "eng_store e' = (eng_store e)(r \<mapsto> q)" "qr_cancelled q = False" "eng_in_flight e' = eng_in_flight e"
    "eng_pc e' = eng_pc e" "eng_config e' = eng_config e"
  using assms that by (auto simp: submit_def mq_enqueue_def emit_def Let_def new_queued_request_def
      split: if_splits option.splits)

lemma stop_finish_phase: "inv_at (StopWait m) e \<Longrightarrow> eng_in_flight e = []"
  using inv_atD(5) by (fastforce simp: phase_inv_def)

lemma engine_step_reason:
  assumes "engine_step e e'" and "engine_inv e" and "cancel_reason e"
  shows "cancel_reason e'"
  using assms
proof (induction rule: engine_step.induct)
  case (time d e)
  then show ?case by (simp add: cancel_reason_def)
next
  case (arrive e r req e')
  then obtain q where q: "eng_store e' = (eng_store e)(r \<mapsto> q)" "eng_in_flight e' = eng_in_flight e"
    "eng_pc e' = eng_pc e" using submit_frame by metis
  have "is_cancelled (eng_store e') x" if "is_cancelled (eng_store e) x" for x
    using that q(1) arrive(1) by (auto simp: is_cancelled_def)
  then show ?case using arrive(4) unfolding cancel_reason_def q(2,3) by blast
next
  case (disconnect e r)
  have "is_cancelled (eng_store (client_cancel r e)) x" if "is_cancelled (eng_store e) x" for x
    using that by (auto simp: is_cancelled_def client_cancel_def map_req_def upd_req_def qr_cancel_def
        split: option.splits)
  moreover have "eng_in_flight (client_cancel r e) = eng_in_flight e" "eng_pc (client_cancel r e) = eng_pc e"
    by (simp_all add: client_cancel_def map_req_def)
  ultimately show ?case using disconnect(2) unfolding cancel_reason_def by metis
next
  case (task r out e)
  then obtain fl where fl: "fl \<in> {id, map (finish_task r)}" "eng_in_flight (serve r out e) = fl (eng_in_flight e)"
    using serve_cases [of "eng_pc e" e r out] by (metis engine_inv_def)
  have "\<exists>u \<in> set (eng_in_flight e). tk_rid u = tk_rid t \<and> tk_cancelling u"
    if "t \<in> set (eng_in_flight (serve r out e))" "tk_cancelling t" for t
    using that fl by (fastforce simp: finish_task_def split: if_splits)
  then show ?case
    using task(3) unfolding cancel_reason_def serve_is_cancelled serve_pc by metis
next
  case (start e)
  then show ?case by (auto simp: start_engine_def cancel_reason_def)
next
  case (top e e')
  then show ?case using keeps_loop_top [of e e'] by (auto simp: engine_inv_def intro: cancel_reason_keeps)
next
  case (tick e d)
  then show ?case by (auto simp: cancel_reason_def)
next
  case (failed_gather e m ms e')
  have "eng_in_flight e' = []" using failed_gather(3)
    by (auto simp: fail_gathered_def crash_unload_def split: if_splits)
  then show ?case by (rule no_tasks_reason)
next
  case (failed_stop e m ms e')
  then show ?case using keeps_fail_stopped [of m ms e e'] by (auto simp: engine_inv_def intro: cancel_reason_keeps)
next
  case (drained e t s e')
  then show ?case using keeps_transitions(2) [of t s e e'] by (auto intro: cancel_reason_keeps)
next
  case (unloaded e t p e')
  then show ?case using keeps_transitions(3) [of t p e e'] by (auto intro: cancel_reason_keeps)
next
  case (loaded e t s)
  then show ?case using keeps_transitions(4) [of e t s] by (auto intro: cancel_reason_keeps)
next
  case (load_fails e t s msg)
  then show ?case using keeps_transitions(5) [of e t s msg] by (auto intro: cancel_reason_keeps)
next
  case (load_fail_stop e t)
  then show ?case using keeps_transitions(6) [of e t] by (auto intro: cancel_reason_keeps)
next
  case (stop e)
  show ?case by (simp add: cancel_reason_def stop_begin_def)
next
  case (stop_gather e e')
  have "eng_in_flight e' = []" using stop_gather(3)
    by (auto simp: stop_gathered_def Let_def bind_eq_Some_conv split: if_splits option.splits)
  then show ?case by (rule no_tasks_reason)
next
  case (stop_wait e m)
  then have "eng_in_flight (stop_finish m e) = []"
    using stop_finish_phase [of m e] by (simp add: engine_inv_def stop_finish_def)
  then show ?case by (rule no_tasks_reason)
qed

lemma reachable_reason: "reachable c t0 e \<Longrightarrow> cancel_reason e"
proof (induction rule: reachable.induct)
  case init
  show ?case by (simp add: cancel_reason_def init_engine_def)
next
  case (step e e')
  then show ?case using engine_step_reason reachable_inv by blast
qed

text \<open>A request that has left its queue and is no longer served stays as it is; its client may still go.\<close>

lemma engine_step_final:
  assumes "engine_step e e'" and "engine_inv e" and "eng_store e r = Some q" and "final_state (qr_state q)"
  shows "\<exists>q'. eng_store e' r = Some q' \<and> (q' = q \<or> q' = qr_cancel q)"
  using assms
proof (induction rule: engine_step.induct)
  case (arrive e x req e')
  then obtain q1 where "eng_store e' = (eng_store e)(x \<mapsto> q1)" using submit_frame by metis
  with arrive show ?case by (auto simp: fun_upd_def)
next
  case (disconnect e x)
  then show ?case by (auto simp: client_cancel_def map_req_def upd_req_def split: option.splits)
next
  case (task x out e)
  then obtain q1 q2 where "eng_store e x = Some q1" "qr_state q1 = RUNNING"
    "eng_store (serve x out e) = (eng_store e)(x \<mapsto> q2)"
    using serve_cases [of "eng_pc e" e x out] by (metis engine_inv_def)
  with task show ?case by (auto simp: final_state_def)
next
  case (start e)
  then show ?case by (auto simp: start_engine_def)
next
  case (top e e')
  then show ?case using keeps_loop_top [of e e'] by (auto simp: engine_inv_def keeps_def final_state_def)
next
  case (failed_gather e m ms e')
  then show ?case using keeps_transitions(1) [of m ms e e'] by (auto simp: keeps_def final_state_def)
next
  case (failed_stop e m ms e')
  then show ?case using keeps_fail_stopped [of m ms e e'] by (auto simp: engine_inv_def keeps_def final_state_def)
next
  case (drained e t s e')
  then show ?case using keeps_transitions(2) [of t s e e'] by (auto simp: keeps_def final_state_def)
next
  case (unloaded e t p e')
  then show ?case using keeps_transitions(3) [of t p e e'] by (auto simp: keeps_def final_state_def)
next
  case (loaded e t s)
  then show ?case using keeps_transitions(4) [of e t s] by (auto simp: keeps_def final_state_def)
next
  case (load_fails e t s msg)
  then show ?case using keeps_transitions(5) [of e t s msg] by (auto simp: keeps_def final_state_def)
next
  case (load_fail_stop e t)
  then show ?case using keeps_transitions(6) [of e t] by (auto simp: keeps_def final_state_def)
next
  case (stop e)
  have "eng_store (stop_begin e) = eng_store e"
    by (simp add: stop_begin_def cancel_tasks_def cancel_loop_def emit_def split: loop_pc.splits)
  with stop show ?case by simp
next
  case (stop_gather e e')
  then have inv: "inv_at StopGather e" by (simp add: engine_inv_def)
  have "r \<notin> set (queued_ids (eng_queues e))"
    using state_invD(2) [OF inv_atD(4) [OF inv] stop_gather(5)] stop_gather(6) by (auto simp: final_state_def)
  moreover have "eng_store e' = shut_store (queued_ids (eng_queues e)) (eng_store e)"
    using stop_gathered_eq [OF inv] stop_gather(3) by (auto simp: Let_def split: option.splits)
  ultimately show ?case using stop_gather(5) by (simp add: shut_store_def)
next
  case (stop_wait e m)
  then show ?case by (simp add: stop_finish_def)
qed auto

end
