(* ===== verification/Sir_Engine_Safety.thy ===== *)
theory Sir_Engine_Safety
  imports Sir_Engine_Props
begin

text \<open>
  The properties of the engine over its reachable states, and runs that show what the loop does
  where several models, a crash or a shutdown meet.
\<close>

subsection \<open>Sample runs\<close>

definition req_for :: "string \<Rightarrow> generation_request" where
  "req_for m = \<lparr>gr_model = m, gr_served_model = m, gr_payload = [], gr_request_id = m\<rparr>"

definition after :: "move list \<Rightarrow> engine" where
  "after ms = (case run ms (init_engine example_config 0) of Some e \<Rightarrow> e | None \<Rightarrow> init_engine example_config 0)"

lemma example_config_ok: "valid_app_config example_config"
  using example_config_valid by (simp add: validate_app_config_iff)

lemma after_reachable: "reachable example_config 0 (after ms)"
  by (auto simp: after_def split: option.splits
      intro: reachable.init [OF example_config_ok] run_reachable [OF example_config_ok])

text \<open>Two requests for \<open>a\<close> are being served and one for \<open>b\<close> waits.\<close>

definition serving_run :: "move list" where
  "serving_run = [Start, Arrive (req_for ''a'') ''1'', Arrive (req_for ''a'') ''2'', Arrive (req_for ''b'') ''3'',
     Resume, Pass 5, Resume, Resume]"

text \<open>The same, until \<open>b\<close> starves and the loop drains \<open>a\<close>.\<close>

definition draining_run :: "move list" where
  "draining_run = serving_run @ [Pass 200, Resume, Resume]"

definition unloading_run :: "move list" where
  "unloading_run = draining_run @ [Move_task ''1'' (YieldChunk ''hi'' 0), Move_task ''1'' Exhausted,
     Move_task ''2'' (YieldEnd ''length'' None), Resume]"

subsection \<open>Residency\<close>

lemma engine_step_config:
  assumes "engine_step e e'" and "engine_inv e"
  shows "eng_config e' = eng_config e"
  using assms
proof (induction rule: engine_step.induct)
  case (arrive e r req e')
  then show ?case using submit_frame by metis
next
  case (disconnect e r)
  then show ?case by (simp add: client_cancel_def map_req_def)
next
  case (task r out e)
  then show ?case using serve_cases [of "eng_pc e" e r out] by (metis engine_inv_def)
next
  case (start e)
  then show ?case by (simp add: start_engine_def)
next
  case (top e e')
  then show ?case using keeps_loop_top [of e e'] by (simp add: engine_inv_def keeps_def)
next
  case (failed_gather e m ms e')
  then show ?case using keeps_transitions(1) [of m ms e e'] by (simp add: keeps_def)
next
  case (failed_stop e m ms e')
  then show ?case using keeps_fail_stopped [of m ms e e'] by (simp add: engine_inv_def keeps_def)
next
  case (drained e t s e')
  then show ?case using keeps_transitions(2) [of t s e e'] by (simp add: keeps_def)
next
  case (unloaded e t p e')
  then show ?case using keeps_transitions(3) [of t p e e'] by (simp add: keeps_def)
next
  case (loaded e t s)
  then show ?case using keeps_transitions(4) [of e t s] by (simp add: keeps_def)
next
  case (load_fails e t s msg)
  then show ?case using keeps_transitions(5) [of e t s msg] by (simp add: keeps_def)
next
  case (load_fail_stop e t)
  then show ?case using keeps_transitions(6) [of e t] by (simp add: keeps_def)
next
  case (stop e)
  show ?case by (simp add: stop_begin_def cancel_tasks_def cancel_loop_def emit_def split: loop_pc.splits)
next
  case (stop_gather e e')
  then show ?case
    by (auto simp: stop_gathered_def Let_def bind_eq_Some_conv split: if_splits option.splits)
next
  case (stop_wait e m)
  then show ?case by (simp add: stop_finish_def)
qed auto

lemma reachable_config: "reachable c t0 e \<Longrightarrow> eng_config e = c"
proof (induction rule: reachable.induct)
  case init
  show ?case by (simp add: init_engine_def)
next
  case (step e e')
  then show ?case using engine_step_config reachable_inv by metis
qed

lemma phase_gpu:
  assumes "phase_ok pc names res fl gpu"
  shows "length gpu \<le> 1" and "res = Some m \<Longrightarrow> gpu = [m]"
  using assms by (cases pc; auto split: option.splits)+

lemma reachable_phase:
  assumes "reachable c t0 e"
  shows "phase_inv (model_names c) (eng_pc e) (eng_resident e) (eng_resident_since e) (eng_in_flight e)
         (eng_draining e) (eng_switching e) (eng_gpu e) (eng_failed e)"
  using inv_atD(5) [OF reachable_inv [OF assms, unfolded engine_inv_def]] reachable_config [OF assms] by simp

text \<open>
  C1. At any time at most one backend holds the GPU (has been started and not yet stopped), and
  when a model is resident it is a configured one and the one that holds it.
\<close>

theorem one_backend_holds_the_gpu:
  assumes "reachable c t0 e"
  shows "length (eng_gpu e) \<le> 1
    \<and> (\<forall>m. eng_resident e = Some m \<longrightarrow> m \<in> set (model_names c) \<and> eng_gpu e = [m])"
  using reachable_phase [OF assms] phase_gpu by (fastforce simp: phase_inv_def)

theorem one_backend_holds_the_gpu_witness:
  "length (eng_gpu (after unloading_run)) \<le> 1 \<and> eng_gpu (after serving_run) = [''a'']
     \<and> eng_gpu (after unloading_run) = [''a''] \<and> eng_gpu (after (unloading_run @ [Resume])) = [''b'']"
proof -
  have "eng_resident (after serving_run) = Some ''a''" by code_simp
  with one_backend_holds_the_gpu [OF after_reachable, of serving_run]
  have 1: "eng_gpu (after serving_run) = [''a'']" by blast
  have "eng_gpu (after unloading_run) = [''a'']" by code_simp
  moreover have "eng_gpu (after (unloading_run @ [Resume])) = [''b'']" by code_simp
  ultimately show ?thesis
    using 1 one_backend_holds_the_gpu [OF after_reachable, of unloading_run] by blast
qed

text \<open>
  A request is only ever generated by the backend of its own model while that model is
  resident: nothing runs while a backend is being stopped or loaded, and the flags that the
  snapshot shows the policy are up exactly during the drain and during the swap.
\<close>

theorem running_only_on_the_resident_backend:
  assumes "reachable c t0 e"
  shows "(\<forall>r q. eng_store e r = Some q \<and> qr_state q = RUNNING \<longrightarrow>
      eng_resident e = Some (qr_model q) \<and> eng_gpu e = [qr_model q] \<and> \<not> eng_switching e)
    \<and> (eng_switching e \<longleftrightarrow> swapping (eng_pc e)) \<and> (eng_draining e \<longleftrightarrow> draining (eng_pc e))"
proof -
  note inv = reachable_inv [OF assms, unfolded engine_inv_def]
  note ph = reachable_phase [OF assms]
  have "eng_resident e = Some (qr_model q) \<and> eng_gpu e = [qr_model q] \<and> \<not> eng_switching e"
    if "eng_store e r = Some q" "qr_state q = RUNNING" for r q
  proof -
    from state_invD(3) [OF inv_atD(4) [OF inv] that(1)] that(2) obtain t
      where t: "t \<in> set (eng_in_flight e)" "tk_rid t = r" by blast
    with inv_atD(3) [OF inv] that have res: "eng_resident e = Some (qr_model q)"
      unfolding task_inv_def by force
    moreover have "\<not> swapping (eng_pc e)"
      using ph res by (cases "eng_pc e") (auto simp: phase_inv_def)
    ultimately show ?thesis using ph phase_gpu(2) by (fastforce simp: phase_inv_def)
  qed
  with ph show ?thesis by (auto simp: phase_inv_def)
qed

theorem running_only_on_the_resident_backend_witness:
  "eng_resident (after draining_run) = Some ''a'' \<and> eng_draining (after draining_run)
     \<and> eng_switching (after unloading_run)"
proof -
  have "(case eng_store (after draining_run) ''1'' of Some q \<Rightarrow> qr_state q = RUNNING \<and> qr_model q = ''a'' | None \<Rightarrow> False)"
    by code_simp
  then obtain q where "eng_store (after draining_run) ''1'' = Some q" "qr_state q = RUNNING" "qr_model q = ''a''"
    by (auto split: option.splits)
  note q = this
  have pcs: "draining (eng_pc (after draining_run))" "swapping (eng_pc (after unloading_run))" by code_simp+
  note one = running_only_on_the_resident_backend [OF after_reachable]
  have "eng_resident (after draining_run) = Some ''a''" using one [of draining_run] q by metis
  moreover have "eng_draining (after draining_run)" using one [of draining_run] pcs(1) by blast
  moreover have "eng_switching (after unloading_run)" using one [of unloading_run] pcs(2) by blast
  ultimately show ?thesis by blast
qed

subsection \<open>Requests\<close>

text \<open>
  C5. Nothing is killed mid-response without a reason: a task whose cancellation was requested
  serves a client that has gone, or the backend has crashed and the loop is gathering its tasks,
  or the router is shutting down. In particular a drain before a swap cancels no task of a client
  that is still there.
\<close>

theorem nothing_killed_without_reason:
  assumes "reachable c t0 e" and "t \<in> set (eng_in_flight e)" and "tk_cancelling t"
  shows "is_cancelled (eng_store e) (tk_rid t) \<or> gathering e \<or> eng_pc e = StopGather"
  using reachable_reason [OF assms(1)] assms(2,3) by (simp add: cancel_reason_def)

theorem nothing_killed_without_reason_witness:
  "is_cancelled (eng_store (after (serving_run @ [Disconnect ''1'', Pass 200, Resume, Resume]))) ''1''"
proof -
  let ?e = "after (serving_run @ [Disconnect ''1'', Pass 200, Resume, Resume])"
  let ?t = "\<lparr>tk_rid = ''1'', tk_done = False, tk_cancelling = True\<rparr>"
  have "list_ex (\<lambda>t. tk_rid t = ''1'' \<and> tk_cancelling t) (eng_in_flight ?e)
      \<and> (case eng_pc ?e of DrainWait _ _ \<Rightarrow> True | _ \<Rightarrow> False)"
    by code_simp
  then obtain t s t' where "t \<in> set (eng_in_flight ?e)" "tk_rid t = ''1''" "tk_cancelling t"
    "eng_pc ?e = DrainWait t' s"
    by (auto simp: list_ex_iff split: loop_pc.splits)
  with nothing_killed_without_reason [OF after_reachable this(1,3)] show ?thesis by simp
qed

lemma queued_in_its_queue:
  assumes inv: "inv_at pc e" and st: "eng_store e r = Some q"
  shows "r \<in> set (queued_ids (eng_queues e)) \<longleftrightarrow>
    (\<exists>rs. map_of (eng_queues e) (qr_model q) = Some rs \<and> r \<in> set rs)"
proof
  have dk: "distinct (map fst (eng_queues e))"
    using names_distinct [OF inv] queue_keys [OF inv] by simp
  assume "r \<in> set (queued_ids (eng_queues e))"
  then obtain m rs where mr: "(m, rs) \<in> set (eng_queues e)" "r \<in> set rs" by (auto simp: queued_ids_mem)
  with inv_atD(2) [OF inv] st have "qr_model q = m" by (fastforce simp: queue_inv_def)
  with mr dk show "\<exists>rs. map_of (eng_queues e) (qr_model q) = Some rs \<and> r \<in> set rs" by auto
next
  assume "\<exists>rs. map_of (eng_queues e) (qr_model q) = Some rs \<and> r \<in> set rs"
  then show "r \<in> set (queued_ids (eng_queues e))" by (auto simp: queued_ids_mem dest!: map_of_SomeD)
qed

text \<open>
  C2. The life of a request: it is in exactly the queue of its model while it is QUEUED and
  nothing was sent; it has a live task exactly while it is RUNNING, and then only chunks were
  sent; a DONE request got chunks and then one end, a FAILED one chunks and then one error, and
  after neither anything more. A CANCELLED one got chunks only, or the shutdown notice.
\<close>

theorem request_lifecycle:
  assumes "reachable c t0 e" and "eng_store e r = Some q"
  shows "(qr_state q = QUEUED \<longleftrightarrow> (\<exists>rs. map_of (eng_queues e) (qr_model q) = Some rs \<and> r \<in> set rs))
    \<and> (qr_state q = RUNNING \<longleftrightarrow> (\<exists>t \<in> set (eng_in_flight e). tk_rid t = r \<and> \<not> tk_done t))
    \<and> (case qr_state q of
          QUEUED \<Rightarrow> qr_events q = [] \<and> qr_started_at q = None \<and> qr_finished_at q = None
        | RUNNING \<Rightarrow> chunks (qr_events q) \<and> qr_started_at q \<noteq> None \<and> qr_finished_at q = None
        | DONE \<Rightarrow> (\<exists>cs reason u. qr_events q = cs @ [StreamEnd reason u] \<and> chunks cs)
            \<and> qr_started_at q \<noteq> None \<and> qr_finished_at q \<noteq> None
        | FAILED \<Rightarrow> (\<exists>cs msg code. qr_events q = cs @ [StreamError msg code] \<and> chunks cs)
            \<and> qr_started_at q \<noteq> None \<and> qr_finished_at q \<noteq> None
        | CANCELLED \<Rightarrow> chunks (qr_events q) \<or> qr_events q = [StreamError ''router shutting down'' 503])"
proof -
  note inv = reachable_inv [OF assms(1), unfolded engine_inv_def]
  show ?thesis
    using state_invD [OF inv_atD(4) [OF inv] assms(2)] queued_in_its_queue [OF inv assms(2)] by (simp add: req_ok_def)
qed

theorem request_lifecycle_witness:
  "\<exists>q. eng_store (after unloading_run) ''1'' = Some q
     \<and> (\<exists>cs reason u. qr_events q = cs @ [StreamEnd reason u] \<and> chunks cs)
     \<and> \<not> (\<exists>t \<in> set (eng_in_flight (after unloading_run)). tk_rid t = ''1'' \<and> \<not> tk_done t)"
proof -
  have "(case eng_store (after unloading_run) ''1'' of Some q \<Rightarrow> qr_state q = DONE | None \<Rightarrow> False)"
    by code_simp
  then obtain q where q: "eng_store (after unloading_run) ''1'' = Some q" "qr_state q = DONE"
    by (auto split: option.splits)
  with request_lifecycle [OF after_reachable q(1)] show ?thesis by simp
qed

lemma steps_final:
  assumes "engine_step\<^sup>*\<^sup>* e e'" and "reachable c t0 e" and "eng_store e r = Some q"
    and "final_state (qr_state q)"
  shows "\<exists>q'. eng_store e' r = Some q' \<and> (q' = q \<or> q' = qr_cancel q)"
  using assms(1)
proof (induction rule: rtranclp_induct)
  case base
  with assms(3) show ?case by simp
next
  case (step e1 e2)
  then obtain q1 where q1: "eng_store e1 r = Some q1" "q1 = q \<or> q1 = qr_cancel q" by blast
  have "engine_inv e1" using reachable_inv [OF reachable_steps [OF step(1) assms(2)]] .
  moreover have "final_state (qr_state q1)" using q1(2) assms(4) by (auto simp: qr_cancel_def)
  ultimately show ?case using engine_step_final [OF step(2) _ q1(1)] q1(2) by (auto simp: qr_cancel_def)
qed

text \<open>
  C11. An answer is final: once a request is DONE, FAILED or CANCELLED, no step of the engine or
  of its environment changes its state, its times or what was sent to it.
\<close>

theorem answers_are_final:
  assumes "reachable c t0 e" and "engine_step\<^sup>*\<^sup>* e e'" and "eng_store e r = Some q"
    and "qr_state q \<in> {DONE, FAILED, CANCELLED}"
  shows "\<exists>q'. eng_store e' r = Some q' \<and> qr_state q' = qr_state q \<and> qr_events q' = qr_events q
    \<and> qr_started_at q' = qr_started_at q \<and> qr_finished_at q' = qr_finished_at q"
proof -
  have "final_state (qr_state q)" using assms(4) by (auto simp: final_state_def)
  from steps_final [OF assms(2,1,3) this] show ?thesis by (auto simp: qr_cancel_def)
qed

theorem answers_are_final_witness:
  "\<exists>q q'. eng_store (after unloading_run) ''1'' = Some q
     \<and> eng_store (after (unloading_run @ [Resume, Stop])) ''1'' = Some q' \<and> qr_events q' = qr_events q"
proof -
  have "(case eng_store (after unloading_run) ''1'' of Some q \<Rightarrow> qr_state q = DONE | None \<Rightarrow> False)"
    by code_simp
  then obtain q where q: "eng_store (after unloading_run) ''1'' = Some q" "qr_state q \<in> {DONE, FAILED, CANCELLED}"
    by (auto split: option.splits)
  have some: "run unloading_run (init_engine example_config 0) \<noteq> None"
    "run [Resume, Stop] (after unloading_run) \<noteq> None" by code_simp+
  then obtain e e' where e: "run unloading_run (init_engine example_config 0) = Some e"
    "run [Resume, Stop] (after unloading_run) = Some e'" by (metis option.exhaust)
  have a: "after unloading_run = e" using e(1) by (simp add: after_def)
  have "run (unloading_run @ [Resume, Stop]) (init_engine example_config 0) = Some e'"
    using e a by (simp add: run_append del: run.simps)
  then have b: "after (unloading_run @ [Resume, Stop]) = e'" by (simp add: after_def)
  have "engine_step\<^sup>*\<^sup>* (after unloading_run) e'" by (rule run_sound [OF e(2)])
  from answers_are_final [OF after_reachable this q] q(1) show ?thesis unfolding b by blast
qed

subsection \<open>Serving\<close>

text \<open>
  C18. Dispatch: with \<open>m\<close> resident, the oldest live requests of \<open>m\<close>, as many as the
  concurrency cap leaves room for, get a task each, in queue order, and are RUNNING from now;
  every request that neither was taken nor had gone is untouched, and the number of tasks never
  exceeds the cap.
\<close>

theorem dispatch_serves_in_order:
  assumes "reachable c t0 e" and "eng_resident e = Some m" and "map_of (eng_queues e) m = Some rs"
  defines "room \<equiv> nat (sc_max_concurrent_requests (ac_scheduler c) - int (length (eng_in_flight e)))"
  defines "ts \<equiv> take room (live (eng_store e) rs)"
  shows "\<exists>e'. dispatch e = Some e' \<and> map tk_rid (eng_in_flight e') = map tk_rid (eng_in_flight e) @ ts
    \<and> (\<forall>r \<in> set ts. \<exists>q. eng_store e r = Some q
          \<and> eng_store e' r = Some (q\<lparr>qr_state := RUNNING, qr_started_at := Some (eng_now e)\<rparr>))
    \<and> (\<forall>r. r \<notin> set ts \<and> \<not> is_cancelled (eng_store e) r \<longrightarrow> eng_store e' r = eng_store e r)
    \<and> int (length (eng_in_flight e')) \<le> sc_max_concurrent_requests (ac_scheduler c)"
proof -
  note inv = reachable_inv [OF assms(1), unfolded engine_inv_def]
  have c: "eng_config e = c" using reachable_config [OF assms(1)] .
  obtain ds rs' qs' evs where d: "dispatch e = Some (e\<lparr>eng_store := taken_store (eng_now e) ts ds (eng_store e),
        eng_queues := qs', eng_events := evs, eng_in_flight := eng_in_flight e @ map new_task ts\<rparr>)"
    and ds: "\<forall>r \<in> set ds. is_cancelled (eng_store e) r"
    using dispatch_spec [OF inv assms(2,3)] c unfolding ts_def room_def by blast
  let ?e = "e\<lparr>eng_store := taken_store (eng_now e) ts ds (eng_store e),
        eng_queues := qs', eng_events := evs, eng_in_flight := eng_in_flight e @ map new_task ts\<rparr>"
  have "\<exists>q. eng_store e r = Some q \<and> eng_store ?e r = Some (q\<lparr>qr_state := RUNNING, qr_started_at := Some (eng_now e)\<rparr>)"
    if "r \<in> set ts" for r
  proof -
    have "r \<in> set rs" using that by (auto simp: ts_def live_def dest: in_set_takeD)
    then obtain q where "eng_store e r = Some q" using queue_invE [OF inv_atD(2) [OF inv] assms(3)] by blast
    with that show ?thesis by (simp add: taken_store_def run_req_def)
  qed
  moreover have "eng_store ?e r = eng_store e r" if "r \<notin> set ts" "\<not> is_cancelled (eng_store e) r" for r
    using that ds by (auto simp: taken_store_def)
  moreover have "map tk_rid (eng_in_flight ?e) = map tk_rid (eng_in_flight e) @ ts"
    by (simp add: comp_def)
  moreover have "int (length (eng_in_flight ?e)) \<le> sc_max_concurrent_requests (ac_scheduler c)"
  proof -
    have "int (length (eng_in_flight e)) \<le> sc_max_concurrent_requests (ac_scheduler c)"
      using inv_atD(3) [OF inv] c by (simp add: task_inv_def)
    then show ?thesis by (simp add: ts_def room_def)
  qed
  ultimately show ?thesis unfolding d by blast
qed

theorem dispatch_serves_in_order_witness:
  "\<exists>e'. dispatch (after (serving_run @ [Arrive (req_for ''a'') ''4''])) = Some e'
     \<and> map tk_rid (eng_in_flight e') = [''1'', ''2'', ''4'']"
proof -
  let ?e = "after (serving_run @ [Arrive (req_for ''a'') ''4''])"
  have "eng_resident ?e = Some ''a'' \<and> map_of (eng_queues ?e) ''a'' = Some [''4'']
      \<and> map tk_rid (eng_in_flight ?e) = [''1'', ''2'']
      \<and> take (nat (sc_max_concurrent_requests (ac_scheduler example_config) - int (length (eng_in_flight ?e))))
          (live (eng_store ?e) [''4'']) = [''4'']"
    by code_simp
  with dispatch_serves_in_order [OF after_reachable, of "serving_run @ [Arrive (req_for ''a'') ''4'']" "''a''" "[''4'']"]
  show ?thesis by auto
qed

text \<open>
  Any configured model may be asked for at any time, resident or not, even in a swap: the
  request is accepted at the end of its model's queue and the loop is woken; an unknown name is a
  KeyError that changes nothing. Neither residency nor a task is touched.
\<close>

theorem submit_accepts_configured_models:
  assumes "reachable c t0 e" and "eng_store e r = None"
  shows "if gr_model req \<in> set (model_names c)
    then \<exists>e' rs. submit req r e = Inr e' \<and> map_of (eng_queues e) (gr_model req) = Some rs
       \<and> map_of (eng_queues e') (gr_model req) = Some (rs @ [r])
       \<and> (\<forall>m. m \<noteq> gr_model req \<longrightarrow> map_of (eng_queues e') m = map_of (eng_queues e) m)
       \<and> eng_store e' = (eng_store e)(r \<mapsto> new_queued_request req (eng_now e))
       \<and> eng_resident e' = eng_resident e \<and> eng_in_flight e' = eng_in_flight e \<and> eng_wakeup e'
    else submit req r e = Inl (KeyError (gr_model req))"
proof (cases "gr_model req \<in> set (model_names c)")
  case True
  note inv = reachable_inv [OF assms(1), unfolded engine_inv_def]
  have m: "gr_model req \<in> set (names_of e)" using True reachable_config [OF assms(1)] by simp
  then obtain rs where rs: "map_of (eng_queues e) (gr_model req) = Some rs"
    using known_model [OF inv] by blast
  from submit_known [OF inv m rs, of r] rs True show ?thesis by (auto simp: map_of_update)
next
  case False
  note inv = reachable_inv [OF assms(1), unfolded engine_inv_def]
  have "gr_model req \<notin> set (map fst (eng_queues e))"
    using False reachable_config [OF assms(1)] queue_keys [OF inv] by simp
  then have "map_of (eng_queues e) (gr_model req) = None" by (simp add: map_of_eq_None_iff)
  with False show ?thesis by (simp add: submit_def mq_contains_def)
qed

theorem submit_accepts_configured_models_witness:
  "(\<exists>e'. submit (req_for ''b'') ''9'' (after unloading_run) = Inr e')
     \<and> submit (req_for ''c'') ''9'' (after unloading_run) = Inl (KeyError ''c'')"
proof -
  have "(case eng_store (after unloading_run) ''9'' of None \<Rightarrow> True | Some _ \<Rightarrow> False)" by code_simp
  then have n: "eng_store (after unloading_run) ''9'' = None" by (simp split: option.splits)
  have "gr_model (req_for ''b'') \<in> set (model_names example_config)"
    "gr_model (req_for ''c'') \<notin> set (model_names example_config)" "gr_model (req_for ''c'') = ''c''"
    by code_simp+
  with submit_accepts_configured_models [OF after_reachable n, of "req_for ''b''"]
    submit_accepts_configured_models [OF after_reachable n, of "req_for ''c''"]
  show ?thesis by (auto split: if_splits)
qed



text \<open>
  The function \<open>do_move\<close> and the step relation describe the same engine: a step is possible
  exactly when some move yields it.
\<close>

theorem moves_are_the_steps: "engine_step e e' \<longleftrightarrow> (\<exists>m. do_move m e = Some e')"
proof
  show "\<exists>m. do_move m e = Some e' \<Longrightarrow> engine_step e e'" using do_move_sound by blast
  assume "engine_step e e'"
  then show "\<exists>m. do_move m e = Some e'"
  proof (cases rule: engine_step.cases)
    case (time d)
    then show ?thesis by (intro exI [of _ "Pass d"]) simp
  next
    case (arrive r req)
    then show ?thesis by (intro exI [of _ "Arrive req r"]) simp
  next
    case (disconnect r)
    then show ?thesis by (intro exI [of _ "Disconnect r"]) simp
  next
    case (task r out)
    then show ?thesis by (intro exI [of _ "Move_task r out"]) simp
  next
    case start
    then show ?thesis by (intro exI [of _ Start]) simp
  next
    case (load_fails t s msg)
    then show ?thesis by (intro exI [of _ "Load_error msg"]) simp
  next
    case stop
    then show ?thesis by (intro exI [of _ Stop]) simp
  qed (intro exI [of _ Resume], auto simp: resume_def)+
qed

end
