(* ===== verification/Sir_Engine_Liveness.thy ===== *)
theory Sir_Engine_Liveness
  imports Sir_Engine_Safety
begin

text \<open>
  What the control loop makes of requests that have waited past the ceiling, of a crashed
  backend and of a shutdown: the starvation ceiling seen from the engine, the case in which two
  starving models keep each other from being served, and the states a crash and a shutdown leave
  behind.
\<close>

subsection \<open>Models past the ceiling\<close>

text \<open>A model whose oldest live request has waited past the ceiling and whose backend is available.\<close>

definition overdue_at :: "engine \<Rightarrow> string \<Rightarrow> bool" where
  "overdue_at e m \<longleftrightarrow>
     (\<exists>t. mq_oldest_enqueued_at m (qst e) = Some (Some t) \<and> sc_max_wait_seconds (sched e) \<le> eng_now e - t)
     \<and> (case eng_unavailable_until e m of None \<Rightarrow> True | Some u \<Rightarrow> u \<le> eng_now e)"

lemma first_live_at_dropped:
  "(\<And>x. \<not> is_cancelled st x \<Longrightarrow> st' x = st x) \<Longrightarrow> is_cancelled st' = is_cancelled st \<Longrightarrow>
   first_live_at st' (live st rs) = first_live_at st rs"
  by (induction rs) (auto simp: live_def)

lemma housekeep_store:
  "\<not> is_cancelled (eng_store e) r \<Longrightarrow> eng_store (housekeep e) r = eng_store e r"
  "is_cancelled (eng_store (housekeep e)) = is_cancelled (eng_store e)"
  by (auto simp: housekeep_def reap_finished_def cancel_disconnected_def cancel_tasks_def purge_cancelled_def
      mq_purge_spec [of _ _ 0] taken_store_def)

lemma map_of_live: "map_of (map (\<lambda>(n, rs). (n, live st rs)) qs) m = map_option (live st) (map_of qs m)"
  by (induction qs) auto

lemma housekeep_queues:
  "map_of (eng_queues (housekeep e)) m = map_option (live (eng_store e)) (map_of (eng_queues e) m)"
  by (simp add: housekeep_def reap_finished_def cancel_disconnected_def cancel_tasks_def purge_cancelled_def
      mq_purge_spec [of _ _ 0] map_of_live)

lemma housekeep_oldest:
  "mq_oldest_enqueued_at m (qst (housekeep e)) = mq_oldest_enqueued_at m (qst e)"
  using first_live_at_dropped [of "eng_store e" "eng_store (housekeep e)"] housekeep_store [of e]
  by (simp add: mq_oldest_enqueued_at_def housekeep_queues map_option.compositionality comp_def)

lemma first_live_at_count: "first_live_at st rs = Some t \<Longrightarrow> 0 < count_live st rs"
  by (induction rs) (auto simp: count_live_def split: if_splits)

lemma option_all_mem: "option_all xs = Some ys \<Longrightarrow> y \<in> set ys \<Longrightarrow> Some y \<in> set xs"
  by (induction xs arbitrary: ys rule: option_all.induct) auto

lemma snapshot_states:
  assumes "snapshot e = Some snap" and "ms \<in> set (ss_models snap)"
  obtains m where "m \<in> set (ac_models (eng_config e))" "model_state_of e m = Some ms"
  using assms that by (auto simp: snapshot_def bind_eq_Some_conv dest!: option_all_mem)

lemma model_state_fields:
  assumes "model_state_of e m = Some ms"
  shows "ms_name ms = mc_name m" and "mq_oldest_enqueued_at (mc_name m) (qst e) = Some (ms_oldest_enqueued_at ms)"
    and "mq_depth (mc_name m) (qst e) = Some (ms_depth ms)"
    and "ms_unavailable_until ms = eng_unavailable_until e (mc_name m)"
  using assms by (auto simp: model_state_of_def Let_def bind_eq_Some_conv)

lemma overdue_snapshot:
  assumes snap: "snapshot e = Some snap" "ss_resident snap = eng_resident e"
    and ceiling: "0 < sc_max_wait_seconds (sched e)"
    and ms: "ms \<in> set (ss_models snap)"
  shows "ms \<in> set (overdue snap (eng_now e) (sched e))
    \<longleftrightarrow> overdue_at e (ms_name ms) \<and> eng_resident e \<noteq> Some (ms_name ms)"
proof -
  obtain m where m: "model_state_of e m = Some ms" using snapshot_states [OF snap(1) ms] by blast
  note f = model_state_fields [OF m]
  have depth: "has_pending ms" if "ms_oldest_enqueued_at ms = Some t" for t
    using f(2,3) that by (auto simp: has_pending_def mq_oldest_enqueued_at_def mq_depth_def
        dest: first_live_at_count)
  show ?thesis
  proof (cases "ms_oldest_enqueued_at ms")
    case None
    then show ?thesis
      using ceiling f by (simp add: overdue_iff overdue_at_def oldest_wait_def)
  next
    case (Some t)
    have "sc_max_wait_seconds (sched e) \<le> max 0 (eng_now e - t) \<longleftrightarrow> sc_max_wait_seconds (sched e) \<le> eng_now e - t"
      using ceiling by linarith
    then show ?thesis
      using f Some depth [OF Some] snap(2) ms
      by (auto simp: overdue_iff servable_iff overdue_at_def oldest_wait_def is_available_def)
  qed
qed

text \<open>What a pass sees of the overdue models.\<close>

lemma ceiling_positive:
  assumes "inv_at pc e"
  shows "0 < sc_max_wait_seconds (sched e)"
  using inv_atD(1) [OF assms] by (simp add: valid_app_config_def valid_scheduler_config_def)

lemma overdue_at_pass: "overdue_at ((housekeep e)\<lparr>eng_idle_since := i\<rparr>) m \<longleftrightarrow> overdue_at e m"
  using housekeep_oldest [of m e] by (cases "eng_unavailable_until e m") (simp_all add: overdue_at_def)

lemma pass_snapshot:
  assumes inv: "inv_at LoopTop e" and snap: "snapshot ((housekeep e)\<lparr>eng_idle_since := i\<rparr>) = Some snap"
  shows "snapshot_ok snap" and "ss_resident snap = eng_resident e" and "map ms_name (ss_models snap) = names_of e"
    and "quiet snap"
    and "ms \<in> set (ss_models snap) \<Longrightarrow> ms \<in> set (overdue snap (eng_now e) (sched e))
      \<longleftrightarrow> overdue_at e (ms_name ms) \<and> eng_resident e \<noteq> Some (ms_name ms)"
    and "ms \<in> set (ss_models snap) \<Longrightarrow> mq_oldest_enqueued_at (ms_name ms) (qst e) = Some (ms_oldest_enqueued_at ms)"
proof -
  let ?e = "(housekeep e)\<lparr>eng_idle_since := i\<rparr>"
  have e: "inv_at LoopTop ?e" using housekeep_inv [OF inv] by simp
  show "snapshot_ok snap" "map ms_name (ss_models snap) = names_of e" "quiet snap" and res: "ss_resident snap = eng_resident e"
    using snapshot_Some [OF e] snap inv_atD(5) [OF e] by (auto simp: phase_inv_def)
  assume ms: "ms \<in> set (ss_models snap)"
  show "ms \<in> set (overdue snap (eng_now e) (sched e)) \<longleftrightarrow> overdue_at e (ms_name ms) \<and> eng_resident e \<noteq> Some (ms_name ms)"
    using overdue_snapshot [OF snap _ ceiling_positive [OF e] ms] res overdue_at_pass by simp
  show "mq_oldest_enqueued_at (ms_name ms) (qst e) = Some (ms_oldest_enqueued_at ms)"
  proof -
    obtain m where m: "model_state_of ?e m = Some ms" using snapshot_states [OF snap ms] by blast
    show ?thesis
      using model_state_fields(1,2) [OF m] housekeep_oldest [of "mc_name m" e] by simp
  qed
qed

text \<open>A pass with an overdue model begins the switch to the one that has waited longest.\<close>

lemma pass_starving:
  assumes inv: "inv_at LoopTop e" and n: "n \<in> set (names_of e)" "eng_resident e \<noteq> Some n" "overdue_at e n"
  obtains t d i where "loop_body e = switch_begin t (record_decision d ((housekeep e)\<lparr>eng_idle_since := i\<rparr>))"
    "dc_reason d = STARVATION" "t \<in> set (names_of e)" "eng_resident e \<noteq> Some t" "overdue_at e t"
    "\<And>m a b. m \<in> set (names_of e) \<Longrightarrow> eng_resident e \<noteq> Some m \<Longrightarrow> overdue_at e m \<Longrightarrow>
       mq_oldest_enqueued_at m (qst e) = Some (Some a) \<Longrightarrow> mq_oldest_enqueued_at t (qst e) = Some (Some b) \<Longrightarrow> b \<le> a"
proof -
  have h: "inv_at LoopTop (housekeep e)" by (rule housekeep_inv [OF inv])
  obtain i where i: "track_idleness (housekeep e) = Some ((housekeep e)\<lparr>eng_idle_since := i\<rparr>)"
    using track_idleness_inv [OF h] by blast
  let ?e = "(housekeep e)\<lparr>eng_idle_since := i\<rparr>"
  have e: "inv_at LoopTop ?e" using h by simp
  obtain snap where snap: "snapshot ?e = Some snap" using snapshot_Some [OF e] by blast
  note pass = pass_snapshot [OF inv snap] and iff = pass_snapshot(5) [OF inv snap]
  have model: "\<exists>ms \<in> set (ss_models snap). ms_name ms = m" if "m \<in> set (names_of e)" for m
    using that unfolding pass(3) [symmetric] by auto
  obtain ms where "ms \<in> set (ss_models snap)" "ms_name ms = n" using model [OF n(1)] by blast
  then have "overdue snap (eng_now e) (sched e) \<noteq> []" using iff n(2,3) by fastforce
  from decide_starvation [OF pass(4) this] obtain tm where
    d: "decide snap (eng_now e) (sched e) = \<lparr>dc_kind = SWITCH, dc_reason = STARVATION, dc_at = eng_now e,
        dc_resident = ss_resident snap, dc_target = Some (ms_name tm),
        dc_scores = snapshot_scores snap (eng_now e) (sched e)\<rparr>"
    and tm: "tm \<in> set (overdue snap (eng_now e) (sched e))"
      "\<forall>m \<in> set (overdue snap (eng_now e) (sched e)). oldest_wait m (eng_now e) \<le> oldest_wait tm (eng_now e)"
    by blast
  have tms: "tm \<in> set (ss_models snap)" using tm(1) by (auto simp: overdue_iff servable_iff)
  let ?t = "ms_name tm" and ?d = "decide snap (eng_now e) (sched e)"
  have t: "?t \<in> set (names_of e)" using tms unfolding pass(3) [symmetric] by simp
  then have "?t \<noteq> []" using names_distinct [OF inv] by metis
  have now: "eng_now ?e = eng_now e" "sched ?e = sched e" by simp_all
  have dk: "dc_kind ?d = SWITCH" "dc_target ?d = Some ?t" "dc_reason ?d = STARVATION" unfolding d by simp_all
  have sw: "dc_kind ?d = SWITCH \<and> dc_target ?d \<notin> {None, Some []}"
    using \<open>?t \<noteq> []\<close> unfolding dk by simp
  have "loop_body e = switch_begin ?t (record_decision ?d ?e)"
    unfolding loop_body_def housekeep_def [symmetric] i snap Let_def Option.bind.simps now if_P [OF sw]
    unfolding dk(2) option.sel ..
  moreover have "b \<le> a" if p: "m \<in> set (names_of e)" "eng_resident e \<noteq> Some m" "overdue_at e m"
    "mq_oldest_enqueued_at m (qst e) = Some (Some a)" "mq_oldest_enqueued_at ?t (qst e) = Some (Some b)" for m a b
  proof -
    obtain ms where ms: "ms \<in> set (ss_models snap)" "ms_name ms = m" using model [OF p(1)] by blast
    have "ms_oldest_enqueued_at ms = Some a" "ms_oldest_enqueued_at tm = Some b"
      using pass(6) [OF ms(1)] pass(6) [OF tms] p(4,5) ms(2) by simp_all
    moreover have "oldest_wait ms (eng_now e) \<le> oldest_wait tm (eng_now e)"
      using tm(2) iff [OF ms(1)] ms(2) p(2,3) by blast
    moreover have "0 < eng_now e - a"
      using p(3,4) ceiling_positive [OF inv] by (auto simp: overdue_at_def)
    ultimately show ?thesis by (simp add: oldest_wait_def max_def split: if_splits)
  qed
  ultimately show thesis
    using that [of ?t ?d i] t iff [OF tms] tm(1) dk(3) by blast
qed

lemma switch_begin_pc:
  assumes "switch_begin t e = Some e'"
  shows "(\<exists>s. eng_pc e' = DrainWait t s) \<or> (\<exists>p. eng_pc e' = UnloadWait t p) \<or> (\<exists>s. eng_pc e' = LoadWait t s)"
  using assms by (auto simp: switch_begin_def after_drain_def load_begin_def Let_def split: if_splits option.splits)

lemma switch_begin_decisions: "switch_begin t e = Some e' \<Longrightarrow> eng_decisions e' = eng_decisions e"
  by (auto simp: switch_begin_def after_drain_def load_begin_def cancel_disconnected_def cancel_tasks_def
      emit_def Let_def split: if_splits option.splits)

text \<open>
  C6. The starvation ceiling, from the engine: when the loop comes round with no crash to
  handle, and some non-resident model whose backend is available has a live request older than
  the ceiling, the pass begins the switch to such a model, the one whose request is oldest, and
  records the decision as STARVATION, whatever the scores say.
\<close>

theorem overdue_model_gets_the_gpu:
  assumes "reachable c t0 e" and "eng_pc e = LoopTop" and "eng_running e" and "eng_failed e = []"
    and "n \<in> set (model_names c)" and "eng_resident e \<noteq> Some n" and "overdue_at e n"
  shows "\<exists>e' t. loop_top e = Some e' \<and> overdue_at e t \<and> eng_resident e \<noteq> Some t
    \<and> ((\<exists>s. eng_pc e' = DrainWait t s) \<or> (\<exists>p. eng_pc e' = UnloadWait t p) \<or> (\<exists>s. eng_pc e' = LoadWait t s))
    \<and> dc_reason (last (eng_decisions e')) = STARVATION
    \<and> (\<forall>a b. mq_oldest_enqueued_at n (qst e) = Some (Some a)
          \<and> mq_oldest_enqueued_at t (qst e) = Some (Some b) \<longrightarrow> b \<le> a)"
proof -
  note inv = reachable_inv [OF assms(1), unfolded engine_inv_def assms(2)]
  let ?e = "e\<lparr>eng_wakeup := False, eng_failed := []\<rparr>"
  have i: "inv_at LoopTop ?e" using inv assms(4) by (simp add: inv_at_def)
  have od: "overdue_at ?e m \<longleftrightarrow> overdue_at e m" for m
    by (cases "eng_unavailable_until e m") (simp_all add: overdue_at_def)
  have n: "n \<in> set (names_of ?e)" "eng_resident ?e \<noteq> Some n" "overdue_at ?e n"
    using assms(5-7) reachable_config [OF assms(1)] od by simp_all
  have top: "loop_top e = loop_body ?e"
    using assms(3,4) by (simp add: loop_top_def handle_failures_def)
  show ?thesis
  proof (rule pass_starving [OF i n])
    fix t d j
    let ?r = "record_decision d ((housekeep ?e)\<lparr>eng_idle_since := j\<rparr>)"
    assume body: "loop_body ?e = switch_begin t ?r" and d: "dc_reason d = STARVATION"
      and t: "t \<in> set (names_of ?e)" "eng_resident ?e \<noteq> Some t" "overdue_at ?e t"
      and old: "\<And>m a b. m \<in> set (names_of ?e) \<Longrightarrow> eng_resident ?e \<noteq> Some m \<Longrightarrow> overdue_at ?e m \<Longrightarrow>
         mq_oldest_enqueued_at m (qst ?e) = Some (Some a) \<Longrightarrow> mq_oldest_enqueued_at t (qst ?e) = Some (Some b) \<Longrightarrow> b \<le> a"
    obtain e' where e': "switch_begin t ?r = Some e'"
      using loop_top_inv [OF inv] top body by auto
    have "eng_decisions e' = push_bounded history d (eng_decisions e)"
      using switch_begin_decisions [OF e'] by (simp add: record_decision_def)
    then have "dc_reason (last (eng_decisions e')) = STARVATION"
      using d by (simp add: last_push_bounded history_def)
    with switch_begin_pc [OF e'] e' top body t(2,3) od old [OF n] show ?thesis by auto
  qed
qed

theorem overdue_model_gets_the_gpu_witness:
  "\<exists>e'. loop_top (after (serving_run @ [Pass 200, Resume])) = Some e'
     \<and> dc_reason (last (eng_decisions e')) = STARVATION"
proof -
  let ?e = "after (serving_run @ [Pass 200, Resume])"
  have "eng_pc ?e = LoopTop" "eng_running ?e" "eng_failed ?e = []"
    "''b'' \<in> set (model_names example_config)" "eng_resident ?e \<noteq> Some ''b''" by code_simp+
  moreover have "mq_oldest_enqueued_at ''b'' (qst ?e) = Some (Some 0) \<and> 0 + sc_max_wait_seconds (sched ?e) \<le> eng_now ?e
      \<and> (case eng_unavailable_until ?e ''b'' of None \<Rightarrow> True | Some u \<Rightarrow> u \<le> eng_now ?e)"
    by code_simp
  then have "overdue_at ?e ''b''" by (simp add: overdue_at_def)
  ultimately show ?thesis using overdue_model_gets_the_gpu [OF after_reachable] by blast
qed

subsection \<open>Two starving models\<close>

text \<open>
  The loop is about to take a pass with an idle resident model, and two different models are past
  the ceiling, of which the resident one may be one.
\<close>

definition contended :: "engine \<Rightarrow> bool" where
  "contended e \<longleftrightarrow> engine_inv e \<and> eng_pc e = LoopTop \<and> eng_running e \<and> eng_failed e = []
     \<and> eng_in_flight e = [] \<and> eng_resident e \<noteq> None
     \<and> (\<exists>m n. m \<noteq> n \<and> m \<in> set (names_of e) \<and> n \<in> set (names_of e) \<and> overdue_at e m \<and> overdue_at e n)"

definition swap_round :: "seconds \<Rightarrow> move list" where
  "swap_round d = [Resume, Resume, Pass d, Resume]"

lemma run_inv: "run ms e = Some e' \<Longrightarrow> engine_inv e \<Longrightarrow> engine_inv e'"
proof (induction ms arbitrary: e)
  case Nil
  then show ?case by simp
next
  case (Cons m ms)
  then obtain e1 where "do_move m e = Some e1" "run ms e1 = Some e'" by (auto split: option.splits)
  with Cons engine_step_inv do_move_sound show ?case by blast
qed

lemma housekeep_idle: "eng_in_flight e = [] \<Longrightarrow> eng_in_flight (housekeep e) = []"
  by (simp add: housekeep_def reap_finished_def cancel_disconnected_def cancel_tasks_def purge_cancelled_def
      split: prod.splits)

lemma housekeep_counts [simp]:
  "eng_running (housekeep e) = eng_running e" "eng_loads (housekeep e) = eng_loads e"
  "eng_swaps (housekeep e) = eng_swaps e" "eng_gpu (housekeep e) = eng_gpu e"
  by (simp_all add: housekeep_def reap_finished_def cancel_disconnected_def cancel_tasks_def
      purge_cancelled_def split: prod.splits)

lemma contended_round:
  assumes "contended e" and "0 \<le> d"
  shows "\<exists>e'. run (swap_round d) e = Some e' \<and> contended e' \<and> eng_loads e' = Suc (eng_loads e)
    \<and> (\<forall>r. \<not> is_cancelled (eng_store e) r \<longrightarrow> eng_store e' r = eng_store e r)
    \<and> is_cancelled (eng_store e') = is_cancelled (eng_store e)"
proof -
  have c: "inv_at LoopTop e" "eng_pc e = LoopTop" "eng_running e" "eng_failed e = []" "eng_in_flight e = []"
    using assms(1) by (auto simp: contended_def engine_inv_def)
  obtain a where a: "eng_resident e = Some a" using assms(1) by (auto simp: contended_def)
  obtain m n where mn: "m \<noteq> n" "m \<in> set (names_of e)" "n \<in> set (names_of e)" "overdue_at e m" "overdue_at e n"
    using assms(1) by (auto simp: contended_def)
  let ?e = "e\<lparr>eng_wakeup := False, eng_failed := []\<rparr>"
  have i: "inv_at LoopTop ?e" using c(1,4) by (simp add: inv_at_def)
  have od: "overdue_at ?e m \<longleftrightarrow> overdue_at e m" for m
    by (cases "eng_unavailable_until e m") (simp_all add: overdue_at_def)
  have top: "loop_top e = loop_body ?e" using c(3,4) by (simp add: loop_top_def handle_failures_def)
  obtain k where k: "k \<in> set (names_of ?e)" "eng_resident ?e \<noteq> Some k" "overdue_at ?e k"
    using mn a od by (cases "m = a") auto
  from pass_starving [OF i k] obtain t dec j where
    body: "loop_body ?e = switch_begin t (record_decision dec ((housekeep ?e)\<lparr>eng_idle_since := j\<rparr>))"
    and t: "t \<in> set (names_of ?e)" by metis
  let ?r = "record_decision dec ((housekeep ?e)\<lparr>eng_idle_since := j\<rparr>)"
  have r: "eng_in_flight ?r = []" "eng_resident ?r = Some a" "eng_config ?r = eng_config e"
    "eng_gpu ?r = [a]"
    using housekeep_idle [of ?e] c(5) a inv_atD(5) [OF i] by (simp_all add: record_decision_def phase_inv_def)
  have ka: "has_backend a ?r" "has_backend t ?r"
    using resident_known [OF c(1) a] t r(3) by (simp_all add: has_backend_def)
  let ?u = "?r\<lparr>eng_switching := True, eng_resident := None, eng_resident_since := None, eng_pc := UnloadWait t a\<rparr>"
  have u: "do_move Resume e = Some ?u"
    using c(2) top body r(1,2) ka(1) by (simp add: resume_def switch_begin_def after_drain_def has_backend_def)
  obtain l where l: "do_move Resume ?u = Some l" "l = (emit EV_LOAD_START t []  None
      ((emit EV_UNLOAD a [] None (?u\<lparr>eng_gpu := removeAll a (eng_gpu ?u)\<rparr>))\<lparr>eng_swaps := eng_swaps ?u + 1\<rparr>))
      \<lparr>eng_gpu := List.insert t (removeAll a (eng_gpu ?u)), eng_pc := LoadWait t (eng_now ?u)\<rparr>"
    using ka(2) by (simp add: resume_def unload_done_def load_begin_def has_backend_def emit_def)
  let ?e' = "load_ok t (eng_now ?u) (l\<lparr>eng_now := eng_now l + d\<rparr>)"
  have run: "run (swap_round d) e = Some ?e'"
    using u l assms(2) by (simp add: swap_round_def resume_def del: do_move.simps(6)) (simp add: resume_def emit_def)
  have f: "eng_config ?e' = eng_config e" "eng_store ?e' = eng_store (housekeep ?e)"
    "eng_queues ?e' = eng_queues (housekeep ?e)" "eng_now ?e' = eng_now e + d"
    "eng_unavailable_until ?e' = (eng_unavailable_until e)(t := None)" "eng_pc ?e' = LoopTop"
    "eng_running ?e'" "eng_failed ?e' = []" "eng_in_flight ?e' = []" "eng_resident ?e' = Some t"
    "eng_loads ?e' = Suc (eng_loads e)"
    unfolding l(2) load_ok_def using c housekeep_idle [of ?e] by (simp_all add: emit_def Let_def record_decision_def)
  have keep: "overdue_at ?e' x" if "overdue_at e x" for x
    using that assms(2) housekeep_oldest [of x ?e] f(1-5)
    by (cases "eng_unavailable_until e x") (auto simp: overdue_at_def)
  have "contended ?e'"
    unfolding contended_def using f mn keep run_inv [OF run] assms(1) by (auto simp: contended_def)
  moreover have "eng_store ?e' x = eng_store e x" if "\<not> is_cancelled (eng_store e) x" for x
    using housekeep_store(1) [of ?e x] that f(2) by simp
  moreover have "is_cancelled (eng_store ?e') = is_cancelled (eng_store e)"
    using housekeep_store(2) [of ?e] f(2) by simp
  ultimately show ?thesis using run f(11) by blast
qed


text \<open>
  \<open>a\<close> is resident and idle, and one request for each of \<open>a\<close> and \<open>b\<close> has been waiting for more
  than the ceiling of 120 s.
\<close>

definition contended_run :: "move list" where
  "contended_run = [Start, Arrive (req_for ''a'') ''1'', Resume, Pass 5, Resume, Resume,
     Move_task ''1'' Exhausted, Arrive (req_for ''b'') ''2'', Resume, Resume,
     Arrive (req_for ''a'') ''3'', Pass 200, Resume]"

lemma contended_after: "contended (after contended_run)"
proof -
  let ?e = "after contended_run"
  have "engine_inv ?e" using reachable_inv [OF after_reachable] .
  moreover have "eng_pc ?e = LoopTop" "eng_running ?e" "eng_failed ?e = []" "eng_in_flight ?e = []"
    "eng_resident ?e = Some ''a''" "names_of ?e = [''a'', ''b'']" by code_simp+
  moreover have "mq_oldest_enqueued_at ''a'' (qst ?e) = Some (Some 5) \<and> sc_max_wait_seconds (sched ?e) \<le> eng_now ?e - 5
      \<and> (case eng_unavailable_until ?e ''a'' of None \<Rightarrow> True | Some u \<Rightarrow> u \<le> eng_now ?e)"
    by code_simp
  then have "overdue_at ?e ''a''" by (simp add: overdue_at_def)
  moreover have "mq_oldest_enqueued_at ''b'' (qst ?e) = Some (Some 5) \<and> sc_max_wait_seconds (sched ?e) \<le> eng_now ?e - 5
      \<and> (case eng_unavailable_until ?e ''b'' of None \<Rightarrow> True | Some u \<Rightarrow> u \<le> eng_now ?e)"
    by code_simp
  then have "overdue_at ?e ''b''" by (simp add: overdue_at_def)
  ultimately show ?thesis unfolding contended_def
    by (intro conjI exI [of _ "''a''"] exI [of _ "''b''"]) simp_all
qed


subsection \<open>A crash and a shutdown\<close>

text \<open>
  C22. Containing a crash: when the loop finds that the resident backend \<open>m\<close> failed while other
  requests of \<open>m\<close> are in flight, it backs \<open>m\<close> off for the retry time, asks every task that is
  still running to stop and waits for them, and touches neither the queues nor any request; the
  other models stay available as they were.
\<close>

theorem crash_is_contained:
  assumes "reachable c t0 e" and "eng_pc e = LoopTop" and "eng_running e"
    and "eng_failed e = [m]" and "eng_resident e = Some m" and "eng_in_flight e \<noteq> []"
  shows "\<exists>e'. loop_top e = Some e' \<and> eng_pc e' = FailGather m [] \<and> eng_failed e' = []
    \<and> eng_unavailable_until e' = (eng_unavailable_until e)(m \<mapsto> eng_now e + sc_backend_retry_seconds (ac_scheduler c))
    \<and> map tk_rid (eng_in_flight e') = map tk_rid (eng_in_flight e)
    \<and> (\<forall>t \<in> set (eng_in_flight e'). tk_done t \<or> tk_cancelling t)
    \<and> eng_store e' = eng_store e \<and> eng_queues e' = eng_queues e"
proof -
  note inv = reachable_inv [OF assms(1), unfolded engine_inv_def]
  have own: "request_of_model e m (tk_rid t)" if "t \<in> set (eng_in_flight e)" for t
    using inv_atD(3) [OF inv] that assms(5) unfolding task_inv_def request_of_model_def by fastforce
  let ?e = "emit EV_CRASH m ''backend marked unavailable'' None
      (mark_unavailable m (e\<lparr>eng_wakeup := False, eng_failed := []\<rparr>))"
  let ?c = "cancel_tasks (request_of_model ?e m) ?e"
  have f: "eng_resident ?e = Some m" "eng_in_flight ?e = eng_in_flight e"
    "request_of_model ?e m = request_of_model e m"
    using assms(5) by (simp_all add: emit_def mark_unavailable_def request_of_model_def [abs_def])
  have "loop_top e = Some (?c\<lparr>eng_pc := FailGather m []\<rparr>)"
    using assms(3,4,6) f by (simp add: loop_top_def handle_failures_def Let_def cancel_tasks_eq)
  moreover have "map tk_rid (eng_in_flight ?c) = map tk_rid (eng_in_flight e)"
    using f by (simp add: cancel_tasks_eq comp_def)
  moreover have "tk_done t \<or> tk_cancelling t" if "t \<in> set (eng_in_flight ?c)" for t
    using that own f by (auto simp: cancel_tasks_eq ask_cancel_def)
  ultimately show ?thesis
    using reachable_config [OF assms(1)]
    by (intro exI [of _ "?c\<lparr>eng_pc := FailGather m []\<rparr>"]) (simp add: cancel_tasks_def emit_def mark_unavailable_def)
qed

text \<open>Request \<open>2\<close> is in flight beside request \<open>1\<close> when the backend of \<open>a\<close> dies under \<open>1\<close>.\<close>

definition crash_run :: "move list" where
  "crash_run = serving_run @ [Move_task ''1'' (RaiseBackend ''died''), Pass 1, Resume]"

theorem crash_is_contained_witness:
  "\<exists>e'. loop_top (after crash_run) = Some e' \<and> eng_pc e' = FailGather ''a'' []
     \<and> eng_unavailable_until e' ''a'' = Some 11"
proof -
  have "eng_pc (after crash_run) = LoopTop" "eng_running (after crash_run)" "eng_failed (after crash_run) = [''a'']"
    "eng_resident (after crash_run) = Some ''a''" "eng_in_flight (after crash_run) \<noteq> []"
    "eng_now (after crash_run) + sc_backend_retry_seconds (ac_scheduler example_config) = 11" by code_simp+
  with crash_is_contained [OF after_reachable this(1-5)] show ?thesis by auto
qed

text \<open>
  A crash leaves clients waiting for good: a request that is in flight beside the one under
  which the backend fails is asked to stop by the containment; when its task ends, it is CANCELLED
  though its client is still there, its channel holds no terminator, and no later step of the
  engine or its environment puts anything on it.
\<close>

theorem crash_leaves_clients_waiting:
  assumes "reachable c t0 e" and "gathering e" and "serve_enabled r DeliverCancel e"
    and "eng_store e r = Some q" and "\<not> qr_cancelled q" and "engine_step\<^sup>*\<^sup>* (serve r DeliverCancel e) e'"
  shows "\<exists>q'. eng_store e' r = Some q' \<and> qr_state q' = CANCELLED \<and> qr_events q' = qr_events q
    \<and> chunks (qr_events q')"
proof -
  note inv = reachable_inv [OF assms(1), unfolded engine_inv_def]
  obtain t where t: "t \<in> set (eng_in_flight e)" "tk_rid t = r" "\<not> tk_done t"
    using assms(3) by (auto simp: serve_enabled_def)
  from enabled_running [OF inv t(1,3)] t(2) assms(4) have run: "qr_state q = RUNNING" "req_ok q" by auto
  let ?q = "q\<lparr>qr_state := CANCELLED\<rparr>"
  obtain evs where e1: "serve r DeliverCancel e = serve_finally r (e\<lparr>eng_store := (eng_store e)(r \<mapsto> ?q), eng_events := evs\<rparr>)"
    using assms(4) by (auto simp: serve_def map_req_def upd_req_Some emit_def)
  have "\<exists>x. eng_store (serve r DeliverCancel e) r = Some (?q\<lparr>qr_finished_at := x\<rparr>)"
    using serve_finally_effect [of "e\<lparr>eng_store := (eng_store e)(r \<mapsto> ?q), eng_events := evs\<rparr>" r ?q]
    unfolding e1 by auto
  then obtain x where st: "eng_store (serve r DeliverCancel e) r = Some (?q\<lparr>qr_finished_at := x\<rparr>)" by blast
  have "reachable c t0 (serve r DeliverCancel e)"
    using reachable.step [OF assms(1) engine_step.task [OF assms(3)]] .
  from steps_final [OF assms(6) this st] obtain q' where
    "eng_store e' r = Some q'" "q' = ?q\<lparr>qr_finished_at := x\<rparr> \<or> q' = qr_cancel (?q\<lparr>qr_finished_at := x\<rparr>)"
    by (auto simp: final_state_def)
  with run show ?thesis by (auto simp: req_ok_def qr_cancel_def)
qed

theorem crash_leaves_clients_waiting_witness:
  "\<exists>q'. eng_store (serve ''2'' DeliverCancel (after (crash_run @ [Resume]))) ''2'' = Some q'
     \<and> qr_state q' = CANCELLED \<and> qr_events q' = []"
proof -
  let ?e = "after (crash_run @ [Resume])"
  have "(case eng_pc ?e of FailGather _ _ \<Rightarrow> True | _ \<Rightarrow> False)"
    "list_ex (\<lambda>t. tk_rid t = ''2'' \<and> \<not> tk_done t \<and> tk_cancelling t) (eng_in_flight ?e)"
    "(case eng_store ?e ''2'' of Some q \<Rightarrow> \<not> qr_cancelled q \<and> qr_events q = [] | None \<Rightarrow> False)" by code_simp+
  then obtain q where h: "gathering ?e" "serve_enabled ''2'' DeliverCancel ?e"
    "eng_store ?e ''2'' = Some q" "\<not> qr_cancelled q" "qr_events q = []"
    by (auto simp: serve_enabled_def list_ex_iff split: loop_pc.splits option.splits)
  from crash_leaves_clients_waiting [OF after_reachable h(1-4) rtranclp.rtrancl_refl] h(5) show ?thesis by auto
qed

text \<open>
  Shutdown answers everyone who is still queued: when the tasks have ended, every QUEUED
  request becomes CANCELLED and is told that the router shuts down, no other request changes, and
  neither a task nor a queued request is left.
\<close>

theorem shutdown_answers_queued_requests:
  assumes "reachable c t0 e" and "eng_pc e = StopGather" and "all_done e"
  shows "\<exists>e'. stop_gathered e = Some e' \<and> eng_in_flight e' = []
    \<and> (\<forall>m rs. map_of (eng_queues e') m = Some rs \<longrightarrow> rs = [])
    \<and> (\<forall>r q. eng_store e r = Some q \<longrightarrow>
         (if qr_state q = QUEUED
          then \<exists>q'. eng_store e' r = Some q' \<and> qr_state q' = CANCELLED
            \<and> qr_events q' = [StreamError ''router shutting down'' 503]
          else eng_store e' r = Some q))"
proof -
  note inv = reachable_inv [OF assms(1), unfolded engine_inv_def assms(2)]
  obtain qs' where eq: "stop_gathered e = Some (let e = e\<lparr>eng_in_flight := [],
        eng_store := shut_store (queued_ids (eng_queues e)) (eng_store e), eng_queues := qs'\<rparr> in
      (case eng_resident e of None \<Rightarrow> e\<lparr>eng_pc := Stopped\<rparr> | Some m \<Rightarrow> e\<lparr>eng_pc := StopWait m\<rparr>))"
    and qs': "queued_ids qs' = []"
    using stop_gathered_eq [OF inv] by blast
  obtain e' where e': "stop_gathered e = Some e'" by (simp add: eq)
  have f: "eng_in_flight e' = []" "eng_store e' = shut_store (queued_ids (eng_queues e)) (eng_store e)"
    "eng_queues e' = qs'"
    using e' eq by (auto simp: Let_def split: option.splits)
  have "rs = []" if "map_of qs' m = Some rs" for m rs
    using qs' map_of_SomeD [OF that] by (auto simp: queued_ids_def)
  moreover have "if qr_state q = QUEUED
      then \<exists>q'. eng_store e' r = Some q' \<and> qr_state q' = CANCELLED
            \<and> qr_events q' = [StreamError ''router shutting down'' 503]
      else eng_store e' r = Some q" if q: "eng_store e r = Some q" for r q
  proof -
    note st = state_invD(1,2) [OF inv_atD(4) [OF inv] q]
    have sh: "eng_store e' r = (if qr_state q = QUEUED then Some (shut_request q) else Some q)"
      using st(2) q f(2) by (simp add: shut_store_def)
    show ?thesis
    proof (cases "qr_state q = QUEUED")
      case True
      with st(1) have "qr_events q = []" by (simp add: req_ok_def)
      then show ?thesis using True sh by (simp add: shut_request_def put_event_def)
    qed (use sh in simp)
  qed
  ultimately show ?thesis using e' f by (intro exI [of _ e']) (simp only:, blast)
qed

definition stopping_run :: "move list" where
  "stopping_run = serving_run @ [Stop, Move_task ''1'' DeliverCancel, Move_task ''2'' DeliverCancel]"

theorem shutdown_answers_queued_requests_witness:
  "\<exists>e' q'. stop_gathered (after stopping_run) = Some e' \<and> eng_store e' ''3'' = Some q'
     \<and> qr_events q' = [StreamError ''router shutting down'' 503]"
proof -
  let ?e = "after stopping_run"
  have "(case eng_store ?e ''3'' of Some q \<Rightarrow> qr_state q = QUEUED | None \<Rightarrow> False)" by code_simp
  then obtain q where q: "eng_store ?e ''3'' = Some q" "qr_state q = QUEUED" by (auto split: option.splits)
  have "eng_pc ?e = StopGather" "all_done ?e" by code_simp+
  from shutdown_answers_queued_requests [OF after_reachable this] obtain e' where e': "stop_gathered ?e = Some e'"
    "\<forall>r q. eng_store ?e r = Some q \<longrightarrow>
         (if qr_state q = QUEUED
          then \<exists>q'. eng_store e' r = Some q' \<and> qr_state q' = CANCELLED
            \<and> qr_events q' = [StreamError ''router shutting down'' 503]
          else eng_store e' r = Some q)" by blast
  from e'(2) [rule_format, OF q(1)] q(2) e'(1) show ?thesis by auto
qed

text \<open>
  What a shutdown does with the GPU. Stopped when no task is running, the engine reaches its
  end in at most three moves, and releases the GPU when a model is resident; stopped in the middle
  of a swap, when no model is resident, it leaves whatever holds the GPU there: the backend that
  was being loaded (or unloaded) is never stopped.
\<close>

theorem shutdown_releases_only_the_resident:
  assumes "reachable c t0 e" and "\<not> stopping (eng_pc e)" and "all_done e"
  shows "\<exists>k e'. run (Stop # replicate k Resume) e = Some e' \<and> eng_pc e' = Stopped
    \<and> eng_gpu e' = (case eng_resident e of Some m \<Rightarrow> [] | None \<Rightarrow> eng_gpu e)"
proof -
  have r1: "reachable c t0 (stop_begin e)"
    using reachable.step [OF assms(1) engine_step.stop [OF assms(2)]] .
  have pc: "eng_pc (stop_begin e) = StopGather" by (simp add: stop_begin_def)
  note inv = reachable_inv [OF r1, unfolded engine_inv_def pc]
  have same: "eng_resident (stop_begin e) = eng_resident e" "eng_gpu (stop_begin e) = eng_gpu e"
    "all_done (stop_begin e)"
    using assms(3) by (auto simp: stop_begin_def cancel_tasks_def cancel_loop_def emit_def all_done_def
        list_all_iff split: loop_pc.splits)
  obtain qs' where eq: "stop_gathered (stop_begin e) = Some (let e = (stop_begin e)\<lparr>eng_in_flight := [],
        eng_store := shut_store (queued_ids (eng_queues (stop_begin e))) (eng_store (stop_begin e)),
        eng_queues := qs'\<rparr> in
      (case eng_resident e of None \<Rightarrow> e\<lparr>eng_pc := Stopped\<rparr> | Some m \<Rightarrow> e\<lparr>eng_pc := StopWait m\<rparr>))"
    using stop_gathered_eq [OF inv] by blast
  have s1: "do_move Stop e = Some (stop_begin e)" using assms(2) by simp
  have s2: "do_move Resume (stop_begin e) = stop_gathered (stop_begin e)"
    using pc same(3) by (simp add: resume_def)
  show ?thesis
  proof (cases "eng_resident e")
    case None
    obtain e' where e': "stop_gathered (stop_begin e) = Some e'" "eng_pc e' = Stopped" "eng_gpu e' = eng_gpu e"
      using eq None same by (auto simp: Let_def)
    then have "run (Stop # replicate 1 Resume) e = Some e'"
      using s1 s2 by (simp del: do_move.simps)
    with e' None show ?thesis by (metis option.simps(4))
  next
    case (Some m)
    obtain e' where e': "stop_gathered (stop_begin e) = Some e'" "eng_pc e' = StopWait m" "eng_gpu e' = eng_gpu e"
      using eq Some same by (auto simp: Let_def)
    have gpu: "eng_gpu e = [m]" using phase_gpu(2) reachable_phase [OF assms(1)] Some by (auto simp: phase_inv_def)
    have "do_move Resume e' = Some (stop_finish m e')" using e'(2) by (simp add: resume_def)
    then have "run (Stop # replicate 2 Resume) e = Some (stop_finish m e')"
      using s1 s2 e'(1) by (simp add: numeral_2_eq_2 del: do_move.simps)
    moreover have "eng_gpu (stop_finish m e') = []" "eng_pc (stop_finish m e') = Stopped"
      using e'(3) gpu by (simp_all add: stop_finish_def)
    ultimately show ?thesis using Some by (metis option.simps(5))
  qed
qed

theorem shutdown_releases_only_the_resident_witness:
  "\<exists>k e'. run (Stop # replicate k Resume) (after [Start, Arrive (req_for ''a'') ''1'', Resume]) = Some e'
     \<and> eng_pc e' = Stopped \<and> eng_gpu e' = [''a'']"
proof -
  let ?e = "after [Start, Arrive (req_for ''a'') ''1'', Resume]"
  have "\<not> stopping (eng_pc ?e)" "all_done ?e" "eng_resident ?e = None" "eng_gpu ?e = [''a'']" by code_simp+
  with shutdown_releases_only_the_resident [OF after_reachable this(1,2)] show ?thesis by simp
qed

subsection \<open>The running average\<close>

text \<open>
  The average duration of a model moves only on a completed request of that model, and then
  to a value between the previous average and the observed duration.
\<close>

theorem mean_moves_towards_completions:
  assumes "eng_store e r = Some q" and "eng_mean_seconds e (qr_model q) = Some p"
  shows "\<exists>x. eng_mean_seconds (observe_duration r e) = (eng_mean_seconds e)(qr_model q \<mapsto> x)
    \<and> (qr_state q \<noteq> DONE \<longrightarrow> x = p)
    \<and> (\<forall>s f. qr_state q = DONE \<and> qr_started_at q = Some s \<and> qr_finished_at q = Some f \<longrightarrow>
          min p (max 0 (f - s)) \<le> x \<and> x \<le> max p (max 0 (f - s)))"
proof (cases "qr_state q = DONE \<and> qr_started_at q \<noteq> None \<and> qr_finished_at q \<noteq> None")
  case False
  then have "observe_duration r e = e"
    using assms(1) by (auto simp: observe_duration_def split: option.splits)
  then show ?thesis using assms(2) False
    by (intro exI [of _ p]) (auto simp: fun_upd_idem)
next
  case True
  then obtain s f where sf: "qr_state q = DONE" "qr_started_at q = Some s" "qr_finished_at q = Some f" by auto
  let ?o = "max 0 (f - s)"
  have "eng_mean_seconds (observe_duration r e)
      = (eng_mean_seconds e)(qr_model q \<mapsto> ewma_alpha * ?o + (1 - ewma_alpha) * p)"
    using assms sf by (simp add: observe_duration_def Let_def)
  moreover have "min p ?o \<le> ewma_alpha * ?o + (1 - ewma_alpha) * p"
    "ewma_alpha * ?o + (1 - ewma_alpha) * p \<le> max p ?o"
    by (auto simp: ewma_alpha_def min_def max_def)
  ultimately show ?thesis using sf by auto
qed

theorem mean_moves_towards_completions_witness:
  "\<exists>x. eng_mean_seconds (observe_duration ''1'' (after unloading_run)) ''a'' = Some x
     \<and> min (the (eng_mean_seconds (after unloading_run) ''a'')) 200 \<le> x"
proof -
  let ?e = "after unloading_run"
  have "(case eng_store ?e ''1'' of Some q \<Rightarrow> qr_state q = DONE \<and> qr_started_at q = Some 5
      \<and> qr_finished_at q = Some 205 \<and> qr_model q = ''a'' | None \<Rightarrow> False)"
    "(case eng_mean_seconds ?e ''a'' of None \<Rightarrow> False | Some _ \<Rightarrow> True)" by code_simp+
  then obtain q p where q: "eng_store ?e ''1'' = Some q" "qr_state q = DONE" "qr_started_at q = Some 5"
    "qr_finished_at q = Some 205" "qr_model q = ''a''" "eng_mean_seconds ?e ''a'' = Some p"
    by (auto split: option.splits)
  have p: "eng_mean_seconds ?e (qr_model q) = Some p" using q(5,6) by simp
  from mean_moves_towards_completions [OF q(1) p] q show ?thesis by auto
qed

end
