(* ===== verification/Sir_Schemas.thy ===== *)
theory Sir_Schemas
  imports Sir_Types
begin

text \<open>
  The wire types of \<open>src/src/sir/schemas.py\<close> that carry behaviour: the request with its
  translation into the backend's request, the completion response and its rendering, and the
  error envelope. Validation and serialisation are pydantic's: \<open>cr_dump\<close> is what
  \<open>model_dump(exclude_unset=True)\<close> returns for the validated body. The creation time and the
  constant \<open>object\<close> tags of the response types are left out.
\<close>

subsection \<open>Requests\<close>

record chat_message =
  cm_role :: string
  cm_content :: "string option"

record chat_request =
  cr_model :: string
  cr_messages :: "chat_message list"
  cr_stream :: bool
  cr_dump :: "(string \<times> json) list"

definition to_generation_request :: "chat_request \<Rightarrow> string \<Rightarrow> string \<Rightarrow> string \<Rightarrow> generation_request" where
  "to_generation_request body internal_name backend_tag request_id =
     (let payload = AList.update ''model'' (JStr backend_tag) (cr_dump body)
      in \<lparr>gr_model = internal_name, gr_served_model = cr_model body, gr_payload = payload,
          gr_request_id = request_id\<rparr>)"

text \<open>\<open>''\n''.join(...)\<close>; an absent or empty content is rendered empty.\<close>

fun py_join :: "string \<Rightarrow> string list \<Rightarrow> string" where
  "py_join sep [] = []"
| "py_join sep [s] = s"
| "py_join sep (s # t # ss) = s @ sep @ py_join sep (t # ss)"

definition render_message :: "chat_message \<Rightarrow> string" where
  "render_message m = cm_role m @ '': '' @ (case cm_content m of None \<Rightarrow> [] | Some c \<Rightarrow> c)"

definition render_prompt :: "chat_message list \<Rightarrow> string" where
  "render_prompt ms = py_join [CHR 0x0A] (map render_message ms)"

text \<open>\<open>len(s.split())\<close>: the number of maximal runs of characters that are not white space.\<close>

fun count_words :: "bool \<Rightarrow> string \<Rightarrow> nat" where
  "count_words inside [] = 0"
| "count_words inside (c # cs) =
     (if py_space c then count_words False cs
      else (if inside then 0 else 1) + count_words True cs)"

subsection \<open>Responses\<close>

record usage_counts =
  us_prompt_tokens :: int
  us_completion_tokens :: int
  us_total_tokens :: int

record chat_response =
  rp_id :: string
  rp_model :: string
  rp_content :: string
  rp_finish_reason :: string
  rp_usage :: usage_counts

text \<open>\<open>Usage(**usage)\<close>: absent counts are 0, other keys are ignored.\<close>

definition usage_of :: "usage \<Rightarrow> usage_counts" where
  "usage_of u =
     (let count = (\<lambda>k. case map_of u k of Some n \<Rightarrow> n | None \<Rightarrow> 0)
      in \<lparr>us_prompt_tokens = count ''prompt_tokens'',
          us_completion_tokens = count ''completion_tokens'', us_total_tokens = count ''total_tokens''\<rparr>)"

text \<open>
  \<open>build_response\<close>, with the response id always given: both callers pass
  \<open>chatcmpl-<request id>\<close>, which is not empty.
\<close>

definition build_response ::
    "chat_request \<Rightarrow> string list \<Rightarrow> string \<Rightarrow> string \<Rightarrow> usage option \<Rightarrow> chat_response" where
  "build_response body parts finish_reason response_id usage =
     (let usage = (case usage of
            Some u \<Rightarrow> u
          | None \<Rightarrow>
              let prompt_tokens = int (count_words False (render_prompt (cr_messages body)))
              in [(''prompt_tokens'', prompt_tokens), (''completion_tokens'', int (length parts)),
                  (''total_tokens'', prompt_tokens + int (length parts))])
      in \<lparr>rp_id = response_id, rp_model = cr_model body, rp_content = concat parts,
          rp_finish_reason = finish_reason, rp_usage = usage_of usage\<rparr>)"

record wait_info =
  wi_position :: nat
  wi_resident :: bool
  wi_needs_swap :: bool
  wi_load_seconds :: seconds
  wi_dispatch_within_seconds :: "seconds option"
  wi_estimated_seconds :: seconds

record error_info =
  er_message :: string
  er_type :: string
  er_code :: "string option"

definition error_body :: "string \<Rightarrow> string \<Rightarrow> string option \<Rightarrow> error_info" where
  "error_body message kind code = \<lparr>er_message = message, er_type = kind, er_code = code\<rparr>"

record job_document =
  jd_id :: string
  jd_status :: string
  jd_model :: string
  jd_wait :: "wait_info option"
  jd_retry_after :: seconds
  jd_response :: "chat_response option"
  jd_error :: "error_info option"

subsection \<open>Pass-through\<close>

text \<open>
  The body is forwarded as sent: the backend's request has the tag the backend answers to
  under \<open>model\<close>, every other field the client set, with its value, and no field the client did
  not set; positions are kept when the client set \<open>model\<close>, which validation requires.
\<close>

theorem forwarded_body_is_the_clients:
  "payload_get (gr_payload (to_generation_request body m tag i)) ''model'' = JStr tag
   \<and> (\<forall>k. k \<noteq> ''model'' \<longrightarrow>
        map_of (gr_payload (to_generation_request body m tag i)) k = map_of (cr_dump body) k)
   \<and> (''model'' \<in> fst ` set (cr_dump body) \<longrightarrow>
        map fst (gr_payload (to_generation_request body m tag i)) = map fst (cr_dump body))
   \<and> gr_model (to_generation_request body m tag i) = m
   \<and> gr_served_model (to_generation_request body m tag i) = cr_model body"
  by (simp add: to_generation_request_def payload_get_def update_keys_mem)

definition sample_body :: chat_request where
  "sample_body = \<lparr>cr_model = ''A'', cr_messages = [\<lparr>cm_role = ''user'', cm_content = Some ''hello there''\<rparr>],
     cr_stream = False,
     cr_dump = [(''model'', JStr ''A''), (''messages'', JList []), (''top_p'', JFloat (1 / 2))]\<rparr>"

theorem forwarded_body_is_the_clients_witness:
  "map_of (gr_payload (to_generation_request sample_body ''a'' ''AA'' '''')) ''top_p'' = Some (JFloat (1 / 2))
   \<and> map fst (gr_payload (to_generation_request sample_body ''a'' ''AA'' '''')) = [''model'', ''messages'', ''top_p'']"
proof -
  have "''model'' \<in> fst ` set (cr_dump sample_body)" "''top_p'' \<noteq> ''model''"
    "map_of (cr_dump sample_body) ''top_p'' = Some (JFloat (1 / 2))"
    "map fst (cr_dump sample_body) = [''model'', ''messages'', ''top_p'']"
    by (simp_all add: sample_body_def)
  with forwarded_body_is_the_clients [of sample_body "''a''" "''AA''" "''''"] show ?thesis by metis
qed

text \<open>The usage reported by the backend wins; without one, the words of the prompt and the chunks count.\<close>

lemma build_response_usage:
  "rp_usage (build_response body parts reason i (Some u)) = usage_of u"
  "rp_usage (build_response body parts reason i None) =
     \<lparr>us_prompt_tokens = int (count_words False (render_prompt (cr_messages body))),
      us_completion_tokens = int (length parts),
      us_total_tokens = int (count_words False (render_prompt (cr_messages body))) + int (length parts)\<rparr>"
  by (simp_all add: build_response_def usage_of_def Let_def)

end
