(* ===== verification/Sir_Jobs.thy ===== *)
theory Sir_Jobs
  imports Sir_Queues Sir_Config Sir_Schemas
begin

text \<open>
  The job store of \<open>src/src/sir/jobs.py\<close>: results held for clients that poll. A job's request
  is the shared \<open>QueuedRequest\<close>, so the operations take and return the store of requests beside
  the state of the job store; \<open>now\<close> is the reading of the clock. The pump of a job (the task
  running \<open>_drain\<close>) has read the first \<open>jb_read\<close> events of the request's channel; one round of
  its loop is \<open>pump_step\<close>. A cancelled pump runs its \<open>finally\<close> clause in
  \<open>pump_cancelled\<close>.
\<close>

subsection \<open>State\<close>

datatype pump_state = Pumping | PumpCancelling | PumpDone

record job =
  jb_id :: rid
  jb_body :: chat_request
  jb_created_at :: seconds
  jb_last_polled_at :: seconds
  jb_idempotency_key :: "string option"
  jb_chunks :: "(string \<times> nat) list"
  jb_terminal :: "stream_event option"
  jb_finished_at :: "seconds option"
  jb_first_read_at :: "seconds option"
  jb_pump :: pump_state
  jb_read :: nat

record job_store =
  js_config :: jobs_config
  js_jobs :: "(rid \<times> job) list"
  js_by_key :: "string \<rightharpoonup> rid"
  js_running :: bool

definition init_job_store :: "jobs_config \<Rightarrow> job_store" where
  "init_job_store config =
     \<lparr>js_config = config, js_jobs = [], js_by_key = Map.empty, js_running = False\<rparr>"

text \<open>
  \<open>Job.state\<close>, derived from the terminator and the request. The request of a job is always in
  the store, since the job holds it; the \<open>None\<close> case never arises.
\<close>

definition job_state :: "store \<Rightarrow> job \<Rightarrow> request_state" where
  "job_state st j =
     (case jb_terminal j of
        Some (StreamError _ _) \<Rightarrow> FAILED
      | Some (StreamEnd _ _) \<Rightarrow> DONE
      | _ \<Rightarrow>
          if is_cancelled st (jb_id j) then CANCELLED
          else (case st (jb_id j) of Some q \<Rightarrow> qr_state q | None \<Rightarrow> QUEUED))"

definition is_terminal :: "store \<Rightarrow> job \<Rightarrow> bool" where
  "is_terminal st j \<longleftrightarrow> job_state st j \<in> {DONE, FAILED, CANCELLED}"

definition job_texts :: "job \<Rightarrow> string list" where
  "job_texts j = map fst (jb_chunks j)"

definition job_finish_reason :: "job \<Rightarrow> string" where
  "job_finish_reason j = (case jb_terminal j of Some (StreamEnd reason _) \<Rightarrow> reason | _ \<Rightarrow> ''stop'')"

definition job_usage :: "job \<Rightarrow> usage option" where
  "job_usage j = (case jb_terminal j of Some (StreamEnd _ u) \<Rightarrow> u | _ \<Rightarrow> None)"

definition upd_job :: "rid \<Rightarrow> (job \<Rightarrow> job) \<Rightarrow> job_store \<Rightarrow> job_store" where
  "upd_job i f js = js\<lparr>js_jobs := map (\<lambda>(k, j). (k, if k = i then f j else j)) (js_jobs js)\<rparr>"

subsection \<open>Submission\<close>

definition forget :: "job \<Rightarrow> job_store \<Rightarrow> job_store" where
  "forget j js = js\<lparr>js_jobs := AList.delete (jb_id j) (js_jobs js),
     js_by_key := (case jb_idempotency_key j of None \<Rightarrow> js_by_key js | Some k \<Rightarrow> (js_by_key js)(k := None))\<rparr>"

text \<open>\<open>job.finished_at or job.created_at\<close>: a time of 0.0 is falsy.\<close>

definition evict_key :: "job \<Rightarrow> seconds" where
  "evict_key j = (case jb_finished_at j of None \<Rightarrow> jb_created_at j
     | Some t \<Rightarrow> if t = 0 then jb_created_at j else t)"

datatype job_error = JobStoreFull nat

definition make_room :: "store \<Rightarrow> job_store \<Rightarrow> job_error + job_store" where
  "make_room st js =
     (if int (length (js_jobs js)) < jc_max_jobs (js_config js) then Inr js
      else case sort_key evict_key (filter (is_terminal st) (map snd (js_jobs js))) of
        [] \<Rightarrow> Inl (JobStoreFull (length (js_jobs js)))
      | j # _ \<Rightarrow> Inr (forget j js))"

definition new_job :: "seconds \<Rightarrow> rid \<Rightarrow> chat_request \<Rightarrow> string option \<Rightarrow> job" where
  "new_job now r body key =
     \<lparr>jb_id = r, jb_body = body, jb_created_at = now, jb_last_polled_at = now,
      jb_idempotency_key = key, jb_chunks = [], jb_terminal = None, jb_finished_at = None,
      jb_first_read_at = None, jb_pump = Pumping, jb_read = 0\<rparr>"

definition insert_job :: "job \<Rightarrow> job_store \<Rightarrow> job_store" where
  "insert_job j js = js\<lparr>js_jobs := AList.update (jb_id j) j (js_jobs js),
     js_by_key := (case jb_idempotency_key j of None \<Rightarrow> js_by_key js | Some k \<Rightarrow> (js_by_key js)(k \<mapsto> jb_id j))\<rparr>"

definition create_job ::
    "seconds \<Rightarrow> store \<Rightarrow> rid \<Rightarrow> chat_request \<Rightarrow> string option \<Rightarrow> job_store \<Rightarrow> job_error + job \<times> job_store" where
  "create_job now st r body key js =
     (let j = new_job now r body key in
      case make_room st js of Inl e \<Rightarrow> Inl e | Inr js \<Rightarrow> Inr (j, insert_job j js))"

definition find_by_key :: "string \<Rightarrow> job_store \<Rightarrow> job option" where
  "find_by_key key js =
     (case js_by_key js key of
        None \<Rightarrow> None
      | Some i \<Rightarrow> if i = [] then None else map_of (js_jobs js) i)"

subsection \<open>Reads and cancellation\<close>

definition poll :: "seconds \<Rightarrow> store \<Rightarrow> job \<Rightarrow> job" where
  "poll now st j =
     (let j = j\<lparr>jb_last_polled_at := now\<rparr> in
      if is_terminal st j \<and> jb_first_read_at j = None then j\<lparr>jb_first_read_at := Some now\<rparr> else j)"

definition get_job :: "seconds \<Rightarrow> store \<Rightarrow> rid \<Rightarrow> job_store \<Rightarrow> job option \<times> job_store" where
  "get_job now st i js =
     (case map_of (js_jobs js) i of
        None \<Rightarrow> (None, js)
      | Some j \<Rightarrow> (Some (poll now st j), upd_job i (poll now st) js))"

definition abandon_job :: "seconds \<Rightarrow> job \<Rightarrow> job" where
  "abandon_job now j =
     (let j = (if jb_pump j = Pumping then j\<lparr>jb_pump := PumpCancelling\<rparr> else j) in
      if jb_finished_at j = None then j\<lparr>jb_finished_at := Some now\<rparr> else j)"

definition abandon :: "seconds \<Rightarrow> rid \<Rightarrow> store \<times> job_store \<Rightarrow> store \<times> job_store" where
  "abandon now i s = (upd_req i qr_cancel (fst s), upd_job i (abandon_job now) (snd s))"

definition cancel_job ::
    "seconds \<Rightarrow> rid \<Rightarrow> store \<times> job_store \<Rightarrow> job option \<times> (store \<times> job_store)" where
  "cancel_job now i s =
     (case map_of (js_jobs (snd s)) i of
        None \<Rightarrow> (None, s)
      | Some j \<Rightarrow> (Some (abandon_job now j), abandon now i s))"

subsection \<open>The pump\<close>

text \<open>One event taken from the channel; \<open>None\<close> while it is empty or the pump is not running.\<close>

definition pump_step :: "seconds \<Rightarrow> store \<Rightarrow> job \<Rightarrow> job option" where
  "pump_step now st j =
     (case st (jb_id j) of
        None \<Rightarrow> None
      | Some q \<Rightarrow>
          if jb_pump j \<noteq> Pumping \<or> length (qr_events q) \<le> jb_read j then None
          else Some (case qr_events q ! jb_read j of
              Chunk text index \<Rightarrow>
                j\<lparr>jb_chunks := jb_chunks j @ [(text, index)], jb_read := Suc (jb_read j)\<rparr>
            | event \<Rightarrow>
                j\<lparr>jb_terminal := Some event, jb_finished_at := Some now, jb_pump := PumpDone,
                  jb_read := Suc (jb_read j)\<rparr>))"

definition pump_cancelled :: "seconds \<Rightarrow> job \<Rightarrow> job" where
  "pump_cancelled now j =
     (if jb_pump j = PumpCancelling then j\<lparr>jb_finished_at := Some now, jb_pump := PumpDone\<rparr> else j)"

subsection \<open>Expiry\<close>

definition lease_lapsed :: "jobs_config \<Rightarrow> seconds \<Rightarrow> store \<Rightarrow> job \<Rightarrow> bool" where
  "lease_lapsed config now st j \<longleftrightarrow>
     jc_lease_seconds config \<noteq> 0 \<and> \<not> is_terminal st j
     \<and> jc_lease_seconds config < now - jb_last_polled_at j"

definition expires_at :: "jobs_config \<Rightarrow> job \<Rightarrow> seconds option" where
  "expires_at config j =
     (case jb_finished_at j of
        None \<Rightarrow> None
      | Some finished \<Rightarrow>
          (case jb_first_read_at j of
             Some first_read \<Rightarrow> Some (first_read + jc_read_ttl_seconds config)
           | None \<Rightarrow> Some (finished + jc_result_ttl_seconds config)))"

definition sweep_job :: "seconds \<Rightarrow> job \<Rightarrow> store \<times> job_store \<Rightarrow> store \<times> job_store" where
  "sweep_job now j s =
     (let config = js_config (snd s) in
      if lease_lapsed config now (fst s) j then abandon now (jb_id j) s
      else if \<not> is_terminal (fst s) j then s
      else case expires_at config j of
        None \<Rightarrow> s
      | Some t \<Rightarrow> if t \<le> now then (fst s, forget j (snd s)) else s)"

definition sweep_once :: "seconds \<Rightarrow> store \<times> job_store \<Rightarrow> store \<times> job_store" where
  "sweep_once now s = fold (sweep_job now) (map snd (js_jobs (snd s))) s"

subsection \<open>Lifecycle\<close>

definition start_jobs :: "job_store \<Rightarrow> job_store" where
  "start_jobs js = (if js_running js then js else js\<lparr>js_running := True\<rparr>)"

text \<open>\<open>stop\<close> cancels the sweeper and every pump, waits for them, and forgets everything.\<close>

definition stop_jobs :: "job_store \<Rightarrow> job_store" where
  "stop_jobs js = js\<lparr>js_running := False, js_jobs := [], js_by_key := Map.empty\<rparr>"

definition job_count :: "job_store \<Rightarrow> nat" where
  "job_count js = length (js_jobs js)"

subsection \<open>The invariant\<close>

definition chunk_event :: "string \<times> nat \<Rightarrow> stream_event" where
  "chunk_event c = Chunk (fst c) (snd c)"

text \<open>
  What a job has is what its pump has read: the chunks in order and, once the pump met one, the
  terminator. A job without a terminator has an end time only when its request is cancelled.
\<close>

definition job_ok :: "store \<Rightarrow> rid \<Rightarrow> job \<Rightarrow> bool" where
  "job_ok st i j \<longleftrightarrow> jb_id j = i \<and> i \<noteq> []
     \<and> (\<exists>q. st i = Some q \<and> jb_read j \<le> length (qr_events q)
          \<and> take (jb_read j) (qr_events q) = map chunk_event (jb_chunks j)
              @ (case jb_terminal j of None \<Rightarrow> [] | Some ev \<Rightarrow> [ev]))
     \<and> (\<forall>ev. jb_terminal j = Some ev \<longrightarrow> \<not> is_chunk ev \<and> jb_finished_at j \<noteq> None \<and> jb_pump j = PumpDone)
     \<and> (jb_pump j \<noteq> Pumping \<longrightarrow> jb_finished_at j \<noteq> None)
     \<and> (jb_finished_at j \<noteq> None \<longrightarrow> jb_terminal j \<noteq> None \<or> is_cancelled st i)
     \<and> (jb_first_read_at j \<noteq> None \<longrightarrow> is_terminal st j)"

text \<open>
  The index of idempotency keys is exactly the keys of the jobs held, but for the empty key: the
  API looks up no empty \<open>Idempotency-Key\<close>, so several jobs can be created under it.
\<close>

definition index_ok :: "(string \<rightharpoonup> rid) \<Rightarrow> (rid \<times> job) list \<Rightarrow> bool" where
  "index_ok by_key jobs \<longleftrightarrow>
     (\<forall>k i. k \<noteq> [] \<longrightarrow> by_key k = Some i \<longleftrightarrow> (\<exists>j. (i, j) \<in> set jobs \<and> jb_idempotency_key j = Some k))"

definition jobs_inv :: "store \<Rightarrow> job_store \<Rightarrow> bool" where
  "jobs_inv st js \<longleftrightarrow> distinct (map fst (js_jobs js)) \<and> (\<forall>(i, j) \<in> set (js_jobs js). job_ok st i j)
     \<and> index_ok (js_by_key js) (js_jobs js)
     \<and> 0 < jc_max_jobs (js_config js) \<and> int (length (js_jobs js)) \<le> jc_max_jobs (js_config js)"

lemma jobs_invD:
  assumes "jobs_inv st js"
  shows "distinct (map fst (js_jobs js))" and "(i, j) \<in> set (js_jobs js) \<Longrightarrow> job_ok st i j"
    and "index_ok (js_by_key js) (js_jobs js)"
    and "0 < jc_max_jobs (js_config js)" "int (length (js_jobs js)) \<le> jc_max_jobs (js_config js)"
  using assms by (auto simp: jobs_inv_def)

lemma job_ok_id: "job_ok st i j \<Longrightarrow> jb_id j = i"
  by (simp add: job_ok_def)

lemma jobs_mem:
  assumes "jobs_inv st js" and "j \<in> set (map snd (js_jobs js))"
  shows "(jb_id j, j) \<in> set (js_jobs js)" and "map_of (js_jobs js) (jb_id j) = Some j"
proof -
  obtain i where i: "(i, j) \<in> set (js_jobs js)" using assms(2) by auto
  then have "jb_id j = i" using jobs_invD(2) [OF assms(1)] job_ok_id by blast
  with i show "(jb_id j, j) \<in> set (js_jobs js)" by simp
  then show "map_of (js_jobs js) (jb_id j) = Some j" using jobs_invD(1) [OF assms(1)] by simp
qed

lemma init_jobs_inv: "0 < jc_max_jobs c \<Longrightarrow> jobs_inv st (init_job_store c)"
  by (simp add: jobs_inv_def init_job_store_def index_ok_def)

lemma start_jobs_inv: "jobs_inv st (start_jobs js) = jobs_inv st js"
  by (simp add: jobs_inv_def start_jobs_def)

lemma stop_jobs_inv: "jobs_inv st js \<Longrightarrow> jobs_inv st (stop_jobs js)"
  by (simp add: jobs_inv_def stop_jobs_def index_ok_def)

text \<open>Jobs changed one by one, without touching ids and keys.\<close>

lemma jobs_inv_map:
  assumes inv: "jobs_inv st js" and "js' = js\<lparr>js_jobs := map (\<lambda>(k, j). (k, f k j)) (js_jobs js)\<rparr>"
    and ok: "\<And>i j. (i, j) \<in> set (js_jobs js) \<Longrightarrow> job_ok st' i (f i j) \<and> jb_idempotency_key (f i j) = jb_idempotency_key j"
  shows "jobs_inv st' js'"
proof -
  have "map fst (map (\<lambda>(k, j). (k, f k j)) xs) = map fst xs" for xs by (induction xs) auto
  moreover have "index_ok (js_by_key js) (map (\<lambda>(k, j). (k, f k j)) (js_jobs js))"
    using jobs_invD(3) [OF inv] ok unfolding index_ok_def by fastforce
  ultimately show ?thesis
    using inv ok unfolding jobs_inv_def assms(2) by (auto simp del: map_map)
qed

lemma upd_job_inv:
  assumes inv: "jobs_inv st js"
    and ok: "\<And>j. (i, j) \<in> set (js_jobs js) \<Longrightarrow> job_ok st i (f j) \<and> jb_idempotency_key (f j) = jb_idempotency_key j"
  shows "jobs_inv st (upd_job i f js)"
  by (rule jobs_inv_map [OF inv, of _ "\<lambda>k j. if k = i then f j else j"])
    (use ok jobs_invD(2) [OF inv] in \<open>auto simp: upd_job_def\<close>)

text \<open>The requests move on: channels grow, cancellations and final states stay.\<close>

definition requests_grow :: "store \<Rightarrow> store \<Rightarrow> bool" where
  "requests_grow st st' \<longleftrightarrow> (\<forall>i q. st i = Some q \<longrightarrow> (\<exists>q' evs. st' i = Some q'
     \<and> qr_events q' = qr_events q @ evs \<and> (qr_cancelled q \<longrightarrow> qr_cancelled q')
     \<and> (qr_state q \<in> {DONE, FAILED, CANCELLED} \<longrightarrow> qr_state q' = qr_state q)))"

lemma is_terminal_grow:
  assumes "requests_grow st st'" and "st (jb_id j) = Some q" and "is_terminal st j"
  shows "is_terminal st' j"
proof -
  from assms(1,2) obtain q' where "st' (jb_id j) = Some q'" "qr_cancelled q \<longrightarrow> qr_cancelled q'"
    "qr_state q \<in> {DONE, FAILED, CANCELLED} \<longrightarrow> qr_state q' = qr_state q"
    unfolding requests_grow_def by blast
  with assms(2,3) show ?thesis
    by (auto simp: is_terminal_def job_state_def is_cancelled_def split: option.splits stream_event.splits if_splits)
qed

lemma requests_grow_cancelled: "requests_grow st st' \<Longrightarrow> is_cancelled st i \<Longrightarrow> is_cancelled st' i"
  by (fastforce simp: requests_grow_def is_cancelled_def split: option.splits)

lemma job_ok_grow:
  assumes "requests_grow st st'" and "job_ok st i j"
  shows "job_ok st' i j"
proof -
  from assms(2) obtain q where q: "st i = Some q" "jb_read j \<le> length (qr_events q)"
    "take (jb_read j) (qr_events q) = map chunk_event (jb_chunks j)
        @ (case jb_terminal j of None \<Rightarrow> [] | Some ev \<Rightarrow> [ev])" by (auto simp: job_ok_def)
  from assms(1) q(1) obtain q' evs where q': "st' i = Some q'" "qr_events q' = qr_events q @ evs"
    unfolding requests_grow_def by blast
  have "take (jb_read j) (qr_events q') = take (jb_read j) (qr_events q)" using q(2) q'(2) by simp
  moreover have "jb_first_read_at j \<noteq> None \<longrightarrow> is_terminal st' j"
    using assms is_terminal_grow [OF assms(1), of j] by (auto simp: job_ok_def)
  ultimately show ?thesis
    using assms q q' requests_grow_cancelled [OF assms(1)] by (auto simp: job_ok_def)
qed

lemma requests_grow_inv:
  assumes "requests_grow st st'" and "jobs_inv st js"
  shows "jobs_inv st' js"
  using assms job_ok_grow by (fastforce simp: jobs_inv_def)

lemma requests_grow_cancel: "requests_grow st (upd_req i qr_cancel st)"
  by (auto simp: requests_grow_def upd_req_def qr_cancel_def split: option.splits)

text \<open>The state of a job depends on its terminator and its own request only.\<close>

lemma is_terminal_cong [simp]:
  "is_terminal st (j\<lparr>jb_last_polled_at := a\<rparr>) = is_terminal st j"
  "is_terminal st (j\<lparr>jb_first_read_at := b\<rparr>) = is_terminal st j"
  "is_terminal st (j\<lparr>jb_finished_at := b\<rparr>) = is_terminal st j"
  "is_terminal st (j\<lparr>jb_pump := p\<rparr>) = is_terminal st j"
  "is_terminal st (j\<lparr>jb_chunks := c\<rparr>) = is_terminal st j"
  "is_terminal st (j\<lparr>jb_read := n\<rparr>) = is_terminal st j"
  by (simp_all add: is_terminal_def job_state_def cong: option.case_cong stream_event.case_cong)

lemma is_terminal_terminated: "jb_terminal j = Some ev \<Longrightarrow> \<not> is_chunk ev \<Longrightarrow> is_terminal st j"
  by (cases ev) (simp_all add: is_terminal_def job_state_def)

lemma is_terminal_store: "st (jb_id j) = st' (jb_id j) \<Longrightarrow> is_terminal st j = is_terminal st' j"
  by (simp add: is_terminal_def job_state_def is_cancelled_def cong: option.case_cong stream_event.case_cong)

lemma poll_ok: "job_ok st i j \<Longrightarrow> job_ok st i (poll now st j)"
  by (simp add: poll_def job_ok_def Let_def)

lemma poll_key: "jb_idempotency_key (poll now st j) = jb_idempotency_key j"
  by (simp add: poll_def Let_def)

lemma get_job_inv: "jobs_inv st js \<Longrightarrow> jobs_inv st (snd (get_job now st i js))"
  using upd_job_inv [of st js i "poll now st"] poll_ok jobs_invD(2) [of st js i]
  by (simp add: get_job_def poll_key split: option.split)

lemma abandon_job_ok:
  assumes "job_ok st i j"
  shows "job_ok (upd_req i qr_cancel st) i (abandon_job now j)"
proof -
  have ok: "job_ok (upd_req i qr_cancel st) i j" using job_ok_grow [OF requests_grow_cancel assms] .
  have "is_cancelled (upd_req i qr_cancel st) i"
    using assms by (auto simp: job_ok_def is_cancelled_def upd_req_def qr_cancel_def)
  moreover have "is_terminal (upd_req i qr_cancel st) (abandon_job now j)" if "is_terminal (upd_req i qr_cancel st) j"
    using that by (simp add: abandon_job_def Let_def)
  ultimately show ?thesis using ok by (auto simp: job_ok_def abandon_job_def Let_def)
qed

lemma abandon_inv:
  assumes "jobs_inv (fst s) (snd s)"
  shows "jobs_inv (fst (abandon now i s)) (snd (abandon now i s))"
proof -
  note inv = requests_grow_inv [OF requests_grow_cancel [of "fst s" i] assms]
  have "jobs_inv (upd_req i qr_cancel (fst s)) (upd_job i (abandon_job now) (snd s))"
    by (rule upd_job_inv [OF inv])
      (use abandon_job_ok jobs_invD(2) [OF assms] in \<open>auto simp: abandon_job_def Let_def\<close>)
  then show ?thesis by (simp add: abandon_def)
qed

lemma pump_step_ok:
  assumes "job_ok st i j" and "pump_step now st j = Some j'"
  shows "job_ok st i j' \<and> jb_idempotency_key j' = jb_idempotency_key j"
proof -
  from assms(1) obtain q where q: "st i = Some q" "jb_id j = i"
    "take (jb_read j) (qr_events q) = map chunk_event (jb_chunks j)
        @ (case jb_terminal j of None \<Rightarrow> [] | Some ev \<Rightarrow> [ev])" by (auto simp: job_ok_def)
  with assms(2) have p: "jb_pump j = Pumping" "jb_read j < length (qr_events q)"
    by (auto simp: pump_step_def split: if_splits)
  have none: "jb_terminal j = None"
    using assms(1) p(1) by (auto simp: job_ok_def)
  have tk: "take (Suc (jb_read j)) (qr_events q) = map chunk_event (jb_chunks j) @ [qr_events q ! jb_read j]"
    using q(3) p(2) none by (simp add: take_Suc_conv_app_nth)
  show ?thesis
  proof (cases "qr_events q ! jb_read j")
    case (Chunk tx n)
    with assms q p none tk show ?thesis
      by (auto simp: pump_step_def job_ok_def chunk_event_def)
  next
    case (StreamEnd reason u)
    with assms(2) q(1,2) p have "j' = j\<lparr>jb_terminal := Some (StreamEnd reason u), jb_finished_at := Some now,
        jb_pump := PumpDone, jb_read := Suc (jb_read j)\<rparr>"
      by (simp add: pump_step_def)
    with assms(1) q p tk StreamEnd show ?thesis by (simp add: job_ok_def is_terminal_terminated)
  next
    case (StreamError msg code)
    with assms(2) q(1,2) p have "j' = j\<lparr>jb_terminal := Some (StreamError msg code), jb_finished_at := Some now,
        jb_pump := PumpDone, jb_read := Suc (jb_read j)\<rparr>"
      by (simp add: pump_step_def)
    with assms(1) q p tk StreamError show ?thesis by (simp add: job_ok_def is_terminal_terminated)
  qed
qed

lemma pump_cancelled_ok: "job_ok st i j \<Longrightarrow> job_ok st i (pump_cancelled now j)"
  by (auto simp: job_ok_def pump_cancelled_def)

lemma pump_inv:
  assumes "jobs_inv st js" and "map_of (js_jobs js) i = Some j" and "pump_step now st j = Some j'"
  shows "jobs_inv st (upd_job i (\<lambda>_. j') js)"
proof (rule upd_job_inv [OF assms(1)])
  fix j1 assume "(i, j1) \<in> set (js_jobs js)"
  then have "j1 = j" using assms(2) jobs_invD(1) [OF assms(1)] by simp
  with pump_step_ok [OF _ assms(3)] jobs_invD(2) [OF assms(1)] map_of_SomeD [OF assms(2)]
  show "job_ok st i j' \<and> jb_idempotency_key j' = jb_idempotency_key j1" by blast
qed

subsection \<open>Making room\<close>

lemma delete_filter: "AList.delete k xs = filter (\<lambda>p. fst p \<noteq> k) xs"
  by (induction xs) auto

lemma forget_inv:
  assumes inv: "jobs_inv st js" and j: "j \<in> set (map snd (js_jobs js))"
  shows "jobs_inv st (forget j js)" and "length (js_jobs js) = Suc (length (js_jobs (forget j js)))"
    and "(i, k) \<in> set (js_jobs (forget j js)) \<longleftrightarrow> (i, k) \<in> set (js_jobs js) \<and> i \<noteq> jb_id j"
proof -
  note d = jobs_invD(1) [OF inv] and ix = jobs_invD(3) [OF inv]
  have mem: "(jb_id j, j) \<in> set (js_jobs js)" using jobs_mem(1) [OF inv j] .
  have sub: "(i, k) \<in> set (js_jobs (forget j js)) \<longleftrightarrow> (i, k) \<in> set (js_jobs js) \<and> i \<noteq> jb_id j" for i k
    by (auto simp: forget_def delete_filter)
  then show "(i, k) \<in> set (js_jobs (forget j js)) \<longleftrightarrow> (i, k) \<in> set (js_jobs js) \<and> i \<noteq> jb_id j" .
  have keep: "jb_idempotency_key k \<noteq> Some x"
    if "(i, k) \<in> set (js_jobs js)" "i \<noteq> jb_id j" "jb_idempotency_key j = Some x" "x \<noteq> []" for i k x
    using ix that mem unfolding index_ok_def by (metis option.inject)
  have "index_ok (js_by_key (forget j js)) (js_jobs (forget j js))"
    unfolding index_ok_def
  proof (intro allI impI)
    fix k :: string and i assume ne: "k \<noteq> []"
    have gone: "x = j" if "(jb_id j, x) \<in> set (js_jobs js)" for x
      using that mem d by (metis map_of_eq_Some_iff option.inject)
    show "js_by_key (forget j js) k = Some i \<longleftrightarrow>
        (\<exists>x. (i, x) \<in> set (js_jobs (forget j js)) \<and> jb_idempotency_key x = Some k)"
    proof (cases "jb_idempotency_key j = Some k")
      case True
      then have "js_by_key (forget j js) k = None" by (simp add: forget_def)
      with True keep sub ne show ?thesis by force
    next
      case False
      then have "js_by_key (forget j js) k = js_by_key js k" by (auto simp: forget_def split: option.splits)
      moreover have "(\<exists>x. (i, x) \<in> set (js_jobs js) \<and> jb_idempotency_key x = Some k)
          \<longleftrightarrow> (\<exists>x. (i, x) \<in> set (js_jobs (forget j js)) \<and> jb_idempotency_key x = Some k)"
        using False gone sub by auto
      ultimately show ?thesis using ix ne unfolding index_ok_def by simp
    qed
  qed
  moreover have "distinct (map fst (js_jobs (forget j js)))"
    using d by (simp add: forget_def delete_filter distinct_map_filter)
  moreover have len: "length (js_jobs js) = Suc (length (js_jobs (forget j js)))"
  proof -
    have "filter (\<lambda>p. fst p = jb_id j) (js_jobs js) = [(jb_id j, j)]"
      using d mem
    proof (induction "js_jobs js" arbitrary: js)
      case Nil
      then show ?case by simp
    next
      case (Cons p ps)
      have "p # ps = js_jobs js" by fact
      then have "js_jobs js = p # ps" by simp
      have IH: "distinct (map fst ps) \<Longrightarrow> (jb_id j, j) \<in> set ps \<Longrightarrow> filter (\<lambda>p. fst p = jb_id j) ps = [(jb_id j, j)]"
        using Cons(1) [of "js\<lparr>js_jobs := ps\<rparr>"] by simp
      have none: "jb_id j \<notin> fst ` set ps \<Longrightarrow> filter (\<lambda>p. fst p = jb_id j) ps = []"
        by (force simp: filter_empty_conv)
      from Cons(3,4) IH none show ?case
        unfolding \<open>js_jobs js = p # ps\<close> by (cases "fst p = jb_id j") (auto simp: image_iff)
    qed
    moreover have "length (js_jobs js) = length (filter (\<lambda>p. fst p = jb_id j) (js_jobs js))
        + length (filter (\<lambda>p. fst p \<noteq> jb_id j) (js_jobs js))"
      by (simp add: sum_length_filter_compl)
    ultimately show ?thesis by (simp add: forget_def delete_filter)
  qed
  then show "length (js_jobs js) = Suc (length (js_jobs (forget j js)))" .
  ultimately show "jobs_inv st (forget j js)"
    using inv sub len by (auto simp: jobs_inv_def forget_def)
qed

lemma insert_inv:
  assumes inv: "jobs_inv st js" and "int (length (js_jobs js)) < jc_max_jobs (js_config js)"
    and ok: "job_ok st (jb_id j) j" and fresh: "jb_id j \<notin> fst ` set (js_jobs js)"
    and key: "\<forall>k. jb_idempotency_key j = Some k \<longrightarrow> k \<noteq> [] \<longrightarrow> js_by_key js k = None"
  shows "jobs_inv st (insert_job j js)"
    and "set (map snd (js_jobs (insert_job j js))) = insert j (set (map snd (js_jobs js)))"
    and "js_jobs (insert_job j js) = js_jobs js @ [(jb_id j, j)]"
proof -
  have app: "AList.update (jb_id j) j xs = xs @ [(jb_id j, j)]" if "jb_id j \<notin> fst ` set xs" for xs
    using that by (induction xs) auto
  show jobs: "js_jobs (insert_job j js) = js_jobs js @ [(jb_id j, j)]"
    using app fresh by (simp add: insert_job_def)
  then show "set (map snd (js_jobs (insert_job j js))) = insert j (set (map snd (js_jobs js)))" by simp
  have "index_ok (js_by_key (insert_job j js)) (js_jobs js @ [(jb_id j, j)])"
  proof (cases "jb_idempotency_key j")
    case None
    with jobs_invD(3) [OF inv] show ?thesis by (auto simp: index_ok_def insert_job_def)
  next
    case (Some k)
    have "jb_idempotency_key x \<noteq> Some k" if "(i, x) \<in> set (js_jobs js)" "k \<noteq> []" for i x
      using that key Some jobs_invD(3) [OF inv] unfolding index_ok_def by (metis option.distinct(1))
    with Some jobs_invD(3) [OF inv] show ?thesis by (auto simp: index_ok_def insert_job_def)
  qed
  then show "jobs_inv st (insert_job j js)"
    using inv assms(2) ok fresh jobs by (auto simp: jobs_inv_def insert_job_def)
qed

text \<open>
  The contract of an eviction policy, for any bounded table of entries some of which are
  protected: making room frees a slot at the cost of unprotected entries only, and is refused
  exactly when the table is full of protected ones. Admission is making room and inserting.
\<close>

locale bounded_table =
  fixes ok :: "'t \<Rightarrow> bool" and entries :: "'t \<Rightarrow> 'e set" and used :: "'t \<Rightarrow> nat"
    and limit :: "'t \<Rightarrow> nat" and evictable :: "'e \<Rightarrow> bool" and fresh :: "'e \<Rightarrow> 't \<Rightarrow> bool"
    and room :: "'t \<Rightarrow> 't option" and put :: "'e \<Rightarrow> 't \<Rightarrow> 't"
  assumes bounded: "ok t \<Longrightarrow> used t \<le> limit t"
    and room_frees: "ok t \<Longrightarrow> room t = Some t' \<Longrightarrow> ok t' \<and> used t' < limit t' \<and> limit t' = limit t"
    and room_evicts: "ok t \<Longrightarrow> room t = Some t' \<Longrightarrow> entries t' \<subseteq> entries t
      \<and> (\<forall>x \<in> entries t - entries t'. evictable x)"
    and room_refuses: "ok t \<Longrightarrow> room t = None \<longleftrightarrow> used t = limit t \<and> (\<forall>x \<in> entries t. \<not> evictable x)"
    and room_fresh: "ok t \<Longrightarrow> room t = Some t' \<Longrightarrow> fresh x t \<Longrightarrow> fresh x t'"
    and put_ok: "ok t \<Longrightarrow> used t < limit t \<Longrightarrow> fresh x t \<Longrightarrow>
      ok (put x t) \<and> entries (put x t) = insert x (entries t) \<and> limit (put x t) = limit t"
begin

definition admit :: "'e \<Rightarrow> 't \<Rightarrow> 't option" where
  "admit x t = map_option (put x) (room t)"

lemma admitE:
  assumes "ok t" "fresh x t" "admit x t = Some t'"
  obtains t1 where "room t = Some t1" "ok t1" "limit t1 = limit t" "entries t1 \<subseteq> entries t"
    "\<forall>x \<in> entries t - entries t1. evictable x" "ok t'" "entries t' = insert x (entries t1)" "limit t' = limit t"
proof -
  from assms(3) obtain t1 where t1: "room t = Some t1" "t' = put x t1" by (auto simp: admit_def)
  note r = room_frees [OF assms(1) t1(1)] room_evicts [OF assms(1) t1(1)] room_fresh [OF assms(1) t1(1) assms(2)]
  from r have "ok t1" "used t1 < limit t1" "fresh x t1" by blast+
  from put_ok [OF this] r that [OF t1(1)] t1(2) show thesis by auto
qed

lemma admit_ok: "ok t \<Longrightarrow> fresh x t \<Longrightarrow> admit x t = Some t' \<Longrightarrow> ok t' \<and> used t' \<le> limit t"
  by (erule admitE, assumption+) (use bounded [of t'] in auto)

lemma admit_present: "ok t \<Longrightarrow> fresh x t \<Longrightarrow> admit x t = Some t' \<Longrightarrow> x \<in> entries t'"
  by (erule admitE, assumption+) auto

lemma admit_protects:
  "ok t \<Longrightarrow> fresh x t \<Longrightarrow> admit x t = Some t' \<Longrightarrow> y \<in> entries t \<Longrightarrow> \<not> evictable y \<Longrightarrow> y \<in> entries t'"
  by (erule admitE, assumption+) auto

lemma admit_refused: "ok t \<Longrightarrow> admit x t = None \<longleftrightarrow> used t = limit t \<and> (\<forall>y \<in> entries t. \<not> evictable y)"
  using room_refuses unfolding admit_def by simp

end

definition job_fresh :: "store \<Rightarrow> job \<Rightarrow> job_store \<Rightarrow> bool" where
  "job_fresh st j js \<longleftrightarrow> job_ok st (jb_id j) j \<and> jb_id j \<notin> fst ` set (js_jobs js)
     \<and> (\<forall>k. jb_idempotency_key j = Some k \<longrightarrow> k \<noteq> [] \<longrightarrow> js_by_key js k = None)"

definition room_of :: "store \<Rightarrow> job_store \<Rightarrow> job_store option" where
  "room_of st js = (case make_room st js of Inl _ \<Rightarrow> None | Inr js' \<Rightarrow> Some js')"

lemma make_room_cases:
  assumes "jobs_inv st js"
  obtains (below) "int (length (js_jobs js)) < jc_max_jobs (js_config js)" "make_room st js = Inr js"
  | (evict) j where "int (length (js_jobs js)) = jc_max_jobs (js_config js)" "make_room st js = Inr (forget j js)"
      "j \<in> set (map snd (js_jobs js))" "is_terminal st j"
      "\<forall>k \<in> set (map snd (js_jobs js)). is_terminal st k \<longrightarrow> evict_key j \<le> evict_key k"
  | (full) "int (length (js_jobs js)) = jc_max_jobs (js_config js)" "make_room st js = Inl (JobStoreFull (length (js_jobs js)))"
      "\<forall>j \<in> set (map snd (js_jobs js)). \<not> is_terminal st j"
proof (cases "int (length (js_jobs js)) < jc_max_jobs (js_config js)")
  case True
  then show thesis using below by (simp add: make_room_def)
next
  case False
  then have eq: "int (length (js_jobs js)) = jc_max_jobs (js_config js)"
    using jobs_invD(5) [OF assms] by simp
  let ?xs = "sort_key evict_key (filter (is_terminal st) (map snd (js_jobs js)))"
  have set: "set ?xs = {j \<in> set (map snd (js_jobs js)). is_terminal st j}" by auto
  show thesis
  proof (cases ?xs)
    case Nil
    then have "set ?xs = {}" by simp
    then have "\<forall>j \<in> set (map snd (js_jobs js)). \<not> is_terminal st j" unfolding set by blast
    with full eq False Nil show thesis by (simp add: make_room_def)
  next
    case (Cons j js')
    have "sorted (map evict_key ?xs)" by simp
    then have least: "\<forall>k \<in> set ?xs. evict_key j \<le> evict_key k" unfolding Cons by auto
    have "j \<in> set ?xs" unfolding Cons by simp
    with evict [of j] eq False Cons least show thesis unfolding set by (simp add: make_room_def)
  qed
qed

interpretation held: bounded_table "jobs_inv st" "\<lambda>js. set (map snd (js_jobs js))"
  "\<lambda>js. length (js_jobs js)" "\<lambda>js. nat (jc_max_jobs (js_config js))" "is_terminal st" "job_fresh st"
  "room_of st" insert_job for st
proof unfold_locales
  fix js js' :: job_store and x :: job
  assume inv: "jobs_inv st js"
  show "length (js_jobs js) \<le> nat (jc_max_jobs (js_config js))"
    using jobs_invD(4,5) [OF inv] by simp
  show "room_of st js = None \<longleftrightarrow> length (js_jobs js) = nat (jc_max_jobs (js_config js))
      \<and> (\<forall>x \<in> set (map snd (js_jobs js)). \<not> is_terminal st x)"
  proof (cases rule: make_room_cases [OF inv])
    case 1
    then have "length (js_jobs js) \<noteq> nat (jc_max_jobs (js_config js))" by linarith
    with 1 show ?thesis by (simp add: room_of_def)
  next
    case (2 j)
    then show ?thesis by (auto simp: room_of_def)
  next
    case 3
    then have "length (js_jobs js) = nat (jc_max_jobs (js_config js))" by linarith
    with 3 show ?thesis by (simp add: room_of_def)
  qed
  assume room: "room_of st js = Some js'"
  have f: "js_config (forget j js) = js_config js" for j by (simp add: forget_def)
  show "jobs_inv st js' \<and> length (js_jobs js') < nat (jc_max_jobs (js_config js'))
      \<and> nat (jc_max_jobs (js_config js')) = nat (jc_max_jobs (js_config js))"
    using inv
  proof (cases rule: make_room_cases)
    case (evict j)
    then have "js' = forget j js" using room by (simp add: room_of_def)
    with evict forget_inv(1,2) [OF inv evict(3)] f show ?thesis by simp
  qed (use room inv in \<open>auto simp: room_of_def\<close>)
  show "set (map snd (js_jobs js')) \<subseteq> set (map snd (js_jobs js))
      \<and> (\<forall>x \<in> set (map snd (js_jobs js)) - set (map snd (js_jobs js')). is_terminal st x)"
    using inv
  proof (cases rule: make_room_cases)
    case (evict j)
    then have js': "js' = forget j js" using room by (simp add: room_of_def)
    have "k = j" if "(i, k) \<in> set (js_jobs js)" "(i, k) \<notin> set (js_jobs js')" for i k
    proof -
      have "i = jb_id j" using that forget_inv(3) [OF inv evict(3)] unfolding js' by blast
      then show ?thesis
        using that(1) jobs_mem(2) [OF inv evict(3)] jobs_invD(1) [OF inv] by simp
    qed
    then show ?thesis using evict(4) forget_inv(3) [OF inv evict(3)] unfolding js' by force
  qed (use room in \<open>auto simp: room_of_def\<close>)
  assume "job_fresh st x js"
  then show "job_fresh st x js'"
    using inv
  proof (cases rule: make_room_cases [OF inv])
    case (2 j)
    then have "js' = forget j js" using room by (simp add: room_of_def)
    with \<open>job_fresh st x js\<close> show ?thesis
      by (auto simp: job_fresh_def forget_def delete_filter split: option.splits)
  qed (use room \<open>job_fresh st x js\<close> in \<open>auto simp: room_of_def\<close>)
next
  fix js :: job_store and x :: job
  assume inv: "jobs_inv st js" and "length (js_jobs js) < nat (jc_max_jobs (js_config js))" "job_fresh st x js"
  then have "int (length (js_jobs js)) < jc_max_jobs (js_config js)" "job_ok st (jb_id x) x"
    "jb_id x \<notin> fst ` set (js_jobs js)" "\<forall>k. jb_idempotency_key x = Some k \<longrightarrow> k \<noteq> [] \<longrightarrow> js_by_key js k = None"
    by (auto simp: job_fresh_def)
  from insert_inv [OF inv this] show "jobs_inv st (insert_job x js)
      \<and> set (map snd (js_jobs (insert_job x js))) = insert x (set (map snd (js_jobs js)))
      \<and> nat (jc_max_jobs (js_config (insert_job x js))) = nat (jc_max_jobs (js_config js))"
    by (simp add: insert_job_def)
qed

subsection \<open>Admission and idempotency\<close>

lemma create_admit:
  "create_job now st r body key js = Inr (j, js') \<Longrightarrow>
   j = new_job now r body key \<and> bounded_table.admit (room_of st) insert_job j js = Some js'"
  by (auto simp: create_job_def held.admit_def room_of_def Let_def split: sum.splits)

lemma create_refused:
  "create_job now st r body key js = Inl err \<Longrightarrow>
   bounded_table.admit (room_of st) insert_job (new_job now r body key) js = None \<and> err = JobStoreFull (length (js_jobs js))"
  by (auto simp: create_job_def held.admit_def room_of_def make_room_def Let_def
      split: sum.splits if_splits list.splits)

lemma new_job_fresh:
  assumes "st r = Some q" "r \<noteq> []" "r \<notin> fst ` set (js_jobs js)" "\<forall>k. key = Some k \<longrightarrow> k \<noteq> [] \<longrightarrow> js_by_key js k = None"
  shows "job_fresh st (new_job now r body key) js"
  using assms by (simp add: job_fresh_def new_job_def job_ok_def)

text \<open>What creation drops is the finished job that ended first.\<close>

lemma create_drops:
  assumes inv: "jobs_inv st js"
    and "create_job now st r body key js = Inr (j, js')"
    and k: "map_of (js_jobs js) i = Some k" "map_of (js_jobs js') i = None"
    and k': "map_of (js_jobs js) i' = Some k'" "is_terminal st k'"
  shows "evict_key k \<le> evict_key k'"
proof -
  obtain js1 where js1: "make_room st js = Inr js1" "js' = insert_job (new_job now r body key) js1"
    using assms(2) by (auto simp: create_job_def Let_def split: sum.splits)
  have gone: "map_of (js_jobs js1) i = None"
    using k(2) unfolding js1(2) by (auto simp: insert_job_def split: if_splits)
  have mem': "k' \<in> set (map snd (js_jobs js))" using k'(1) by (force dest: map_of_SomeD)
  show ?thesis
  proof (cases rule: make_room_cases [OF inv])
    case 1
    with js1 gone k(1) show ?thesis by simp
  next
    case (2 x)
    then have "js1 = forget x js" using js1(1) by simp
    with gone k(1) have "i = jb_id x"
      by (auto simp: forget_def delete_filter map_of_eq_None_iff image_iff dest!: map_of_SomeD)
    then have "k = x" using k(1) jobs_mem(2) [OF inv 2(3)] by simp
    with 2(5) mem' k'(2) show ?thesis by blast
  next
    case 3
    with js1(1) show ?thesis by simp
  qed
qed

text \<open>A key that finds no job is not in the index.\<close>

lemma unknown_key:
  assumes inv: "jobs_inv st js" and none: "find_by_key k js = None" and nonempty: "k \<noteq> []"
  shows "js_by_key js k = None"
proof (rule ccontr)
  assume "js_by_key js k \<noteq> None"
  then obtain i where i: "js_by_key js k = Some i" by blast
  then obtain x where "(i, x) \<in> set (js_jobs js)" using jobs_invD(3) [OF inv] nonempty by (auto simp: index_ok_def)
  then have "i \<noteq> []" "map_of (js_jobs js) i = Some x"
    using jobs_invD(1,2) [OF inv] by (auto simp: job_ok_def)
  with none i show False by (simp add: find_by_key_def)
qed


definition sample_requests :: store where
  "sample_requests = [''1'' \<mapsto> (new_queued_request (to_generation_request sample_body ''a'' ''A'' []) 0)
       \<lparr>qr_events := [Chunk ''hi'' 0, Chunk ''!'' 1, StreamEnd ''length'' None], qr_state := DONE,
        qr_started_at := Some 1, qr_finished_at := Some 3\<rparr>,
     ''2'' \<mapsto> new_queued_request (to_generation_request sample_body ''a'' ''A'' []) 2]"

definition sample_jobs :: job_store where
  "sample_jobs = (init_job_store (default_jobs_config\<lparr>jc_max_jobs := 1\<rparr>))
     \<lparr>js_jobs := [(''1'', (new_job 0 ''1'' sample_body (Some ''k''))
         \<lparr>jb_chunks := [(''hi'', 0), (''!'', 1)], jb_terminal := Some (StreamEnd ''length'' None),
          jb_finished_at := Some 4, jb_pump := PumpDone, jb_read := 3\<rparr>)],
       js_by_key := [''k'' \<mapsto> ''1'']\<rparr>"

lemmas sample_job_defs = sample_requests_def sample_jobs_def init_job_store_def new_job_def
  default_jobs_config_def new_queued_request_def

lemma sample_jobs_inv: "jobs_inv sample_requests sample_jobs"
  by (auto simp: jobs_inv_def index_ok_def job_ok_def chunk_event_def sample_job_defs)




subsection \<open>Sweeping\<close>

definition expired :: "jobs_config \<Rightarrow> seconds \<Rightarrow> store \<Rightarrow> job \<Rightarrow> bool" where
  "expired config now st j \<longleftrightarrow> \<not> lease_lapsed config now st j \<and> is_terminal st j
     \<and> (\<exists>t. expires_at config j = Some t \<and> t \<le> now)"

text \<open>What one pass leaves of a job.\<close>

definition swept :: "jobs_config \<Rightarrow> seconds \<Rightarrow> store \<Rightarrow> rid \<times> job \<Rightarrow> (rid \<times> job) option" where
  "swept config now st p =
     (if lease_lapsed config now st (snd p) then Some (fst p, abandon_job now (snd p))
      else if expired config now st (snd p) then None else Some p)"

definition lapsed_ids :: "jobs_config \<Rightarrow> seconds \<Rightarrow> store \<Rightarrow> (rid \<times> job) list \<Rightarrow> rid set" where
  "lapsed_ids config now st ps = {i. \<exists>j. (i, j) \<in> set ps \<and> lease_lapsed config now st j}"

lemma lease_lapsed_store:
  "st (jb_id j) = st' (jb_id j) \<Longrightarrow> lease_lapsed config now st j = lease_lapsed config now st' j"
  using is_terminal_store [of st j st'] by (simp add: lease_lapsed_def)

lemma expired_store:
  "st (jb_id j) = st' (jb_id j) \<Longrightarrow> expired config now st j = expired config now st' j"
  using is_terminal_store [of st j st'] lease_lapsed_store [of st j st'] by (simp add: expired_def)

lemma upd_job_split:
  assumes "i \<notin> fst ` set pre" "i \<notin> fst ` set post" "js_jobs js = pre @ (i, j) # post"
  shows "js_jobs (upd_job i f js) = pre @ (i, f j) # post"
proof -
  have "map (\<lambda>(k, j). (k, if k = i then f j else j)) xs = xs" if "i \<notin> fst ` set xs" for xs
    using that by (induction xs) auto
  with assms show ?thesis by (simp add: upd_job_def)
qed

lemma sweep_job_cases:
  assumes "jb_id j = i" "st1 i = st i" "js_jobs js1 = pre @ (i, j) # post"
    and out: "i \<notin> fst ` set pre" "i \<notin> fst ` set post" and config: "js_config js1 = config"
  obtains js2 where "sweep_job now j (st1, js1) =
      (if lease_lapsed config now st j then upd_req i qr_cancel st1 else st1, js2)"
    "js_jobs js2 = pre @ (case swept config now st (i, j) of None \<Rightarrow> [] | Some p \<Rightarrow> [p]) @ post"
    "js_config js2 = config"
    "js_by_key js2 = (if expired config now st j then js_by_key (forget j js1) else js_by_key js1)"
proof -
  have l: "lease_lapsed config now st1 j = lease_lapsed config now st j"
    and t: "is_terminal st1 j = is_terminal st j"
    using assms(1,2) lease_lapsed_store [of st1 j st] is_terminal_store [of st1 j st] by simp_all
  have del: "js_jobs (forget j js1) = pre @ post"
  proof -
    have "filter (\<lambda>p. fst p \<noteq> i) xs = xs" if "i \<notin> fst ` set xs" for xs :: "(rid \<times> job) list"
      using that by (induction xs) auto
    with out assms(1,3) show ?thesis by (simp add: forget_def delete_filter)
  qed
  consider (lapsed) "lease_lapsed config now st j"
    | (gone) "\<not> lease_lapsed config now st j" "expired config now st j"
    | (kept) "\<not> lease_lapsed config now st j" "\<not> expired config now st j" by blast
  then show thesis
  proof cases
    case lapsed
    let ?js = "upd_job i (abandon_job now) js1"
    have "sweep_job now j (st1, js1) = (upd_req i qr_cancel st1, ?js)"
      using lapsed l config assms(1) by (simp add: sweep_job_def abandon_def Let_def)
    moreover have "\<not> expired config now st j" using lapsed by (simp add: expired_def)
    ultimately show thesis
      using that [of ?js] lapsed upd_job_split [OF out assms(3)] config by (simp add: swept_def upd_job_def)
  next
    case gone
    then have "sweep_job now j (st1, js1) = (st1, forget j js1)"
      using l t config by (auto simp: sweep_job_def Let_def expired_def)
    then show thesis
      using that [of "forget j js1"] gone del config by (simp add: swept_def forget_def)
  next
    case kept
    then have "sweep_job now j (st1, js1) = (st1, js1)"
      using l t config by (auto simp: sweep_job_def Let_def expired_def split: option.splits)
    then show thesis using that [of js1] kept assms(3) config by (simp add: swept_def)
  qed
qed

lemma sweep_fold:
  "distinct (map fst (pre @ ps)) \<Longrightarrow> (\<forall>(i, j) \<in> set ps. jb_id j = i \<and> st1 i = st i) \<Longrightarrow>
   js_jobs js1 = pre @ ps \<Longrightarrow> js_config js1 = config \<Longrightarrow>
   \<exists>js2. fold (sweep_job now) (map snd ps) (st1, js1) =
      (\<lambda>i. if i \<in> lapsed_ids config now st ps then map_option qr_cancel (st1 i) else st1 i, js2)
    \<and> js_jobs js2 = pre @ List.map_filter (swept config now st) ps \<and> js_config js2 = config
    \<and> (\<forall>k. js_by_key js2 k =
        (if \<exists>(i, j) \<in> set ps. expired config now st j \<and> jb_idempotency_key j = Some k then None
         else js_by_key js1 k))"
proof (induction ps arbitrary: pre st1 js1)
  case Nil
  then show ?case by (simp add: lapsed_ids_def List.map_filter_simps)
next
  case (Cons p ps)
  obtain i j where p: "p = (i, j)" by (cases p)
  have ij: "jb_id j = i" "st1 i = st i" using Cons.prems(2) p by auto
  have out: "i \<notin> fst ` set pre" "i \<notin> fst ` set ps" using Cons.prems(1) p by auto
  have jobs: "js_jobs js1 = pre @ (i, j) # ps" using Cons.prems(3) p by simp
  obtain js2 where js2: "sweep_job now j (st1, js1) =
      (if lease_lapsed config now st j then upd_req i qr_cancel st1 else st1, js2)"
    "js_jobs js2 = pre @ (case swept config now st (i, j) of None \<Rightarrow> [] | Some p \<Rightarrow> [p]) @ ps"
    "js_config js2 = config"
    "js_by_key js2 = (if expired config now st j then js_by_key (forget j js1) else js_by_key js1)"
    by (rule sweep_job_cases [where st = st and now = now and config = config and pre = pre and post = ps
          and ?st1.0 = st1 and ?js1.0 = js1, OF ij jobs out Cons.prems(4)]) blast
  let ?st = "if lease_lapsed config now st j then upd_req i qr_cancel st1 else st1"
  let ?pre = "pre @ (case swept config now st (i, j) of None \<Rightarrow> [] | Some p \<Rightarrow> [p])"
  have sw: "fst q = i" if "swept config now st (i, j) = Some q" for q
    using that by (auto simp: swept_def split: if_splits)
  have "distinct (map fst (?pre @ ps))"
    using Cons.prems(1) out p sw by (cases "swept config now st (i, j)") auto
  moreover have "\<forall>(k, x) \<in> set ps. jb_id x = k \<and> ?st k = st k"
    using Cons.prems(2) p out(2) by (force simp: upd_req_def split: option.splits)
  moreover have "js_jobs js2 = ?pre @ ps" using js2(2) by simp
  ultimately obtain js3 where js3: "fold (sweep_job now) (map snd ps) (?st, js2) =
      (\<lambda>i. if i \<in> lapsed_ids config now st ps then map_option qr_cancel (?st i) else ?st i, js3)"
    "js_jobs js3 = ?pre @ List.map_filter (swept config now st) ps" "js_config js3 = config"
    "\<forall>k. js_by_key js3 k =
        (if \<exists>(i, j) \<in> set ps. expired config now st j \<and> jb_idempotency_key j = Some k then None
         else js_by_key js2 k)"
    using Cons.IH [of ?pre ?st js2] js2(3) by blast
  have ids: "lapsed_ids config now st (p # ps)
      = (if lease_lapsed config now st j then insert i (lapsed_ids config now st ps) else lapsed_ids config now st ps)"
    using p by (auto simp: lapsed_ids_def)
  have "i \<notin> lapsed_ids config now st ps" using out(2) by (force simp: lapsed_ids_def)
  then have "(\<lambda>k. if k \<in> lapsed_ids config now st ps then map_option qr_cancel (?st k) else ?st k)
      = (\<lambda>k. if k \<in> lapsed_ids config now st (p # ps) then map_option qr_cancel (st1 k) else st1 k)"
    unfolding ids by (auto simp: fun_eq_iff upd_req_def split: option.splits)
  moreover have "js_jobs js3 = pre @ List.map_filter (swept config now st) (p # ps)"
    using js3(2) p by (simp add: List.map_filter_simps split: option.split)
  moreover have "js_by_key js3 k =
        (if \<exists>(i, j) \<in> set (p # ps). expired config now st j \<and> jb_idempotency_key j = Some k then None
         else js_by_key js1 k)" for k
    using js3(4) js2(4) p by (auto simp: forget_def split: option.splits)
  ultimately show ?case using js2(1) js3(1,3) p by simp
qed

lemma sweep_once_spec:
  assumes inv: "jobs_inv st js" and sw: "sweep_once now (st, js) = (st', js')"
  shows "st' i = (if i \<in> lapsed_ids (js_config js) now st (js_jobs js) then map_option qr_cancel (st i) else st i)"
    and "js_jobs js' = List.map_filter (swept (js_config js) now st) (js_jobs js)"
    and "js_config js' = js_config js"
    and "js_by_key js' k = (if \<exists>(i, j) \<in> set (js_jobs js). expired (js_config js) now st j
        \<and> jb_idempotency_key j = Some k then None else js_by_key js k)"
proof -
  have d: "distinct (map fst ([] @ js_jobs js))" using jobs_invD(1) [OF inv] by simp
  have ids: "\<forall>(i, j) \<in> set (js_jobs js). jb_id j = i \<and> st i = st i"
    using jobs_invD(2) [OF inv] job_ok_id by blast
  from sweep_fold [OF d ids _ refl, of js now] sw
  show "st' i = (if i \<in> lapsed_ids (js_config js) now st (js_jobs js) then map_option qr_cancel (st i) else st i)"
    and "js_jobs js' = List.map_filter (swept (js_config js) now st) (js_jobs js)"
    and "js_config js' = js_config js"
    and "js_by_key js' k = (if \<exists>(i, j) \<in> set (js_jobs js). expired (js_config js) now st j
        \<and> jb_idempotency_key j = Some k then None else js_by_key js k)"
    by (auto simp: sweep_once_def)
qed

lemma swept_key: "swept config now st p = Some p' \<Longrightarrow> fst p' = fst p"
  by (auto simp: swept_def split: if_splits)

lemma map_of_swept:
  "distinct (map fst ps) \<Longrightarrow> (i, j) \<in> set ps \<Longrightarrow>
   map_of (List.map_filter (swept config now st) ps) i = map_option snd (swept config now st (i, j))"
proof (induction ps)
  case Nil
  then show ?case by simp
next
  case (Cons p ps)
  have none: "map_of (List.map_filter (swept config now st) ps) i = None" if "i \<notin> fst ` set ps"
  proof -
    have "fst ` set (List.map_filter (swept config now st) ps) \<subseteq> fst ` set ps"
      by (force simp: List.map_filter_def dest: swept_key)
    with that show ?thesis by (auto simp: map_of_eq_None_iff)
  qed
  show ?case
  proof (cases "p = (i, j)")
    case True
    with Cons.prems(1) none swept_key [of config now st p] show ?thesis
      by (cases "swept config now st p") (auto simp: List.map_filter_simps)
  next
    case False
    with Cons.prems have "(i, j) \<in> set ps" "fst p \<noteq> i" by (auto simp: image_iff)
    with Cons swept_key [of config now st p] show ?thesis
      by (cases "swept config now st p") (auto simp: List.map_filter_simps)
  qed
qed

lemma lapsed_ids_iff:
  assumes "jobs_inv st js" and "map_of (js_jobs js) i = Some j"
  shows "i \<in> lapsed_ids config now st (js_jobs js) \<longleftrightarrow> lease_lapsed config now st j"
proof -
  have "(i, k) \<in> set (js_jobs js) \<longleftrightarrow> k = j" for k
    using assms jobs_invD(1) [OF assms(1)] by (metis map_of_eq_Some_iff option.inject)
  then show ?thesis by (simp add: lapsed_ids_def)
qed

text \<open>
  C13. One expiry pass does to every job exactly what the clock says and nothing else: an
  unfinished job unpolled for longer than the lease (when there is one) is abandoned, its request
  cancelled and the job kept; a finished one goes once its read result has been kept for
  \<open>read_ttl\<close>, or its unread result for \<open>result_ttl\<close>; any other job and its request stay as they
  are. An unfinished job is never forgotten.
\<close>

theorem sweep_expires_exactly:
  assumes "jobs_inv st js" and "map_of (js_jobs js) i = Some j" and "sweep_once now (st, js) = (st', js')"
  shows "if jc_lease_seconds (js_config js) \<noteq> 0 \<and> \<not> is_terminal st j
            \<and> jc_lease_seconds (js_config js) < now - jb_last_polled_at j
    then map_of (js_jobs js') i = Some (abandon_job now j) \<and> st' i = map_option qr_cancel (st i)
    else if is_terminal st j \<and> (case (jb_first_read_at j, jb_finished_at j) of
              (Some r, Some _) \<Rightarrow> r + jc_read_ttl_seconds (js_config js) \<le> now
            | (None, Some f) \<Rightarrow> f + jc_result_ttl_seconds (js_config js) \<le> now
            | _ \<Rightarrow> False)
    then map_of (js_jobs js') i = None \<and> st' i = st i
    else map_of (js_jobs js') i = Some j \<and> st' i = st i"
proof -
  let ?c = "js_config js"
  note spec = sweep_once_spec [OF assms(1,3)]
  have mem: "(i, j) \<in> set (js_jobs js)" using assms(2) by (rule map_of_SomeD)
  have m: "map_of (js_jobs js') i = map_option snd (swept ?c now st (i, j))"
    unfolding spec(2) by (rule map_of_swept [OF jobs_invD(1) [OF assms(1)] mem])
  have s: "st' i = (if lease_lapsed ?c now st j then map_option qr_cancel (st i) else st i)"
    using spec(1) [of i] lapsed_ids_iff [OF assms(1,2)] by simp
  have ex: "expired ?c now st j \<longleftrightarrow> \<not> lease_lapsed ?c now st j \<and> is_terminal st j
      \<and> (case (jb_first_read_at j, jb_finished_at j) of
              (Some r, Some _) \<Rightarrow> r + jc_read_ttl_seconds ?c \<le> now
            | (None, Some f) \<Rightarrow> f + jc_result_ttl_seconds ?c \<le> now
            | _ \<Rightarrow> False)"
    by (auto simp: expired_def expires_at_def split: option.splits)
  show ?thesis
  proof (cases "lease_lapsed ?c now st j")
    case True
    with m s show ?thesis by (simp add: lease_lapsed_def swept_def)
  next
    case False
    then have nl: "\<not> (jc_lease_seconds ?c \<noteq> 0 \<and> \<not> is_terminal st j
        \<and> jc_lease_seconds ?c < now - jb_last_polled_at j)" by (auto simp: lease_lapsed_def)
    show ?thesis unfolding if_not_P [OF nl] using m s ex False by (simp add: swept_def)
  qed
qed

theorem sweep_expires_exactly_witness:
  "map_of (js_jobs (snd (sweep_once 304 (sample_requests, sample_jobs)))) ''1'' = None
   \<and> map_of (js_jobs (snd (sweep_once 303 (sample_requests, sample_jobs)))) ''1'' \<noteq> None"
proof -
  obtain st1 js1 st2 js2 where r: "sweep_once 304 (sample_requests, sample_jobs) = (st1, js1)"
    "sweep_once 303 (sample_requests, sample_jobs) = (st2, js2)" by fastforce
  let ?j = "snd (hd (js_jobs sample_jobs))"
  have j: "map_of (js_jobs sample_jobs) ''1'' = Some ?j" "is_terminal sample_requests ?j"
    "jb_first_read_at ?j = None" "jb_finished_at ?j = Some 4"
    "jc_result_ttl_seconds (js_config sample_jobs) = 300"
    by (simp_all add: sample_job_defs is_terminal_def job_state_def)
  from sweep_expires_exactly [OF sample_jobs_inv j(1) r(1)] sweep_expires_exactly [OF sample_jobs_inv j(1) r(2)]
  show ?thesis unfolding r using j by simp
qed

lemma sweep_grow:
  assumes "jobs_inv st js" and "sweep_once now (st, js) = (st', js')"
  shows "requests_grow st st'"
  unfolding requests_grow_def sweep_once_spec(1) [OF assms] by (auto simp: qr_cancel_def)

text \<open>A sweep keeps some jobs, each in its place, and gives up those whose lease has lapsed.\<close>

lemma sweep_members:
  assumes inv: "jobs_inv st js" and sw: "sweep_once now (st, js) = (st', js')"
  shows "(i, k) \<in> set (js_jobs js') \<longleftrightarrow> (\<exists>j. (i, j) \<in> set (js_jobs js) \<and> swept (js_config js) now st (i, j) = Some (i, k))"
proof
  assume "(i, k) \<in> set (js_jobs js')"
  then show "\<exists>j. (i, j) \<in> set (js_jobs js) \<and> swept (js_config js) now st (i, j) = Some (i, k)"
    using swept_key unfolding sweep_once_spec(2) [OF inv sw] by (fastforce simp: List.map_filter_def)
next
  assume "\<exists>j. (i, j) \<in> set (js_jobs js) \<and> swept (js_config js) now st (i, j) = Some (i, k)"
  then show "(i, k) \<in> set (js_jobs js')"
    unfolding sweep_once_spec(2) [OF inv sw] by (force simp: List.map_filter_def)
qed

lemma swept_keeps_key: "swept c now st (i, j) = Some (i, k) \<Longrightarrow> jb_idempotency_key k = jb_idempotency_key j"
  by (auto simp: swept_def abandon_job_def Let_def split: if_splits)

lemma sweep_job_ok:
  assumes inv: "jobs_inv st js" and sw: "sweep_once now (st, js) = (st', js')" and mem: "(i, k) \<in> set (js_jobs js')"
  shows "job_ok st' i k"
proof -
  let ?c = "js_config js"
  obtain j where j: "(i, j) \<in> set (js_jobs js)" "swept ?c now st (i, j) = Some (i, k)"
    using mem sweep_members [OF inv sw] by blast
  have mo: "map_of (js_jobs js) i = Some j" using j(1) jobs_invD(1) [OF inv] by simp
  show ?thesis
  proof (cases "lease_lapsed ?c now st j")
    case True
    then have k: "k = abandon_job now j" using j(2) by (simp add: swept_def)
    have "i \<in> lapsed_ids ?c now st (js_jobs js)" using lapsed_ids_iff [OF inv mo] True by simp
    then have "requests_grow (upd_req i qr_cancel st) st'"
      unfolding requests_grow_def sweep_once_spec(1) [OF inv sw] upd_req_def
      by (auto simp: qr_cancel_def split: option.splits if_splits)
    from job_ok_grow [OF this abandon_job_ok [OF jobs_invD(2) [OF inv j(1)]]] k show ?thesis by simp
  next
    case False
    then have "k = j" using j(2) by (auto simp: swept_def split: if_splits)
    with job_ok_grow [OF sweep_grow [OF inv sw] jobs_invD(2) [OF inv j(1)]] show ?thesis by simp
  qed
qed

lemma sweep_index:
  assumes inv: "jobs_inv st js" and sw: "sweep_once now (st, js) = (st', js')"
  shows "index_ok (js_by_key js') (js_jobs js')"
  unfolding index_ok_def
proof (intro allI impI)
  let ?c = "js_config js"
  note spec = sweep_once_spec(4) [OF inv sw] and members = sweep_members [OF inv sw]
  fix key :: string and i assume nonempty: "key \<noteq> []"
  have index: "js_by_key js key = Some i \<longleftrightarrow> (\<exists>j. (i, j) \<in> set (js_jobs js) \<and> jb_idempotency_key j = Some key)" for i
    using jobs_invD(3) [OF inv] nonempty unfolding index_ok_def by blast
  show "js_by_key js' key = Some i \<longleftrightarrow> (\<exists>k. (i, k) \<in> set (js_jobs js') \<and> jb_idempotency_key k = Some key)"
  proof
    assume "js_by_key js' key = Some i"
    then have "js_by_key js key = Some i"
      and ne: "\<forall>(i, j) \<in> set (js_jobs js). \<not> (expired ?c now st j \<and> jb_idempotency_key j = Some key)"
      unfolding spec by (auto split: if_splits)
    then obtain j where j: "(i, j) \<in> set (js_jobs js)" "jb_idempotency_key j = Some key" using index by blast
    then have "\<not> expired ?c now st j" using ne by blast
    then have "\<exists>k. swept ?c now st (i, j) = Some (i, k)" by (simp add: swept_def)
    with j swept_keeps_key members show "\<exists>k. (i, k) \<in> set (js_jobs js') \<and> jb_idempotency_key k = Some key" by metis
  next
    assume "\<exists>k. (i, k) \<in> set (js_jobs js') \<and> jb_idempotency_key k = Some key"
    then obtain k j where j: "(i, j) \<in> set (js_jobs js)" "swept ?c now st (i, j) = Some (i, k)"
      "jb_idempotency_key j = Some key" using members swept_keeps_key by metis
    have b: "js_by_key js key = Some i" using j index by blast
    have "\<not> expired ?c now st x" if "(y, x) \<in> set (js_jobs js)" "jb_idempotency_key x = Some key" for x y
    proof -
      have "y = i" using that index b by force
      then have "x = j" using that(1) j(1) jobs_invD(1) [OF inv] by (metis map_of_eq_Some_iff option.inject)
      with j(2) show ?thesis by (auto simp: swept_def expired_def split: if_splits)
    qed
    with b show "js_by_key js' key = Some i" unfolding spec by auto
  qed
qed

lemma sweep_inv:
  assumes inv: "jobs_inv st js" and sw: "sweep_once now (st, js) = (st', js')"
  shows "jobs_inv st' js'"
proof -
  let ?c = "js_config js"
  note spec = sweep_once_spec [OF inv sw]
  note d = jobs_invD(1) [OF inv]
  have "distinct (map fst (js_jobs js'))"
  proof -
    have "map fst (List.map_filter (swept ?c now st) ps) = map fst (filter (\<lambda>p. swept ?c now st p \<noteq> None) ps)" for ps
    proof (induction ps)
      case (Cons p ps)
      then show ?case using swept_key [of ?c now st p]
        by (cases "swept ?c now st p") (simp_all add: List.map_filter_simps)
    qed (simp add: List.map_filter_simps)
    then show ?thesis unfolding spec(2) using d by (simp add: distinct_map_filter)
  qed
  moreover have "length (js_jobs js') \<le> length (js_jobs js)"
    unfolding spec(2) List.map_filter_def by (simp add: length_filter_le)
  ultimately show ?thesis
    using inv sweep_job_ok [OF inv sw] sweep_index [OF inv sw] unfolding jobs_inv_def spec(3) by auto
qed

end
