(* ===== verification/Sir_Api.thy ===== *)
theory Sir_Api
  imports Sir_Engine_Safety Sir_Jobs
begin

text \<open>
  The endpoints of \<open>src/src/sir/api.py\<close>: the routing of a completion request with its
  asynchronous variant, the job endpoints, and the renderings of a request's event stream. The
  application is the engine and the job store, which share the requests and the clock. The HTTP
  framework is left out: a handler's reply is a value of \<open>reply\<close>, and the headers it reads are
  arguments. The id of a new request (a uuid in the code) is an argument too.
\<close>

subsection \<open>The application\<close>

record app =
  ap_engine :: engine
  ap_jobs :: job_store

abbreviation jobs_settings :: "app \<Rightarrow> jobs_config" where
  "jobs_settings a \<equiv> ac_jobs (eng_config (ap_engine a))"

text \<open>\<open>create_app\<close> and its lifespan: both parts are built and started together.\<close>

definition init_app :: "app_config \<Rightarrow> seconds \<Rightarrow> app" where
  "init_app config t =
     \<lparr>ap_engine = start_engine (init_engine config t), ap_jobs = start_jobs (init_job_store (ac_jobs config))\<rparr>"

datatype reply =
  ReplyError int error_info
| ReplyAccepted job_document string int
| ReplyDocument job_document
| ReplyStream rid string
| ReplyCollect rid chat_request

definition prefers_async :: "string list \<Rightarrow> bool" where
  "prefers_async headers =
     list_ex (\<lambda>header. list_ex (\<lambda>token. py_lower (py_strip token) = ''respond-async'') (py_split (CHR '','') header))
       headers"

definition completion_id :: "rid \<Rightarrow> string" where
  "completion_id request_id = ''chatcmpl-'' @ request_id"

definition job_lost :: "rid \<Rightarrow> error_info" where
  "job_lost i = error_body (''job '' @ py_repr i @ '' not found; it has expired or the router restarted'')
     ''not_found_error'' (Some ''job_not_found'')"

definition wait_info_of :: "wait_estimate \<Rightarrow> wait_info" where
  "wait_info_of w = \<lparr>wi_position = we_position w, wi_resident = we_resident w,
     wi_needs_swap = we_needs_swap w, wi_load_seconds = we_load_seconds w,
     wi_dispatch_within_seconds = we_dispatch_within_seconds w, wi_estimated_seconds = we_estimated_seconds w\<rparr>"

text \<open>\<open>_document\<close>: a job at whatever stage it is in, with the poll interval that keeps its lease.\<close>

definition retry_advice :: "engine \<Rightarrow> job \<Rightarrow> jobs_config \<Rightarrow> wait_estimate option \<Rightarrow> seconds" where
  "retry_advice e j jobs estimate =
     (let retry_after = (case estimate of
            Some w \<Rightarrow> we_retry_after w
          | None \<Rightarrow> if is_terminal (eng_store e) j then 0 else running_poll_seconds)
      in if jc_lease_seconds jobs \<noteq> 0 then min retry_after (jc_lease_seconds jobs / 2) else retry_after)"

definition job_response :: "store \<Rightarrow> job \<Rightarrow> chat_response option" where
  "job_response st j =
     (if job_state st j = DONE
      then Some (build_response (jb_body j) (job_texts j) (job_finish_reason j)
                   (completion_id (jb_id j)) (job_usage j))
      else None)"

definition job_failure :: "store \<Rightarrow> job \<Rightarrow> error_info option" where
  "job_failure st j =
     (case (job_state st j, jb_terminal j) of
        (FAILED, Some (StreamError message _)) \<Rightarrow> Some (error_body message ''server_error'' None)
      | (CANCELLED, _) \<Rightarrow> Some (error_body ''job cancelled'' ''cancelled_error'' (Some ''job_cancelled''))
      | _ \<Rightarrow> None)"

definition document :: "engine \<Rightarrow> job \<Rightarrow> jobs_config \<Rightarrow> py_error + job_document" where
  "document e j jobs =
     (case (if is_terminal (eng_store e) j then Inr None else engine_estimate_wait (jb_id j) e) of
        Inl err \<Rightarrow> Inl err
      | Inr estimate \<Rightarrow>
          Inr \<lparr>jd_id = jb_id j, jd_status = request_state_value (job_state (eng_store e) j),
               jd_model = cr_model (jb_body j), jd_wait = map_option wait_info_of estimate,
               jd_retry_after = retry_advice e j jobs estimate,
               jd_response = job_response (eng_store e) j, jd_error = job_failure (eng_store e) j\<rparr>)"

text \<open>The 202 reply, with the \<open>retry-after\<close> header, a whole number of seconds.\<close>

definition retry_header :: "seconds \<Rightarrow> int" where
  "retry_header retry_after = max 1 (py_round retry_after)"

definition accepted :: "engine \<Rightarrow> job \<Rightarrow> jobs_config \<Rightarrow> py_error + reply" where
  "accepted e j jobs =
     (case document e j jobs of
        Inl err \<Rightarrow> Inl err
      | Inr d \<Rightarrow> Inr (ReplyAccepted d (''/v1/jobs/'' @ jb_id j) (retry_header (jd_retry_after d))))"

subsection \<open>Submission\<close>

definition model_missing :: "app_config \<Rightarrow> string \<Rightarrow> error_info" where
  "model_missing config m =
     error_body (''model '' @ py_repr m @ '' is not configured; available: ''
         @ py_join '', '' (served_model_names config))
       ''not_found_error'' (Some ''model_not_found'')"

definition stream_conflict :: error_info where
  "stream_conflict =
     error_body (''stream and Prefer: respond-async are mutually exclusive; ''
         @ ''poll the job for a complete response, or stream synchronously'')
       ''invalid_request_error'' None"

definition jobs_full :: "nat \<Rightarrow> error_info" where
  "jobs_full n =
     error_body (show_nat n @ '' jobs in flight, at the configured max_jobs ceiling'')
       ''server_error'' (Some ''jobs_full'')"

text \<open>The job of a repeated asynchronous submission; an empty key is no key.\<close>

definition resubmitted :: "bool \<Rightarrow> string option \<Rightarrow> job_store \<Rightarrow> job option" where
  "resubmitted wants_async key js =
     (if \<not> wants_async then None
      else case key of None \<Rightarrow> None | Some k \<Rightarrow> if k = [] then None else find_by_key k js)"

definition with_app :: "app \<Rightarrow> py_error + reply \<Rightarrow> py_error + reply \<times> app" where
  "with_app a r = (case r of Inl err \<Rightarrow> Inl err | Inr rep \<Rightarrow> Inr (rep, a))"

definition chat_completions ::
    "string list \<Rightarrow> string option \<Rightarrow> rid \<Rightarrow> chat_request \<Rightarrow> app \<Rightarrow> py_error + reply \<times> app" where
  "chat_completions prefer key r body a =
     (let e = ap_engine a; config = eng_config e in
      case model_by_served_name config (cr_model body) of
        None \<Rightarrow> Inr (ReplyError 404 (model_missing config (cr_model body)), a)
      | Some target \<Rightarrow>
          let wants_async = jc_enabled (ac_jobs config) \<and> prefers_async prefer in
          if wants_async \<and> cr_stream body then Inr (ReplyError 400 stream_conflict, a)
          else (case resubmitted wants_async key (ap_jobs a) of
             Some existing \<Rightarrow> with_app a (accepted e existing (ac_jobs config))
           | None \<Rightarrow>
               (case served_as target of
                  None \<Rightarrow> Inl IndexError
                | Some tag \<Rightarrow>
               (case submit (to_generation_request body (mc_name target) tag r) r e of
                  Inl err \<Rightarrow> Inl err
                | Inr e' \<Rightarrow>
                    if wants_async then
                      (case create_job (eng_now e') (eng_store e') r body key (ap_jobs a) of
                         Inl (JobStoreFull n) \<Rightarrow>
                           Inr (ReplyError 503 (jobs_full n), a\<lparr>ap_engine := client_cancel r e'\<rparr>)
                       | Inr (j, js) \<Rightarrow>
                           with_app (a\<lparr>ap_engine := e', ap_jobs := js\<rparr>) (accepted e' j (ac_jobs config)))
                    else if cr_stream body then Inr (ReplyStream r (cr_model body), a\<lparr>ap_engine := e'\<rparr>)
                    else Inr (ReplyCollect r body, a\<lparr>ap_engine := e'\<rparr>)))))"

subsection \<open>The job endpoints\<close>

definition job_reply :: "rid \<Rightarrow> job option \<Rightarrow> app \<Rightarrow> py_error + reply \<times> app" where
  "job_reply i jo a =
     (case jo of
        None \<Rightarrow> Inr (ReplyError 404 (job_lost i), a)
      | Some j \<Rightarrow>
          (case document (ap_engine a) j (jobs_settings a) of
             Inl err \<Rightarrow> Inl err
           | Inr d \<Rightarrow> Inr (ReplyDocument d, a)))"

definition api_get_job :: "rid \<Rightarrow> app \<Rightarrow> py_error + reply \<times> app" where
  "api_get_job i a =
     (case get_job (eng_now (ap_engine a)) (eng_store (ap_engine a)) i (ap_jobs a) of
        (jo, js) \<Rightarrow> job_reply i jo (a\<lparr>ap_jobs := js\<rparr>))"

definition api_cancel_job :: "rid \<Rightarrow> app \<Rightarrow> py_error + reply \<times> app" where
  "api_cancel_job i a =
     (case cancel_job (eng_now (ap_engine a)) i (eng_store (ap_engine a), ap_jobs a) of
        (jo, (st, js)) \<Rightarrow>
          job_reply i jo (a\<lparr>ap_engine := (ap_engine a)\<lparr>eng_store := st\<rparr>, ap_jobs := js\<rparr>))"

subsection \<open>Renderings of the event stream\<close>

text \<open>
  \<open>_next_event\<close> given what is left on the channel and whether the client has gone: an event
  that is there is taken first; \<open>None\<close> while there is neither.
\<close>

datatype next_event = Event stream_event "stream_event list" | ClientGone | Waiting

fun next_event_of :: "stream_event list \<Rightarrow> bool \<Rightarrow> next_event" where
  "next_event_of (ev # evs) gone = Event ev evs"
| "next_event_of [] True = ClientGone"
| "next_event_of [] False = Waiting"

text \<open>\<open>_collect\<close>: the outcome for what the channel holds; \<open>CollectWaiting\<close> keeps the parts so far.\<close>

datatype collected =
  Completion chat_response
| CollectFailed int error_info
| CollectGone
| CollectWaiting "string list"

fun collect :: "chat_request \<Rightarrow> rid \<Rightarrow> string list \<Rightarrow> stream_event list \<Rightarrow> bool \<Rightarrow> collected" where
  "collect body r parts [] gone = (if gone then CollectGone else CollectWaiting parts)"
| "collect body r parts (Chunk text _ # evs) gone = collect body r (parts @ [text]) evs gone"
| "collect body r parts (StreamError message status # evs) gone =
     CollectFailed status (error_body message ''server_error'' None)"
| "collect body r parts (StreamEnd reason usage # evs) gone =
     Completion (build_response body parts reason (completion_id r) usage)"

text \<open>
  \<open>_sse\<close>: the frames yielded for what the channel holds. A data frame carries the chunk's id,
  model, delta and finish reason; how pydantic writes them as JSON is left to the library.
\<close>

record chat_delta =
  cd_role :: "string option"
  cd_content :: "string option"

record chat_chunk =
  cc_id :: string
  cc_model :: string
  cc_delta :: chat_delta
  cc_finish_reason :: "string option"

datatype sse_frame = DataFrame chat_chunk | ErrorFrame error_info | DoneFrame

definition sse_chunk :: "rid \<Rightarrow> string \<Rightarrow> chat_delta \<Rightarrow> string option \<Rightarrow> sse_frame" where
  "sse_chunk r model delta finish_reason =
     DataFrame \<lparr>cc_id = completion_id r, cc_model = model, cc_delta = delta, cc_finish_reason = finish_reason\<rparr>"

fun sse_events :: "rid \<Rightarrow> string \<Rightarrow> stream_event list \<Rightarrow> sse_frame list" where
  "sse_events r model [] = []"
| "sse_events r model (Chunk text _ # evs) =
     sse_chunk r model \<lparr>cd_role = None, cd_content = Some text\<rparr> None # sse_events r model evs"
| "sse_events r model (StreamError message _ # evs) = [ErrorFrame (error_body message ''server_error'' None), DoneFrame]"
| "sse_events r model (StreamEnd reason _ # evs) =
     [sse_chunk r model \<lparr>cd_role = None, cd_content = None\<rparr> (Some reason), DoneFrame]"

definition sse :: "rid \<Rightarrow> string \<Rightarrow> stream_event list \<Rightarrow> sse_frame list" where
  "sse r model evs = sse_chunk r model \<lparr>cd_role = Some ''assistant'', cd_content = None\<rparr> None # sse_events r model evs"

text \<open>Its \<open>finally\<close> clause: a request that has not finished is cancelled.\<close>

definition sse_finally :: "rid \<Rightarrow> engine \<Rightarrow> engine" where
  "sse_finally r e =
     (case eng_store e r of
        Some q \<Rightarrow> if qr_finished_at q = None then client_cancel r e else e
      | None \<Rightarrow> e)"

end
