(* ===== verification/Sir_App.thy ===== *)
theory Sir_App
  imports Sir_Api
begin

text \<open>
  The router as a whole: the steps of the engine and its environment together with the requests
  of HTTP clients, the pumps and the sweeper, on the shared requests. Everything the API and the
  job store do to the engine is a sequence of engine steps (\<open>app_step_engine\<close>), so all that was
  proved of the engine holds in the application; and the invariant of the job store is kept by
  every step of the engine (\<open>app_inv\<close>).
\<close>

subsection \<open>Requests only grow\<close>

definition grows :: "store \<Rightarrow> store \<Rightarrow> bool" where
  "grows st st' \<longleftrightarrow> (\<forall>i q. st i = Some q \<longrightarrow> (\<exists>q' evs. st' i = Some q'
     \<and> qr_events q' = qr_events q @ evs \<and> (qr_cancelled q \<longrightarrow> qr_cancelled q')))"

lemma grows_refl [simp, intro]: "grows st st"
  by (auto simp: grows_def)

lemma grows_trans: "grows st st1 \<Longrightarrow> grows st1 st2 \<Longrightarrow> grows st st2"
  unfolding grows_def by (metis append.assoc)

lemma grows_map_req:
  assumes "\<And>q. \<exists>evs. qr_events (f q) = qr_events q @ evs \<and> qr_cancelled (f q) = qr_cancelled q"
  shows "grows (eng_store e) (eng_store (map_req r f e))"
  unfolding grows_def
proof (intro allI impI)
  fix i q assume q: "eng_store e i = Some q"
  obtain evs where "qr_events (f q) = qr_events q @ evs" "qr_cancelled (f q) = qr_cancelled q"
    using assms by blast
  with q show "\<exists>q' evs. eng_store (map_req r f e) i = Some q' \<and> qr_events q' = qr_events q @ evs
      \<and> (qr_cancelled q \<longrightarrow> qr_cancelled q')"
    by (cases "i = r") (auto simp: map_req_def upd_req_def split: option.splits)
qed

lemma grows_serve_finally: "grows (eng_store e) (eng_store (serve_finally r e))"
proof -
  have "eng_store (serve_finally r e) = eng_store (map_req r (\<lambda>q. q\<lparr>qr_finished_at := Some (eng_now e)\<rparr>) e)"
    by (simp add: serve_finally_def map_task_def observe_duration_def Let_def split: option.split)
  then show ?thesis using grows_map_req [of "\<lambda>q. q\<lparr>qr_finished_at := Some (eng_now e)\<rparr>" e r] by simp
qed

lemma grows_finally:
  assumes "eng_store e1 = eng_store (map_req r f e)"
    and "\<And>q. \<exists>evs. qr_events (f q) = qr_events q @ evs \<and> qr_cancelled (f q) = qr_cancelled q"
  shows "grows (eng_store e) (eng_store (serve_finally r e1))"
  using grows_trans [OF grows_map_req [OF assms(2), of e r]] grows_serve_finally [of e1 r] assms(1) by simp

lemma grows_serve_end: "grows (eng_store e) (eng_store (serve_end r ev e))"
proof (cases "eng_store e r")
  case None
  then show ?thesis by (simp add: serve_end_def)
next
  case (Some q)
  show ?thesis
  proof (cases "qr_cancelled q")
    case True
    have "grows (eng_store e) (eng_store (serve_finally r (map_req r (\<lambda>q. q\<lparr>qr_state := CANCELLED\<rparr>) e)))"
      by (rule grows_finally [OF refl]) simp
    with Some True show ?thesis by (simp add: serve_end_def)
  next
    case False
    have "grows (eng_store e) (eng_store (serve_finally r (emit EV_COMPLETE (qr_model q) r None
        (map_req r (\<lambda>q. put_event ev (q\<lparr>qr_state := DONE\<rparr>)) e))))"
      by (rule grows_finally [where f = "\<lambda>q. put_event ev (q\<lparr>qr_state := DONE\<rparr>)"])
        (simp_all add: emit_def put_event_def)
    with Some False show ?thesis by (simp add: serve_end_def)
  qed
qed

lemma grows_serve: "grows (eng_store e) (eng_store (serve r out e))"
proof (cases "eng_store e r")
  case None
  then show ?thesis by (simp add: serve_def)
next
  case (Some q)
  show ?thesis
  proof (cases out)
    case (YieldChunk t i)
    then show ?thesis
      using Some grows_serve_end [of e r] grows_map_req [of "put_event (Chunk t i)" e r]
      by (simp add: serve_def put_event_def)
  next
    case (RaiseBackend msg)
    have "grows (eng_store e) (eng_store (serve_finally r (emit EV_FAILED (qr_model q) msg None
        ((map_req r (\<lambda>q. put_event (StreamError msg 503) (q\<lparr>qr_state := FAILED\<rparr>)) e)
          \<lparr>eng_failed := List.insert (qr_model q) (eng_failed e)\<rparr>))))"
      by (rule grows_finally [where f = "\<lambda>q. put_event (StreamError msg 503) (q\<lparr>qr_state := FAILED\<rparr>)"])
        (simp_all add: emit_def put_event_def map_req_def)
    with Some RaiseBackend show ?thesis by (simp add: serve_def)
  next
    case (RaiseOther msg rep)
    have "grows (eng_store e) (eng_store (serve_finally r (emit EV_FAILED (qr_model q) rep None
        (map_req r (\<lambda>q. put_event (StreamError (''internal error: '' @ msg) 500) (q\<lparr>qr_state := FAILED\<rparr>)) e))))"
      by (rule grows_finally [where f = "\<lambda>q. put_event (StreamError (''internal error: '' @ msg) 500) (q\<lparr>qr_state := FAILED\<rparr>)"])
        (simp_all add: emit_def put_event_def)
    with Some RaiseOther show ?thesis by (simp add: serve_def)
  next
    case DeliverCancel
    have "grows (eng_store e) (eng_store (serve_finally r (emit EV_CANCELLED (qr_model q) r None
        (map_req r (\<lambda>q. q\<lparr>qr_state := CANCELLED\<rparr>) e))))"
      by (rule grows_finally [where f = "\<lambda>q. q\<lparr>qr_state := CANCELLED\<rparr>"]) (simp_all add: emit_def)
    with Some DeliverCancel show ?thesis by (simp add: serve_def)
  qed (use Some grows_serve_end in \<open>simp_all add: serve_def\<close>)
qed

lemma keeps_grows:
  assumes "keeps e e'"
  shows "grows (eng_store e) (eng_store e')"
  unfolding grows_def
proof (intro allI impI)
  fix i q assume q: "eng_store e i = Some q"
  have "map_option qr_events (eng_store e' i) = Some (qr_events q)"
    using assms q unfolding keeps_def channels_def by (metis comp_apply option.simps(9))
  then obtain q' where q': "eng_store e' i = Some q'" "qr_events q' = qr_events q" by auto
  moreover have "qr_cancelled q' = qr_cancelled q"
    using assms q q' unfolding keeps_def is_cancelled_def by (metis option.simps(5))
  ultimately show "\<exists>q' evs. eng_store e' i = Some q' \<and> qr_events q' = qr_events q @ evs
      \<and> (qr_cancelled q \<longrightarrow> qr_cancelled q')" by simp
qed

lemma grows_shut: "grows st (shut_store ids st)"
  by (auto simp: grows_def shut_store_def shut_request_def put_event_def)

lemma engine_step_grows:
  assumes "engine_step e e'" and "engine_inv e"
  shows "grows (eng_store e) (eng_store e')"
  using assms
proof (induction rule: engine_step.induct)
  case (arrive e r req e')
  then obtain q where "eng_store e' = (eng_store e)(r \<mapsto> q)" using submit_frame by metis
  with arrive(1) show ?case by (auto simp: grows_def)
next
  case (disconnect e r)
  show ?case by (auto simp: grows_def client_cancel_def map_req_def upd_req_def qr_cancel_def split: option.splits)
next
  case (task r out e)
  show ?case by (rule grows_serve)
next
  case (start e)
  show ?case by (simp add: start_engine_def)
next
  case (top e e')
  then show ?case using keeps_loop_top [of e e'] by (auto simp: engine_inv_def intro: keeps_grows)
next
  case (failed_gather e m ms e')
  then show ?case using keeps_transitions(1) [of m ms e e'] by (auto intro: keeps_grows)
next
  case (failed_stop e m ms e')
  then show ?case using keeps_fail_stopped [of m ms e e'] by (auto simp: engine_inv_def intro: keeps_grows)
next
  case (drained e t s e')
  then show ?case using keeps_transitions(2) [of t s e e'] by (auto intro: keeps_grows)
next
  case (unloaded e t p e')
  then show ?case using keeps_transitions(3) [of t p e e'] by (auto intro: keeps_grows)
next
  case (loaded e t s)
  then show ?case using keeps_transitions(4) [of e t s] by (auto intro: keeps_grows)
next
  case (load_fails e t s msg)
  then show ?case using keeps_transitions(5) [of e t s msg] by (auto intro: keeps_grows)
next
  case (load_fail_stop e t)
  then show ?case using keeps_transitions(6) [of e t] by (auto intro: keeps_grows)
next
  case (stop e)
  have "eng_store (stop_begin e) = eng_store e"
    by (simp add: stop_begin_def cancel_tasks_def cancel_loop_def emit_def split: loop_pc.splits)
  then show ?case by simp
next
  case (stop_gather e e')
  then have inv: "inv_at StopGather e" by (simp add: engine_inv_def)
  have "eng_store e' = shut_store (queued_ids (eng_queues e)) (eng_store e)"
    using stop_gathered_eq [OF inv] stop_gather(3) by (auto simp: Let_def split: option.splits)
  then show ?case by (simp add: grows_shut)
next
  case (stop_wait e m)
  then show ?case by (simp add: stop_finish_def)
qed auto

lemma engine_step_requests:
  assumes "engine_step e e'" and "engine_inv e"
  shows "requests_grow (eng_store e) (eng_store e')"
  unfolding requests_grow_def
proof (intro allI impI)
  fix i q assume q: "eng_store e i = Some q"
  from engine_step_grows [OF assms] q obtain q' evs where q': "eng_store e' i = Some q'"
    "qr_events q' = qr_events q @ evs" "qr_cancelled q \<longrightarrow> qr_cancelled q'" unfolding grows_def by blast
  have "qr_state q' = qr_state q" if "qr_state q \<in> {DONE, FAILED, CANCELLED}"
    using engine_step_final [OF assms q] that q'(1) by (auto simp: final_state_def qr_cancel_def)
  with q' show "\<exists>q' evs. eng_store e' i = Some q' \<and> qr_events q' = qr_events q @ evs
      \<and> (qr_cancelled q \<longrightarrow> qr_cancelled q')
      \<and> (qr_state q \<in> {DONE, FAILED, CANCELLED} \<longrightarrow> qr_state q' = qr_state q)" by blast
qed

subsection \<open>The estimates of a reachable engine\<close>

lemma position_from_mem: "position_from st r pos rs = Some p \<Longrightarrow> r \<in> set rs"
  by (induction rs arbitrary: pos) (auto split: if_splits)

lemma engine_estimate_total:
  assumes inv: "inv_at pc e"
  shows "\<exists>w. engine_estimate_wait r e = Inr w \<and> (\<forall>x. w = Some x \<longrightarrow> we_retry_after x \<le> max_retry_after)"
proof (cases "case (eng_store e r, mq_position_of r (qst e)) of (Some q, Some p) \<Rightarrow> True | _ \<Rightarrow> False")
  case False
  then have "engine_estimate_wait r e = Inr None"
    by (auto simp: engine_estimate_wait_def split: option.splits)
  then show ?thesis by simp
next
  case True
  then obtain q p where q: "eng_store e r = Some q" and p: "mq_position_of r (qst e) = Some p"
    by (auto split: option.splits)
  then obtain rs where "map_of (eng_queues e) (qr_model q) = Some rs"
    using position_from_mem by (fastforce simp: mq_position_of_def split: option.splits)
  then have known: "qr_model q \<in> set (names_of e)"
    using queue_keys [OF inv] by (metis fst_conv image_eqI list.set_map map_of_SomeD)
  obtain snap where snap: "snapshot e = Some snap" "snapshot_ok snap" "map ms_name (ss_models snap) = names_of e"
    using snapshot_Some [OF inv] by blast
  with known obtain m where m: "m \<in> set (ss_models snap)" "ms_name m = qr_model q"
    by (metis image_iff list.set_map)
  then have "by_name snap (qr_model q) = Some m"
    using by_name_mem [of snap m] snap(2) by (simp add: snapshot_ok_def)
  moreover have "0 < sc_max_concurrent_requests (sched e)"
    using inv by (simp add: inv_at_def valid_app_config_def valid_scheduler_config_def)
  ultimately show ?thesis
    using q p snap(1) by (simp add: engine_estimate_wait_def estimate_wait_def Let_def)
qed

lemma document_total:
  assumes "inv_at pc e"
  obtains w where "(if is_terminal (eng_store e) j then w = None else engine_estimate_wait (jb_id j) e = Inr w)"
    "document e j jobs = Inr \<lparr>jd_id = jb_id j, jd_status = request_state_value (job_state (eng_store e) j),
               jd_model = cr_model (jb_body j), jd_wait = map_option wait_info_of w,
               jd_retry_after = retry_advice e j jobs w,
               jd_response = job_response (eng_store e) j, jd_error = job_failure (eng_store e) j\<rparr>"
proof (cases "is_terminal (eng_store e) j")
  case True
  with that [of None] show thesis by (simp add: document_def)
next
  case False
  obtain w where "engine_estimate_wait (jb_id j) e = Inr w" using engine_estimate_total [OF assms] by blast
  with False that [of w] show thesis by (simp add: document_def)
qed

subsection \<open>Steps of the application\<close>

text \<open>
  The application moves when its engine or the engine's environment does, when a client sends one
  of the requests the API serves, when a pump takes an event or ends, when the sweeper runs, and
  when the job store is stopped. The engine's own \<open>arrive\<close> steps cover requests of other origin.
\<close>

definition sweep_app :: "app \<Rightarrow> app" where
  "sweep_app a =
     (case sweep_once (eng_now (ap_engine a)) (eng_store (ap_engine a), ap_jobs a) of
        (st, js) \<Rightarrow> a\<lparr>ap_engine := (ap_engine a)\<lparr>eng_store := st\<rparr>, ap_jobs := js\<rparr>)"

definition pump_app :: "rid \<Rightarrow> app \<Rightarrow> app option" where
  "pump_app i a =
     (case map_of (js_jobs (ap_jobs a)) i of
        None \<Rightarrow> None
      | Some j \<Rightarrow>
          (case pump_step (eng_now (ap_engine a)) (eng_store (ap_engine a)) j of
             None \<Rightarrow> None
           | Some j' \<Rightarrow> Some (a\<lparr>ap_jobs := upd_job i (\<lambda>_. j') (ap_jobs a)\<rparr>)))"

inductive app_step :: "app \<Rightarrow> app \<Rightarrow> bool" where
  engine: "engine_step (ap_engine a) e' \<Longrightarrow> app_step a (a\<lparr>ap_engine := e'\<rparr>)"
| chat: "eng_store (ap_engine a) r = None \<Longrightarrow> r \<noteq> [] \<Longrightarrow>
    chat_completions prefer key r body a = Inr (rep, a') \<Longrightarrow> app_step a a'"
| get: "api_get_job i a = Inr (rep, a') \<Longrightarrow> app_step a a'"
| cancel: "api_cancel_job i a = Inr (rep, a') \<Longrightarrow> app_step a a'"
| pump: "pump_app i a = Some a' \<Longrightarrow> app_step a a'"
| pump_end: "app_step a (a\<lparr>ap_jobs := upd_job i (pump_cancelled (eng_now (ap_engine a))) (ap_jobs a)\<rparr>)"
| sweep: "app_step a (sweep_app a)"
| jobs_stop: "app_step a (a\<lparr>ap_jobs := stop_jobs (ap_jobs a)\<rparr>)"

inductive app_reachable :: "app_config \<Rightarrow> seconds \<Rightarrow> app \<Rightarrow> bool" for c t0 where
  init: "valid_app_config c \<Longrightarrow> app_reachable c t0 (init_app c t0)"
| step: "app_reachable c t0 a \<Longrightarrow> app_step a a' \<Longrightarrow> app_reachable c t0 a'"

subsection \<open>What the API does to the engine\<close>

abbreviation engine_steps :: "engine \<Rightarrow> engine \<Rightarrow> bool" where
  "engine_steps \<equiv> engine_step\<^sup>*\<^sup>*"

lemma cancel_store_step: "engine_steps e (e\<lparr>eng_store := upd_req i qr_cancel (eng_store e)\<rparr>)"
  using engine_step.disconnect [of e i] by (simp add: client_cancel_def map_req_def)

lemma sweep_job_steps:
  "engine_steps e (e\<lparr>eng_store := fst (sweep_job now j (eng_store e, js))\<rparr>)"
  using cancel_store_step [of e "jb_id j"]
  by (auto simp: sweep_job_def abandon_def Let_def split: option.splits)

lemma sweep_fold_steps:
  "engine_steps (e\<lparr>eng_store := fst s\<rparr>) (e\<lparr>eng_store := fst (fold (sweep_job now) xs s)\<rparr>)"
proof (induction xs arbitrary: s)
  case Nil
  then show ?case by simp
next
  case (Cons j xs)
  obtain st js where s: "s = (st, js)" by (cases s)
  have "engine_steps (e\<lparr>eng_store := st\<rparr>) (e\<lparr>eng_store := fst (sweep_job now j (st, js))\<rparr>)"
    using sweep_job_steps [of "e\<lparr>eng_store := st\<rparr>" now j js] by simp
  with Cons [of "sweep_job now j (st, js)"] show ?case unfolding s by simp
qed

lemma with_app_Inr: "with_app a r = Inr (rep, a') \<longleftrightarrow> r = Inr rep \<and> a' = a"
  by (auto simp: with_app_def split: sum.splits)

lemma chat_engine_steps:
  assumes fresh: "eng_store (ap_engine a) r = None" and run: "chat_completions prefer key r body a = Inr (rep, a')"
  shows "engine_steps (ap_engine a) (ap_engine a')"
proof -
  have sub: "engine_steps (ap_engine a) e'" if "submit req r (ap_engine a) = Inr e'" for req e'
    using engine_step.arrive [OF fresh that] by blast
  have can: "engine_steps (ap_engine a) (client_cancel r e')" if "submit req r (ap_engine a) = Inr e'" for req e'
    using sub [OF that] engine_step.disconnect [of e' r] by (meson rtranclp.rtrancl_into_rtrancl)
  show ?thesis
    using run by (auto simp: chat_completions_def Let_def with_app_Inr dest: sub can
        split: option.splits if_splits sum.splits job_error.splits prod.splits)
qed

lemma job_reply_app: "job_reply i jo a = Inr (rep, a') \<Longrightarrow> a' = a"
  by (auto simp: job_reply_def split: option.splits sum.splits)

lemma app_step_engine:
  assumes "app_step a a'"
  shows "engine_steps (ap_engine a) (ap_engine a')"
  using assms
proof (cases rule: app_step.cases)
  case (engine e')
  then show ?thesis by auto
next
  case (chat r headers key body rep)
  then show ?thesis using chat_engine_steps by blast
next
  case (get i rep)
  then have "ap_engine a' = ap_engine a"
    using job_reply_app by (fastforce simp: api_get_job_def split: prod.splits)
  then show ?thesis by simp
next
  case (cancel i rep)
  then have "ap_engine a' = ap_engine a \<or>
      ap_engine a' = (ap_engine a)\<lparr>eng_store := upd_req i qr_cancel (eng_store (ap_engine a))\<rparr>"
    by (auto simp: api_cancel_job_def cancel_job_def abandon_def split: option.splits dest!: job_reply_app)
  then show ?thesis using cancel_store_step by (metis rtranclp.rtrancl_refl)
next
  case (pump i)
  then show ?thesis by (auto simp: pump_app_def split: option.splits)
next
  case sweep
  have "engine_steps (ap_engine a) ((ap_engine a)\<lparr>eng_store :=
      fst (sweep_once (eng_now (ap_engine a)) (eng_store (ap_engine a), ap_jobs a))\<rparr>)"
    using sweep_fold_steps [where e = "ap_engine a" and s = "(eng_store (ap_engine a), ap_jobs a)"]
    by (simp add: sweep_once_def)
  then have "engine_steps (ap_engine a) (ap_engine (sweep_app a))"
    by (cases "sweep_once (eng_now (ap_engine a)) (eng_store (ap_engine a), ap_jobs a)") (simp add: sweep_app_def)
  with sweep show ?thesis by simp
qed auto

subsection \<open>The invariant of the application\<close>

lemma find_by_key_None:
  assumes "jobs_inv st js" and "find_by_key k js = None" and "k \<noteq> []"
  shows "js_by_key js k = None"
proof (rule ccontr)
  assume "js_by_key js k \<noteq> None"
  then obtain i where i: "js_by_key js k = Some i" by blast
  then obtain x where x: "(i, x) \<in> set (js_jobs js)"
    using jobs_invD(3) [OF assms(1)] assms(3) by (auto simp: index_ok_def)
  then have "i \<noteq> []" "map_of (js_jobs js) i = Some x"
    using jobs_invD(1,2) [OF assms(1)] by (auto simp: job_ok_def)
  with assms(2) i show False by (simp add: find_by_key_def)
qed

lemma create_config: "create_job now st r body key js = Inr (j, js') \<Longrightarrow> js_config js' = js_config js"
  by (auto simp: create_job_def make_room_def insert_job_def forget_def Let_def
      split: sum.splits if_splits list.splits)

lemma create_inv:
  assumes inv: "jobs_inv st js" and "st r = Some q" and "r \<noteq> []" and "r \<notin> fst ` set (js_jobs js)"
    and "\<forall>k. key = Some k \<longrightarrow> k \<noteq> [] \<longrightarrow> find_by_key k js = None"
    and new: "create_job now st r body key js = Inr (j, js')"
  shows "jobs_inv st js'" and "map_of (js_jobs js') r = Some j" and "j = new_job now r body key"
proof -
  have fresh: "job_fresh st (new_job now r body key) js"
    using new_job_fresh [where st = st and r = r and q = q and js = js, OF assms(2-4)] find_by_key_None [OF inv] assms(5) by blast
  from create_admit [OF new] have j: "j = new_job now r body key"
    and a: "bounded_table.admit (room_of st) insert_job (new_job now r body key) js = Some js'" by auto
  show ok: "jobs_inv st js'" using held.admit_ok [OF inv fresh a] by blast
  show "map_of (js_jobs js') r = Some j"
    using jobs_mem(2) [OF ok held.admit_present [OF inv fresh a]] j by (simp add: new_job_def)
  show "j = new_job now r body key" by (rule j)
qed

definition app_inv :: "app_config \<Rightarrow> app \<Rightarrow> bool" where
  "app_inv c a \<longleftrightarrow> engine_inv (ap_engine a) \<and> eng_config (ap_engine a) = c
     \<and> jobs_inv (eng_store (ap_engine a)) (ap_jobs a) \<and> js_config (ap_jobs a) = ac_jobs c"

lemma engine_steps_inv:
  assumes "engine_steps e e'" and "engine_inv e"
  shows "engine_inv e' \<and> requests_grow (eng_store e) (eng_store e') \<and> eng_config e' = eng_config e"
  using assms(1)
proof (induction rule: rtranclp_induct)
  case base
  then show ?case using assms(2) by (auto simp: requests_grow_def)
next
  case (step e1 e2)
  then have "requests_grow (eng_store e1) (eng_store e2)" using engine_step_requests by blast
  then have "requests_grow (eng_store e) (eng_store e2)"
    using step.IH unfolding requests_grow_def by (metis append.assoc)
  then show ?case using step engine_step_inv engine_step_config by metis
qed

lemma jobs_step_inv:
  assumes "app_inv c a" and "engine_steps (ap_engine a) (ap_engine a')"
    and "jobs_inv (eng_store (ap_engine a')) (ap_jobs a')" and "js_config (ap_jobs a') = js_config (ap_jobs a)"
  shows "app_inv c a'"
  using assms engine_steps_inv [OF assms(2)] by (simp add: app_inv_def)

lemma upd_job_config [simp]: "js_config (upd_job i f js) = js_config js"
  by (simp add: upd_job_def)

lemma jobs_kept:
  assumes "app_inv c a" and "engine_steps (ap_engine a) e'"
  shows "jobs_inv (eng_store e') (ap_jobs a)"
  using requests_grow_inv engine_steps_inv [OF assms(2)] assms(1) unfolding app_inv_def by blast

lemma held_in_store:
  assumes "jobs_inv st js" and "st r = None"
  shows "r \<notin> fst ` set (js_jobs js)"
  using jobs_invD(2) [OF assms(1)] assms(2) by (force simp: job_ok_def)

lemma resubmitted_None:
  assumes "resubmitted True key js = None"
  shows "\<forall>k. key = Some k \<longrightarrow> k \<noteq> [] \<longrightarrow> find_by_key k js = None"
  using assms by (auto simp: resubmitted_def)

lemma submit_stores:
  assumes "engine_inv e" "eng_store e r = None" "submit req r e = Inr e'"
  shows "\<exists>q. eng_store e' r = Some q"
  using submit_frame [OF assms] by (metis fun_upd_same)

lemma get_job_config: "js_config (snd (get_job now st i js)) = js_config js"
  by (simp add: get_job_def upd_job_def split: option.split)

lemma chat_inv:
  assumes inv: "app_inv c a" and fresh: "eng_store (ap_engine a) r = None" and "r \<noteq> []"
    and run: "chat_completions hs key r body a = Inr (rep, a')"
  shows "app_inv c a'"
proof -
  have ji: "jobs_inv (eng_store (ap_engine a)) (ap_jobs a)" and ei: "engine_inv (ap_engine a)"
    using inv by (auto simp: app_inv_def)
  have steps: "engine_steps (ap_engine a) (ap_engine a')" by (rule chat_engine_steps [OF fresh run])
  show ?thesis
  proof (cases "ap_jobs a' = ap_jobs a")
    case True
    with jobs_step_inv [OF inv steps] jobs_kept [OF inv steps] show ?thesis by simp
  next
    case False
    then obtain req e' j where e': "submit req r (ap_engine a) = Inr e'" "ap_engine a' = e'"
      and res: "resubmitted True key (ap_jobs a) = None"
      and new: "create_job (eng_now e') (eng_store e') r body key (ap_jobs a) = Inr (j, ap_jobs a')"
      using run by (auto simp: chat_completions_def Let_def with_app_Inr
          split: option.splits if_splits sum.splits job_error.splits prod.splits)
    obtain q where q: "eng_store e' r = Some q" using submit_stores [OF ei fresh e'(1)] by blast
    have "jobs_inv (eng_store e') (ap_jobs a)" using jobs_kept [OF inv] steps e'(2) by simp
    from create_inv(1) [OF this q \<open>r \<noteq> []\<close> held_in_store [OF ji fresh] resubmitted_None [OF res] new]
    have "jobs_inv (eng_store (ap_engine a')) (ap_jobs a')" using e'(2) by simp
    from jobs_step_inv [OF inv steps this] create_config [OF new] show ?thesis by blast
  qed
qed

lemma app_step_inv:
  assumes "app_step a a'" and inv: "app_inv c a"
  shows "app_inv c a'"
  using assms(1)
proof (cases rule: app_step.cases)
  case (engine e')
  then have "engine_steps (ap_engine a) e'" by blast
  with jobs_step_inv [OF inv, of a'] jobs_kept [OF inv this] engine(1) show ?thesis by simp
next
  case (chat r hs key body rep)
  then show ?thesis using chat_inv [OF inv] by blast
next
  case (get i rep)
  then have "a' = a\<lparr>ap_jobs := snd (get_job (eng_now (ap_engine a)) (eng_store (ap_engine a)) i (ap_jobs a))\<rparr>"
    using job_reply_app by (fastforce simp: api_get_job_def split: prod.splits)
  with inv get_job_inv show ?thesis by (simp add: app_inv_def get_job_config)
next
  case (cancel i rep)
  let ?s = "(eng_store (ap_engine a), ap_jobs a)"
  have "a' = a \<or> a' = a\<lparr>ap_engine := (ap_engine a)\<lparr>eng_store := fst (abandon (eng_now (ap_engine a)) i ?s)\<rparr>,
      ap_jobs := snd (abandon (eng_now (ap_engine a)) i ?s)\<rparr>"
    using cancel job_reply_app by (fastforce simp: api_cancel_job_def cancel_job_def split: option.splits prod.splits)
  moreover have "jobs_inv (fst (abandon (eng_now (ap_engine a)) i ?s)) (snd (abandon (eng_now (ap_engine a)) i ?s))"
    by (rule abandon_inv) (use inv in \<open>simp add: app_inv_def\<close>)
  ultimately show ?thesis
    using inv app_step_engine [OF assms(1)] jobs_step_inv [OF inv, of a'] by (auto simp: abandon_def)
next
  case (pump i)
  then obtain j j' where "map_of (js_jobs (ap_jobs a)) i = Some j"
    "pump_step (eng_now (ap_engine a)) (eng_store (ap_engine a)) j = Some j'"
    "a' = a\<lparr>ap_jobs := upd_job i (\<lambda>_. j') (ap_jobs a)\<rparr>" by (auto simp: pump_app_def split: option.splits)
  with pump_inv inv show ?thesis by (simp add: app_inv_def)
next
  case (pump_end i)
  let ?f = "pump_cancelled (eng_now (ap_engine a))"
  have key: "jb_idempotency_key (?f j) = jb_idempotency_key j" for j by (simp add: pump_cancelled_def)
  have "jobs_inv (eng_store (ap_engine a)) (upd_job i ?f (ap_jobs a))"
    by (rule upd_job_inv) (use inv jobs_invD(2) in \<open>auto simp: app_inv_def key intro: pump_cancelled_ok\<close>)
  with inv pump_end show ?thesis by (simp add: app_inv_def)
next
  case sweep
  obtain st js where s: "sweep_once (eng_now (ap_engine a)) (eng_store (ap_engine a), ap_jobs a) = (st, js)"
    by fastforce
  have ji: "jobs_inv (eng_store (ap_engine a)) (ap_jobs a)" using inv by (simp add: app_inv_def)
  have "engine_steps (ap_engine a) (ap_engine a')" by (rule app_step_engine [OF assms(1)])
  from jobs_step_inv [OF inv this] sweep_inv [OF ji s] sweep_once_spec(3) [OF ji s] sweep s
  show ?thesis by (simp add: sweep_app_def)
next
  case jobs_stop
  with inv show ?thesis by (auto simp: app_inv_def intro: stop_jobs_inv) (simp add: stop_jobs_def)
qed

lemma app_reachable_inv: "app_reachable c t0 a \<Longrightarrow> app_inv c a"
proof (induction rule: app_reachable.induct)
  case init
  then have e: "engine_inv (init_engine c t0)" using reachable_inv [OF reachable.init] by blast
  have "engine_steps (init_engine c t0) (start_engine (init_engine c t0))"
    using engine_step.start [of "init_engine c t0"] by (auto simp: init_engine_def)
  with e have "engine_inv (start_engine (init_engine c t0))" using engine_steps_inv by blast
  moreover have "eng_config (start_engine (init_engine c t0)) = c" by (simp add: start_engine_def init_engine_def)
  moreover have "0 < jc_max_jobs (ac_jobs c)" using init by (simp add: valid_app_config_def valid_jobs_config_def)
  ultimately show ?case
    by (simp add: app_inv_def init_app_def init_jobs_inv start_jobs_inv)
      (simp add: start_jobs_def init_job_store_def)
next
  case (step a a')
  then show ?case using app_step_inv by blast
qed

lemma app_reachable_engine: "app_reachable c t0 a \<Longrightarrow> reachable c t0 (ap_engine a)"
proof (induction rule: app_reachable.induct)
  case init
  have "engine_step (init_engine c t0) (start_engine (init_engine c t0))"
    by (rule engine_step.start) (simp add: init_engine_def)
  with reachable.init [OF init] show ?case by (auto simp: init_app_def intro: reachable.step)
next
  case (step a a')
  then show ?case using app_step_engine reachable_steps by blast
qed

subsection \<open>Properties\<close>

text \<open>
  C29. The application refines the engine: whatever a client sends, and whatever the pumps and the
  sweeper do, changes the engine only by the engine's own steps, so every state the application
  reaches holds an engine that the engine model reaches; and each step keeps every job's request
  in the engine, with what was ever sent on its channel.
\<close>

theorem app_refines_engine:
  assumes "app_reachable c t0 a" and "app_step a a'"
  shows "reachable c t0 (ap_engine a) \<and> engine_step\<^sup>*\<^sup>* (ap_engine a) (ap_engine a')
    \<and> requests_grow (eng_store (ap_engine a)) (eng_store (ap_engine a'))"
  using app_reachable_engine [OF assms(1)] app_step_engine [OF assms(2)]
    engine_steps_inv [OF app_step_engine [OF assms(2)]] app_reachable_inv [OF assms(1)]
  by (auto simp: app_inv_def)

text \<open>What a client of the event stream can read off its frames: the text, and how it ended.\<close>

fun frame_text :: "sse_frame \<Rightarrow> string" where
  "frame_text (DataFrame ch) = (case cd_content (cc_delta ch) of Some t \<Rightarrow> t | None \<Rightarrow> [])"
| "frame_text _ = []"

fun frame_finish :: "sse_frame \<Rightarrow> string list" where
  "frame_finish (DataFrame ch) = (case cc_finish_reason ch of Some t \<Rightarrow> [t] | None \<Rightarrow> [])"
| "frame_finish _ = []"

fun frame_error :: "sse_frame \<Rightarrow> error_info list" where
  "frame_error (ErrorFrame err) = [err]"
| "frame_error _ = []"

lemma collect_chunks:
  "collect body r parts (map chunk_event cs @ evs) gone = collect body r (parts @ map fst cs) evs gone"
  by (induction cs arbitrary: parts) (auto simp: chunk_event_def)

lemma sse_chunks:
  "sse_events r m (map chunk_event cs @ evs) =
     map (\<lambda>c. sse_chunk r m \<lparr>cd_role = None, cd_content = Some (fst c)\<rparr> None) cs @ sse_events r m evs"
  by (induction cs) (auto simp: chunk_event_def)

lemma frames_of_chunks:
  "concat (map (frame_text \<circ> (\<lambda>c. sse_chunk r m \<lparr>cd_role = None, cd_content = Some (fst c)\<rparr> None)) cs) = concat (map fst cs)"
  "concat (map (frame_finish \<circ> (\<lambda>c. sse_chunk r m \<lparr>cd_role = None, cd_content = Some (fst c)\<rparr> None)) cs) = []"
  "concat (map (frame_error \<circ> (\<lambda>c. sse_chunk r m \<lparr>cd_role = None, cd_content = Some (fst c)\<rparr> None)) cs) = []"
  by (induction cs) (auto simp: sse_chunk_def)

lemma job_channel:
  assumes "jobs_inv st js" and "map_of (js_jobs js) i = Some j" and "jb_terminal j = Some ev"
  obtains q rest where "st i = Some q" "qr_events q = map chunk_event (jb_chunks j) @ ev # rest"
    "jb_id j = i" "\<not> is_chunk ev"
proof -
  have ok: "job_ok st i j" using jobs_invD(2) [OF assms(1) map_of_SomeD [OF assms(2)]] .
  then obtain q where q: "st i = Some q" "take (jb_read j) (qr_events q) = map chunk_event (jb_chunks j) @ [ev]"
    using assms(3) by (auto simp: job_ok_def)
  have "qr_events q = map chunk_event (jb_chunks j) @ ev # drop (jb_read j) (qr_events q)"
    using append_take_drop_id [of "jb_read j" "qr_events q"] unfolding q(2) by simp
  with that q(1) ok assms(3) show thesis by (auto simp: job_ok_def)
qed

text \<open>
  C30. The three renderings of a request's event stream agree. For a job whose pump has met the
  end of the stream, the response in the job's document is the completion a client waiting on the
  socket gets from the same channel, and the frames of the streaming rendering carry the same text
  and finish reason; after an error, all three give the same error.
\<close>

theorem renderings_agree:
  assumes "app_reachable c t0 a" and "map_of (js_jobs (ap_jobs a)) i = Some j"
    and "jb_terminal j = Some ev" and "eng_store (ap_engine a) i = Some q"
  shows "case collect (jb_body j) i [] (qr_events q) gone of
      Completion resp \<Rightarrow> job_response (eng_store (ap_engine a)) j = Some resp
        \<and> job_failure (eng_store (ap_engine a)) j = None
        \<and> concat (map frame_text (sse i m (qr_events q))) = rp_content resp
        \<and> concat (map frame_finish (sse i m (qr_events q))) = [rp_finish_reason resp]
        \<and> concat (map frame_error (sse i m (qr_events q))) = []
    | CollectFailed status err \<Rightarrow> job_response (eng_store (ap_engine a)) j = None
        \<and> job_failure (eng_store (ap_engine a)) j = Some err
        \<and> concat (map frame_finish (sse i m (qr_events q))) = []
        \<and> concat (map frame_error (sse i m (qr_events q))) = [err]
    | _ \<Rightarrow> False"
proof -
  have "jobs_inv (eng_store (ap_engine a)) (ap_jobs a)"
    using app_reachable_inv [OF assms(1)] by (simp add: app_inv_def)
  from job_channel [OF this assms(2,3)] assms(4) obtain rest where
    evs: "qr_events q = map chunk_event (jb_chunks j) @ ev # rest" and id: "jb_id j = i" and nc: "\<not> is_chunk ev"
    by auto
  show ?thesis
    using nc assms(3)
    by (cases ev) (simp_all add: evs id collect_chunks sse_def sse_chunks frames_of_chunks job_response_def
        job_failure_def job_state_def job_texts_def job_finish_reason_def job_usage_def build_response_def
        sse_chunk_def [of _ _ "\<lparr>cd_role = Some _, cd_content = _\<rparr>"]
        sse_chunk_def [of _ _ "\<lparr>cd_role = None, cd_content = None\<rparr>"] Let_def)
qed

subsection \<open>Sample runs\<close>

datatype app_move =
  Engine_moves "move list"
| Chat "string list" "string option" rid chat_request
| Get_job rid
| Delete_job rid
| Pump rid
| Sweep_jobs

definition new_app :: "(py_error + reply \<times> app) \<Rightarrow> app option" where
  "new_app r = (case r of Inl _ \<Rightarrow> None | Inr (_, a) \<Rightarrow> Some a)"

fun do_app :: "app_move \<Rightarrow> app \<Rightarrow> app option" where
  "do_app (Engine_moves ms) a = map_option (\<lambda>e. a\<lparr>ap_engine := e\<rparr>) (run ms (ap_engine a))"
| "do_app (Chat hs key r body) a =
     (if eng_store (ap_engine a) r = None \<and> r \<noteq> [] then new_app (chat_completions hs key r body a) else None)"
| "do_app (Get_job i) a = new_app (api_get_job i a)"
| "do_app (Delete_job i) a = new_app (api_cancel_job i a)"
| "do_app (Pump i) a = pump_app i a"
| "do_app Sweep_jobs a = Some (sweep_app a)"

fun app_run :: "app_move list \<Rightarrow> app \<Rightarrow> app option" where
  "app_run [] a = Some a"
| "app_run (m # ms) a = (case do_app m a of None \<Rightarrow> None | Some a' \<Rightarrow> app_run ms a')"

definition app_after :: "app_move list \<Rightarrow> app" where
  "app_after ms = (case app_run ms (init_app example_config 0) of Some a \<Rightarrow> a | None \<Rightarrow> init_app example_config 0)"

lemma engine_moves_reachable:
  assumes "app_reachable c t0 a" and "engine_step\<^sup>*\<^sup>* (ap_engine a) e"
  shows "app_reachable c t0 (a\<lparr>ap_engine := e\<rparr>)"
  using assms(2)
proof (induction rule: rtranclp_induct)
  case base
  then show ?case using assms(1) by simp
next
  case (step e1 e2)
  then show ?case
    using app_reachable.step [OF step.IH, of "a\<lparr>ap_engine := e2\<rparr>"] app_step.engine [of "a\<lparr>ap_engine := e1\<rparr>" e2] by simp
qed

lemma do_app_reachable:
  assumes "app_reachable c t0 a" and "do_app m a = Some a'"
  shows "app_reachable c t0 a'"
proof (cases m)
  case (Engine_moves ms)
  with assms engine_moves_reachable run_sound show ?thesis by (auto split: option.splits)
qed (use assms in \<open>auto simp: new_app_def split: sum.splits prod.splits if_splits
       intro: app_reachable.step app_step.intros\<close>)

lemma app_run_reachable: "app_reachable c t0 a \<Longrightarrow> app_run ms a = Some a' \<Longrightarrow> app_reachable c t0 a'"
  by (induction ms arbitrary: a) (auto split: option.splits intro: do_app_reachable)

lemma app_after_reachable: "app_reachable example_config 0 (app_after ms)"
  using app_reachable.init [OF example_config_ok, of 0] app_run_reachable [of example_config 0 "init_app example_config 0" ms]
  by (auto simp: app_after_def split: option.splits)

text \<open>A job whose request was answered with two chunks, of which its pump has read as many as given.\<close>

definition job_run :: "app_move list" where
  "job_run = [Chat [''respond-async''] (Some ''k'') ''1'' sample_body,
     Engine_moves [Resume, Pass 5, Resume, Resume, Move_task ''1'' (YieldChunk ''hi'' 0),
       Move_task ''1'' (YieldChunk '' there'' 1), Move_task ''1'' (YieldEnd ''length'' None)]]"

definition done_app :: app where
  "done_app = app_after (job_run @ [Pump ''1'', Pump ''1'', Pump ''1''])"

lemma done_app_job:
  "\<exists>j q. map_of (js_jobs (ap_jobs done_app)) ''1'' = Some j \<and> jb_terminal j = Some (StreamEnd ''length'' None)
     \<and> jb_body j = sample_body \<and> eng_store (ap_engine done_app) ''1'' = Some q
     \<and> qr_events q = [Chunk ''hi'' 0, Chunk '' there'' 1, StreamEnd ''length'' None]"
proof -
  have "(case (map_of (js_jobs (ap_jobs done_app)) ''1'', eng_store (ap_engine done_app) ''1'') of
      (Some j, Some q) \<Rightarrow> jb_terminal j = Some (StreamEnd ''length'' None) \<and> jb_body j = sample_body
        \<and> qr_events q = [Chunk ''hi'' 0, Chunk '' there'' 1, StreamEnd ''length'' None]
    | _ \<Rightarrow> False)" by code_simp
  then show ?thesis by (auto split: option.splits)
qed

theorem app_refines_engine_witness:
  "reachable example_config 0 (ap_engine (app_after job_run))
     \<and> engine_step\<^sup>*\<^sup>* (ap_engine (app_after job_run)) (ap_engine (sweep_app (app_after job_run)))"
  using app_refines_engine [OF app_after_reachable app_step.sweep, of job_run] by simp

theorem renderings_agree_witness:
  "\<exists>j resp. map_of (js_jobs (ap_jobs done_app)) ''1'' = Some j
     \<and> job_response (eng_store (ap_engine done_app)) j = Some resp \<and> rp_content resp = ''hi there''"
proof -
  obtain j q where j: "map_of (js_jobs (ap_jobs done_app)) ''1'' = Some j" "jb_terminal j = Some (StreamEnd ''length'' None)"
    "jb_body j = sample_body" "eng_store (ap_engine done_app) ''1'' = Some q"
    "qr_events q = [Chunk ''hi'' 0, Chunk '' there'' 1, StreamEnd ''length'' None]" using done_app_job by blast
  have r: "app_reachable example_config 0 done_app" unfolding done_app_def by (rule app_after_reachable)
  from renderings_agree [OF r j(1,2,4), where gone = False and m = "''A''"] j show ?thesis
    by (auto simp: build_response_def Let_def)
qed

text \<open>
  The document of a job can be final before its pump has read the whole stream: the state is that
  of the request, which the engine sets before it puts the terminator. The response is then cut
  short, with the default finish reason, under the status \<open>done\<close>.
\<close>

theorem done_before_the_pump_is_through:
  "\<exists>a j q resp full. app_reachable example_config 0 a \<and> map_of (js_jobs (ap_jobs a)) ''1'' = Some j
     \<and> eng_store (ap_engine a) ''1'' = Some q \<and> job_state (eng_store (ap_engine a)) j = DONE
     \<and> job_response (eng_store (ap_engine a)) j = Some resp
     \<and> collect (jb_body j) ''1'' [] (qr_events q) False = Completion full
     \<and> rp_content resp = ''hi'' \<and> rp_content full = ''hi there''
     \<and> rp_finish_reason resp = ''stop'' \<and> rp_finish_reason full = ''length''"
proof -
  let ?a = "app_after (job_run @ [Pump ''1''])"
  have "(case (map_of (js_jobs (ap_jobs ?a)) ''1'', eng_store (ap_engine ?a) ''1'') of
      (Some j, Some q) \<Rightarrow> job_state (eng_store (ap_engine ?a)) j = DONE \<and>
        (case (job_response (eng_store (ap_engine ?a)) j, collect (jb_body j) ''1'' [] (qr_events q) False) of
          (Some resp, Completion full) \<Rightarrow> rp_content resp = ''hi'' \<and> rp_content full = ''hi there''
             \<and> rp_finish_reason resp = ''stop'' \<and> rp_finish_reason full = ''length''
        | _ \<Rightarrow> False)
    | _ \<Rightarrow> False)" by code_simp
  then show ?thesis using app_after_reachable [of "job_run @ [Pump ''1'']"]
    by (auto split: option.splits collected.splits)
qed

subsection \<open>Documents\<close>

lemma position_from_Some: "r \<in> set rs \<Longrightarrow> \<exists>p. position_from st r pos rs = Some p"
  by (induction rs arbitrary: pos) auto

lemma estimate_iff_queued:
  assumes inv: "inv_at pc e" and q: "eng_store e r = Some q" and w: "engine_estimate_wait r e = Inr w"
  shows "w \<noteq> None \<longleftrightarrow> qr_state q = QUEUED" and "w = Some x \<Longrightarrow> 1 / 2 \<le> we_retry_after x"
proof -
  have keys: "distinct (map fst (eng_queues e))"
    using queue_keys [OF inv] names_distinct [OF inv] by simp
  let ?rs = "case map_of (eng_queues e) (qr_model q) of None \<Rightarrow> [] | Some rs \<Rightarrow> rs"
  have pos: "mq_position_of r (qst e) = position_from (eng_store e) r 0 ?rs"
    using q by (simp add: mq_position_of_def)
  have iff: "mq_position_of r (qst e) \<noteq> None \<longleftrightarrow> r \<in> set ?rs"
    unfolding pos using position_from_Some [of r ?rs "eng_store e" 0] position_from_mem [of "eng_store e" r 0 ?rs] by blast
  have mem: "r \<in> set ?rs \<longleftrightarrow> r \<in> set (queued_ids (eng_queues e))"
  proof
    assume r: "r \<in> set ?rs"
    then obtain rs where rs: "map_of (eng_queues e) (qr_model q) = Some rs"
      by (cases "map_of (eng_queues e) (qr_model q)") auto
    with r have "r \<in> set rs" by simp
    with map_of_SomeD [OF rs] show "r \<in> set (queued_ids (eng_queues e))"
      unfolding queued_ids_mem by blast
  next
    assume "r \<in> set (queued_ids (eng_queues e))"
    then obtain m rs where m: "(m, rs) \<in> set (eng_queues e)" "r \<in> set rs" unfolding queued_ids_mem by blast
    then have rs: "map_of (eng_queues e) m = Some rs" using keys by simp
    obtain q' where "eng_store e r = Some q'" "qr_model q' = m"
      by (rule queue_invE [OF inv_atD(2) [OF inv] rs m(2)])
    with q rs m(2) show "r \<in> set ?rs" by simp
  qed
  have "w \<noteq> None \<longleftrightarrow> mq_position_of r (qst e) \<noteq> None"
  proof (cases "mq_position_of r (qst e)")
    case None
    with w q show ?thesis by (simp add: engine_estimate_wait_def)
  next
    case (Some p)
    with w q show ?thesis by (auto simp: engine_estimate_wait_def split: option.splits sum.splits)
  qed
  then show "w \<noteq> None \<longleftrightarrow> qr_state q = QUEUED"
    using state_invD(2) [OF inv_atD(4) [OF inv] q] iff mem by simp
  show "1 / 2 \<le> we_retry_after x" if x: "w = Some x"
  proof (cases "mq_position_of r (qst e)")
    case None
    with w q x show ?thesis by (simp add: engine_estimate_wait_def)
  next
    case (Some p)
    with w q x obtain snap mean where "estimate_wait snap (qr_model q) p (eng_now e) (sched e) mean = Inr x"
      by (auto simp: engine_estimate_wait_def split: option.splits sum.splits)
    then show ?thesis
      by (auto simp: estimate_wait_def Let_def min_retry_after_def max_retry_after_def split: option.splits if_splits)
  qed
qed

text \<open>The job of a reachable application, with its request and its document.\<close>

lemma held_document:
  assumes inv: "app_inv c a" and j: "map_of (js_jobs (ap_jobs a)) i = Some j"
    and d: "document (ap_engine a) j jobs = Inr d"
  obtains q w where "jb_id j = i" "eng_store (ap_engine a) i = Some q"
    "jd_status d = request_state_value (job_state (eng_store (ap_engine a)) j)"
    "jd_wait d = map_option wait_info_of w" "jd_retry_after d = retry_advice (ap_engine a) j jobs w"
    "jd_response d = job_response (eng_store (ap_engine a)) j" "jd_error d = job_failure (eng_store (ap_engine a)) j"
    "w \<noteq> None \<longleftrightarrow> job_state (eng_store (ap_engine a)) j = QUEUED" "\<And>x. w = Some x \<Longrightarrow> 1 / 2 \<le> we_retry_after x"
    "jd_id d = i" "jd_model d = cr_model (jb_body j)"
proof -
  let ?e = "ap_engine a" and ?st = "eng_store (ap_engine a)"
  have ei: "inv_at (eng_pc ?e) ?e" and ji: "jobs_inv ?st (ap_jobs a)" using inv by (auto simp: app_inv_def engine_inv_def)
  have ok: "job_ok ?st i j" using jobs_invD(2) [OF ji map_of_SomeD [OF j]] .
  then obtain q where q: "jb_id j = i" "?st i = Some q" by (auto simp: job_ok_def)
  obtain w where w: "if is_terminal ?st j then w = None else engine_estimate_wait (jb_id j) ?e = Inr w"
    "document ?e j jobs = Inr \<lparr>jd_id = jb_id j, jd_status = request_state_value (job_state ?st j),
               jd_model = cr_model (jb_body j), jd_wait = map_option wait_info_of w,
               jd_retry_after = retry_advice ?e j jobs w,
               jd_response = job_response ?st j, jd_error = job_failure ?st j\<rparr>"
    by (rule document_total [OF ei])
  have "(w \<noteq> None \<longleftrightarrow> job_state ?st j = QUEUED) \<and> (\<forall>x. w = Some x \<longrightarrow> 1 / 2 \<le> we_retry_after x)"
  proof (cases "is_terminal ?st j")
    case True
    with w(1) show ?thesis by (auto simp: is_terminal_def)
  next
    case False
    have "jb_terminal j = None" using False ok is_terminal_terminated by (cases "jb_terminal j") (auto simp: job_ok_def)
    then have "job_state ?st j = qr_state q" using False q by (auto simp: is_terminal_def job_state_def split: if_splits)
    with False w(1) estimate_iff_queued [OF ei q(2), of w] q(1) show ?thesis by auto
  qed
  with that q w(2) d show thesis by simp
qed

text \<open>
  C31. Every document of a held job is well formed. Its status is one of the five; it has a
  response exactly when the status is \<open>done\<close>, an error only when it is \<open>failed\<close> or \<open>cancelled\<close>
  and always when it is \<open>cancelled\<close>, a wait estimate exactly while it is \<open>queued\<close>; and it advises
  a poll interval of zero exactly when the job is finished.
\<close>

theorem job_documents_well_formed:
  assumes "app_reachable c t0 a" and "map_of (js_jobs (ap_jobs a)) i = Some j"
    and "document (ap_engine a) j (ac_jobs c) = Inr d"
  shows "jd_status d \<in> {''queued'', ''running'', ''done'', ''failed'', ''cancelled''}
    \<and> (jd_response d \<noteq> None \<longleftrightarrow> jd_status d = ''done'')
    \<and> (jd_error d \<noteq> None \<longrightarrow> jd_status d \<in> {''failed'', ''cancelled''})
    \<and> (jd_status d = ''cancelled'' \<longrightarrow> jd_error d \<noteq> None)
    \<and> (jd_wait d \<noteq> None \<longleftrightarrow> jd_status d = ''queued'')
    \<and> 0 \<le> jd_retry_after d \<and> (jd_retry_after d = 0 \<longleftrightarrow> jd_status d \<in> {''done'', ''failed'', ''cancelled''})"
proof -
  let ?s = "job_state (eng_store (ap_engine a)) j"
  obtain q w where d: "jd_status d = request_state_value ?s" "jd_wait d = map_option wait_info_of w"
    "jd_retry_after d = retry_advice (ap_engine a) j (ac_jobs c) w"
    "jd_response d = job_response (eng_store (ap_engine a)) j" "jd_error d = job_failure (eng_store (ap_engine a)) j"
    "w \<noteq> None \<longleftrightarrow> ?s = QUEUED" "\<And>x. w = Some x \<Longrightarrow> 1 / 2 \<le> we_retry_after x"
    by (rule held_document [OF app_reachable_inv [OF assms(1)] assms(2,3)]) blast
  have lease: "0 \<le> jc_lease_seconds (ac_jobs c)"
    using app_reachable_inv [OF assms(1)]
    by (auto simp: app_inv_def engine_inv_def inv_at_def valid_app_config_def valid_jobs_config_def)
  show ?thesis
  proof (cases w)
    case None
    with d lease show ?thesis
      by (cases ?s) (auto simp: retry_advice_def is_terminal_def job_response_def job_failure_def Let_def
          running_poll_seconds_def split: option.splits stream_event.splits)
  next
    case (Some x)
    with d(6) have "?s = QUEUED" by simp
    with d(1-5) d(7) [OF Some] Some lease show ?thesis
      by (auto simp: retry_advice_def job_response_def job_failure_def Let_def min_def)
  qed
qed

theorem job_documents_well_formed_witness:
  "\<exists>j d. map_of (js_jobs (ap_jobs done_app)) ''1'' = Some j
     \<and> document (ap_engine done_app) j default_jobs_config = Inr d \<and> jd_response d \<noteq> None \<and> jd_retry_after d = 0"
proof -
  have r: "app_reachable example_config 0 done_app" unfolding done_app_def by (rule app_after_reachable)
  have "(case map_of (js_jobs (ap_jobs done_app)) ''1'' of Some j \<Rightarrow>
      (case document (ap_engine done_app) j (ac_jobs example_config) of Inr d \<Rightarrow> jd_status d = ''done'' | _ \<Rightarrow> False)
    | None \<Rightarrow> False)" by code_simp
  then obtain j d where "map_of (js_jobs (ap_jobs done_app)) ''1'' = Some j"
    "document (ap_engine done_app) j (ac_jobs example_config) = Inr d" "jd_status d = ''done''"
    by (auto split: option.splits sum.splits)
  with job_documents_well_formed [OF r this(1,2)] show ?thesis by (auto simp: example_config_def)
qed

subsection \<open>Leases\<close>

lemma sweep_keeps_unlapsed:
  assumes inv: "app_inv c a" and j: "map_of (js_jobs (ap_jobs a)) i = Some j"
    and "\<not> lease_lapsed (ac_jobs c) (eng_now (ap_engine a)) (eng_store (ap_engine a)) j"
    and "\<not> is_terminal (eng_store (ap_engine a)) j"
  shows "map_of (js_jobs (ap_jobs (sweep_app a))) i = Some j
    \<and> eng_store (ap_engine (sweep_app a)) i = eng_store (ap_engine a) i"
proof -
  obtain st js where s: "sweep_once (eng_now (ap_engine a)) (eng_store (ap_engine a), ap_jobs a) = (st, js)"
    by fastforce
  have ji: "jobs_inv (eng_store (ap_engine a)) (ap_jobs a)" and cfg: "js_config (ap_jobs a) = ac_jobs c"
    using inv by (auto simp: app_inv_def)
  note spec = sweep_once_spec [OF ji s]
  have "map_of (js_jobs js) i = Some j"
    using map_of_swept [OF jobs_invD(1) [OF ji] map_of_SomeD [OF j]] assms(3,4)
    unfolding spec(2) cfg by (simp add: swept_def expired_def)
  moreover have "st i = eng_store (ap_engine a) i"
    using spec(1) [of i] lapsed_ids_iff [OF ji j] assms(3) unfolding cfg by simp
  ultimately show ?thesis by (simp add: sweep_app_def s)
qed

lemma advice_within_lease:
  assumes "app_reachable c t0 a" and "api_get_job i a = Inr (ReplyDocument d, a1)"
  shows "jc_lease_seconds (ac_jobs c) = 0 \<or> jd_retry_after d \<le> jc_lease_seconds (ac_jobs c) / 2"
proof -
  have "jobs_settings a = ac_jobs c"
    using app_reachable_inv [OF assms(1)] by (auto simp: app_inv_def engine_inv_def inv_at_def)
  with assms(2) obtain j0 where "document (ap_engine a) j0 (ac_jobs c) = Inr d"
    by (auto simp: api_get_job_def job_reply_def split: prod.splits option.splits sum.splits)
  then obtain w where "jd_retry_after d = retry_advice (ap_engine a) j0 (ac_jobs c) w"
    by (auto simp: document_def split: sum.splits)
  then show ?thesis by (auto simp: retry_advice_def Let_def)
qed

lemma polled_recently_kept:
  assumes "app_reachable c t0 a" and "map_of (js_jobs (ap_jobs a)) i = Some j"
    and "t \<le> jb_last_polled_at j" and "eng_now (ap_engine a) \<le> t + s"
    and "jc_lease_seconds (ac_jobs c) = 0 \<or> s \<le> jc_lease_seconds (ac_jobs c) / 2"
    and "\<not> is_terminal (eng_store (ap_engine a)) j"
  shows "map_of (js_jobs (ap_jobs (sweep_app a))) i = Some j
    \<and> eng_store (ap_engine (sweep_app a)) i = eng_store (ap_engine a) i"
proof (rule sweep_keeps_unlapsed [OF app_reachable_inv [OF assms(1)] assms(2) _ assms(6)])
  have "0 \<le> jc_lease_seconds (ac_jobs c)"
    using app_reachable_inv [OF assms(1)]
    by (auto simp: app_inv_def engine_inv_def inv_at_def valid_app_config_def valid_jobs_config_def)
  with assms(3-5) show "\<not> lease_lapsed (ac_jobs c) (eng_now (ap_engine a)) (eng_store (ap_engine a)) j"
    by (auto simp: lease_lapsed_def)
qed

text \<open>
  A client that polls as it is told keeps its job. When a poll at time \<open>t\<close> returns a document
  that advises \<open>d\<close> seconds, then whatever happens in between, a sweep no later than \<open>t + d\<close>
  neither abandons the job nor cancels its request while it is unfinished, whatever the lease.
\<close>

theorem polling_on_advice_keeps_the_job:
  assumes "app_reachable c t0 a" and "api_get_job i a = Inr (ReplyDocument d, a1)"
    and "app_reachable c t0 a2" and "map_of (js_jobs (ap_jobs a2)) i = Some j"
    and "eng_now (ap_engine a) \<le> jb_last_polled_at j"
    and "eng_now (ap_engine a2) \<le> eng_now (ap_engine a) + jd_retry_after d"
    and "\<not> is_terminal (eng_store (ap_engine a2)) j"
  shows "map_of (js_jobs (ap_jobs (sweep_app a2))) i = Some j
    \<and> eng_store (ap_engine (sweep_app a2)) i = eng_store (ap_engine a2) i"
  by (rule polled_recently_kept [OF assms(3-6) advice_within_lease [OF assms(1,2)] assms(7)])

definition waiting_run :: "app_move list" where
  "waiting_run = [Chat [''respond-async''] (Some ''k'') ''1'' sample_body]"

theorem polling_on_advice_keeps_the_job_witness:
  "\<exists>a2 j. map_of (js_jobs (ap_jobs a2)) ''1'' = Some j \<and> eng_now (ap_engine a2) = 2
     \<and> map_of (js_jobs (ap_jobs (sweep_app a2))) ''1'' = Some j"
proof -
  let ?a = "app_after waiting_run" and ?a2 = "app_after (waiting_run @ [Get_job ''1'', Engine_moves [Pass 2]])"
  have "(case (api_get_job ''1'' ?a, map_of (js_jobs (ap_jobs ?a2)) ''1'') of
      (Inr (ReplyDocument d, _), Some j) \<Rightarrow> eng_now (ap_engine ?a) \<le> jb_last_polled_at j
        \<and> eng_now (ap_engine ?a2) = 2 \<and> 2 \<le> eng_now (ap_engine ?a) + jd_retry_after d
        \<and> \<not> is_terminal (eng_store (ap_engine ?a2)) j
    | _ \<Rightarrow> False)" by code_simp
  then obtain d a1 j where "api_get_job ''1'' ?a = Inr (ReplyDocument d, a1)" "map_of (js_jobs (ap_jobs ?a2)) ''1'' = Some j"
    "eng_now (ap_engine ?a) \<le> jb_last_polled_at j" "eng_now (ap_engine ?a2) = 2"
    "2 \<le> eng_now (ap_engine ?a) + jd_retry_after d" "\<not> is_terminal (eng_store (ap_engine ?a2)) j"
    by (auto split: option.splits sum.splits prod.splits reply.splits)
  with polling_on_advice_keeps_the_job [OF app_after_reachable this(1) app_after_reachable this(2)]
  show ?thesis by auto
qed

text \<open>
  The \<open>retry-after\<close> header does not keep that promise: it is at least one second, and a lease may
  be shorter. A client that polls by the header can find its job abandoned.
\<close>

theorem header_can_outlast_the_lease:
  "\<exists>jobs. valid_jobs_config jobs
     \<and> (\<forall>e j w. jc_lease_seconds jobs < of_int (retry_header (retry_advice e j jobs w)))"
proof (intro exI conjI allI)
  let ?jobs = "default_jobs_config\<lparr>jc_lease_seconds := 1 / 2, jc_sweep_interval_seconds := 1 / 4\<rparr>"
  show "valid_jobs_config ?jobs" by (simp add: valid_jobs_config_def default_jobs_config_def)
  fix e j w
  have "1 \<le> retry_header (retry_advice e j ?jobs w)" by (simp add: retry_header_def)
  then have "(1 :: rat) \<le> of_int (retry_header (retry_advice e j ?jobs w))" by simp
  moreover have "jc_lease_seconds ?jobs < 1" by simp
  ultimately show "jc_lease_seconds ?jobs < of_int (retry_header (retry_advice e j ?jobs w))" by linarith
qed

subsection \<open>What a completion request leads to\<close>

text \<open>The request was put at the end of the queue of the model that serves the tag.\<close>

definition queued_for :: "app_config \<Rightarrow> string \<Rightarrow> rid \<Rightarrow> app \<Rightarrow> app \<Rightarrow> bool" where
  "queued_for c tag r a a' \<longleftrightarrow>
     (\<exists>m rs q. model_by_served_name c tag = Some m
        \<and> map_of (eng_queues (ap_engine a)) (mc_name m) = Some rs
        \<and> map_of (eng_queues (ap_engine a')) (mc_name m) = Some (rs @ [r])
        \<and> eng_store (ap_engine a') r = Some q \<and> qr_state q = QUEUED \<and> \<not> qr_cancelled q)"

lemma create_full:
  assumes "create_job now st r body key js = Inl err"
  shows "err = JobStoreFull (job_count js) \<and> jc_max_jobs (js_config js) \<le> int (job_count js)
    \<and> (\<forall>i j. map_of (js_jobs js) i = Some j \<longrightarrow> \<not> is_terminal st j)"
proof -
  have m: "make_room st js = Inl err" using assms by (auto simp: create_job_def Let_def split: sum.splits)
  then have full: "\<not> int (length (js_jobs js)) < jc_max_jobs (js_config js)" by (auto simp: make_room_def)
  with m have e: "sort_key evict_key (filter (is_terminal st) (map snd (js_jobs js))) = []"
    and err: "err = JobStoreFull (length (js_jobs js))" by (auto simp: make_room_def split: list.splits)
  have "set (filter (is_terminal st) (map snd (js_jobs js))) = {}"
    using arg_cong [OF e, of set] by simp
  then have "\<forall>x \<in> set (map snd (js_jobs js)). \<not> is_terminal st x" unfolding set_filter by blast
  then have "\<not> is_terminal st j" if "map_of (js_jobs js) i = Some j" for i j
    using map_of_SomeD [OF that] by force
  with full err show ?thesis by (simp add: job_count_def)
qed

lemma served_target:
  assumes "model_by_served_name c t = Some m"
  shows "mc_name m \<in> set (model_names c)" and "served_as m \<noteq> None"
  using assms by (auto simp: model_by_served_name_def model_names_def served_as_def dest!: find_SomeD split: list.splits)

lemma submit_queues:
  assumes inv: "app_inv c a" and m: "model_by_served_name c t = Some m" and "gr_model req = mc_name m"
  shows "\<exists>e'. submit req r (ap_engine a) = Inr e' \<and> queued_for c t r a (a\<lparr>ap_engine := e'\<rparr>)"
proof -
  have ei: "inv_at (eng_pc (ap_engine a)) (ap_engine a)" and c: "eng_config (ap_engine a) = c"
    using inv by (auto simp: app_inv_def engine_inv_def)
  have known: "gr_model req \<in> set (names_of (ap_engine a))" using served_target(1) [OF m] assms(3) c by simp
  obtain rs where rs: "map_of (eng_queues (ap_engine a)) (gr_model req) = Some rs"
    by (rule known_model [OF ei known])
  from submit_known [OF ei known rs, of r] show ?thesis
    using m assms(3) rs by (auto simp: queued_for_def new_queued_request_def)
qed

lemma accepted_total:
  assumes "inv_at pc e"
  shows "\<exists>d h. accepted e j jobs = Inr (ReplyAccepted d (''/v1/jobs/'' @ jb_id j) h) \<and> jd_id d = jb_id j"
  by (rule document_total [OF assms, of j jobs]) (simp add: accepted_def)

lemma queued_for_jobs: "queued_for c t r a (b\<lparr>ap_jobs := js\<rparr>) = queued_for c t r a b"
  by (simp add: queued_for_def)

lemma full_outcome:
  assumes inv: "app_inv c a" and fresh: "eng_store (ap_engine a) r = None"
    and e': "submit req r (ap_engine a) = Inr e'" "queued_for c t r a (a\<lparr>ap_engine := e'\<rparr>)"
    and full: "create_job (eng_now e') (eng_store e') r body key (ap_jobs a) = Inl err"
  shows "is_cancelled (eng_store (client_cancel r e')) r \<and> err = JobStoreFull (job_count (ap_jobs a))
    \<and> jc_max_jobs (ac_jobs c) \<le> int (job_count (ap_jobs a))
    \<and> (\<forall>i j. map_of (js_jobs (ap_jobs a)) i = Some j \<longrightarrow> \<not> is_terminal (eng_store (ap_engine a)) j)"
proof -
  have ji: "jobs_inv (eng_store (ap_engine a)) (ap_jobs a)" and jc: "js_config (ap_jobs a) = ac_jobs c"
    using inv by (auto simp: app_inv_def)
  have "is_cancelled (eng_store (client_cancel r e')) r"
    using e'(2) by (auto simp: queued_for_def client_cancel_def map_req_def upd_req_def is_cancelled_def qr_cancel_def)
  moreover have "\<not> is_terminal (eng_store (ap_engine a)) j" if j: "map_of (js_jobs (ap_jobs a)) i = Some j" for i j
  proof -
    have "job_ok (eng_store (ap_engine a)) i j" using jobs_invD(2) [OF ji map_of_SomeD [OF j]] .
    then obtain q where "eng_store (ap_engine a) (jb_id j) = Some q" by (auto simp: job_ok_def)
    moreover have "requests_grow (eng_store (ap_engine a)) (eng_store e')"
      using engine_step_requests [OF engine_step.arrive [OF fresh e'(1)]] inv by (simp add: app_inv_def)
    moreover have "\<not> is_terminal (eng_store e') j" using create_full [OF full] j by blast
    ultimately show ?thesis using is_terminal_grow by blast
  qed
  ultimately show ?thesis using create_full [OF full] jc by simp
qed

lemma created_outcome:
  assumes inv: "app_inv c a" and fresh: "eng_store (ap_engine a) r = None" "r \<noteq> []"
    and e': "submit req r (ap_engine a) = Inr e'" "queued_for c t r a (a\<lparr>ap_engine := e'\<rparr>)"
    and res: "resubmitted True key (ap_jobs a) = None"
    and new: "create_job (eng_now e') (eng_store e') r body key (ap_jobs a) = Inr (j, js)"
  shows "(\<exists>d h. accepted e' j (ac_jobs c) = Inr (ReplyAccepted d (''/v1/jobs/'' @ jb_id j) h) \<and> jd_id d = r)
    \<and> map_of (js_jobs js) r = Some (new_job (eng_now (ap_engine a)) r body key)"
proof -
  have ji: "jobs_inv (eng_store (ap_engine a)) (ap_jobs a)" using inv by (simp add: app_inv_def)
  have step: "engine_steps (ap_engine a) e'" using engine_step.arrive [OF fresh(1) e'(1)] by blast
  then have ei': "engine_inv e'" using engine_steps_inv [OF step] inv by (simp add: app_inv_def)
  obtain q where q: "eng_store e' r = Some q" using e'(2) by (auto simp: queued_for_def)
  note made = create_inv [OF jobs_kept [OF inv step] q fresh(2) held_in_store [OF ji fresh(1)]
      resubmitted_None [OF res] new]
  have now: "eng_now e' = eng_now (ap_engine a)"
    using e'(1) by (auto simp: submit_def emit_def Let_def split: if_splits option.splits prod.splits)
  obtain d h where "accepted e' j (ac_jobs c) = Inr (ReplyAccepted d (''/v1/jobs/'' @ jb_id j) h)"
    "jd_id d = jb_id j" using accepted_total ei' unfolding engine_inv_def by blast
  with made(2,3) now show ?thesis by (auto simp: new_job_def)
qed

text \<open>The two ends of a submission that asks for a new job.\<close>

lemma new_job_outcome:
  assumes inv: "app_inv c a" and fresh: "eng_store (ap_engine a) r = None" "r \<noteq> []"
    and m: "model_by_served_name c (cr_model body) = Some m" and tag: "served_as m = Some tag"
    and e': "submit (to_generation_request body (mc_name m) tag r) r (ap_engine a) = Inr e'"
      "queued_for c (cr_model body) r a (a\<lparr>ap_engine := e'\<rparr>)"
    and new: "jc_enabled (ac_jobs c) \<and> prefers_async hs" "\<not> cr_stream body" "resubmitted True key (ap_jobs a) = None"
  shows "(chat_completions hs key r body a = Inr (ReplyError 503 (jobs_full (job_count (ap_jobs a))),
            a\<lparr>ap_engine := client_cancel r e'\<rparr>)
          \<and> is_cancelled (eng_store (client_cancel r e')) r \<and> jc_max_jobs (ac_jobs c) \<le> int (job_count (ap_jobs a))
          \<and> (\<forall>i j. map_of (js_jobs (ap_jobs a)) i = Some j \<longrightarrow> \<not> is_terminal (eng_store (ap_engine a)) j))
    \<or> (\<exists>d l h js. chat_completions hs key r body a = Inr (ReplyAccepted d l h, a\<lparr>ap_engine := e', ap_jobs := js\<rparr>)
          \<and> jd_id d = r \<and> map_of (js_jobs js) r = Some (new_job (eng_now (ap_engine a)) r body key))"
proof -
  have c: "eng_config (ap_engine a) = c" using inv by (simp add: app_inv_def)
  note run = chat_completions_def [of hs key r body a, unfolded Let_def c m option.case]
  have res: "resubmitted (jc_enabled (ac_jobs c) \<and> prefers_async hs) key (ap_jobs a) = None" using new by simp
  show ?thesis
  proof (cases "create_job (eng_now e') (eng_store e') r body key (ap_jobs a)")
    case (Inl err)
    with new full_outcome [OF inv fresh(1) e' Inl] tag e'(1) show ?thesis unfolding run res by simp
  next
    case (Inr p)
    obtain j js where p: "p = (j, js)" by (cases p)
    note made = created_outcome [OF inv fresh e' new(3) Inr [unfolded p]]
    then obtain d h where "accepted e' j (ac_jobs c) = Inr (ReplyAccepted d (''/v1/jobs/'' @ jb_id j) h)" "jd_id d = r" by blast
    with new Inr p tag e'(1) made
    have "chat_completions hs key r body a = Inr (ReplyAccepted d (''/v1/jobs/'' @ jb_id j) h, a\<lparr>ap_engine := e', ap_jobs := js\<rparr>)
        \<and> jd_id d = r \<and> map_of (js_jobs js) r = Some (new_job (eng_now (ap_engine a)) r body key)"
      unfolding run res by (simp add: with_app_def)
    then show ?thesis by blast
  qed
qed



subsection \<open>What the leases do not give\<close>

text \<open>
  A job whose request the engine cancelled itself, containing a crash, is finished for its client,
  but it has no end time, as nothing arrives on its channel; so it never expires.
\<close>

theorem crash_cancelled_job_never_expires:
  assumes "app_reachable c t0 a" and "map_of (js_jobs (ap_jobs a)) i = Some j"
    and "eng_store (ap_engine a) i = Some q" and "qr_state q = CANCELLED" and "\<not> qr_cancelled q"
    and "jb_terminal j = None"
  shows "job_state (eng_store (ap_engine a)) j = CANCELLED
    \<and> map_of (js_jobs (ap_jobs (sweep_app a))) i = Some j"
proof -
  obtain st js where s: "sweep_once (eng_now (ap_engine a)) (eng_store (ap_engine a), ap_jobs a) = (st, js)"
    by fastforce
  have ji: "jobs_inv (eng_store (ap_engine a)) (ap_jobs a)"
    using app_reachable_inv [OF assms(1)] by (simp add: app_inv_def)
  have ok: "job_ok (eng_store (ap_engine a)) i j" using jobs_invD(2) [OF ji map_of_SomeD [OF assms(2)]] .
  have fin: "jb_finished_at j = None" and st: "job_state (eng_store (ap_engine a)) j = CANCELLED"
    using ok assms(3-6) by (auto simp: job_ok_def is_cancelled_def job_state_def)
  then have "swept config now (eng_store (ap_engine a)) (i, j) = Some (i, j)" for config now
    by (simp add: swept_def lease_lapsed_def expired_def expires_at_def is_terminal_def)
  with map_of_swept [OF jobs_invD(1) [OF ji] map_of_SomeD [OF assms(2)]] sweep_once_spec(2) [OF ji s] st s
  show ?thesis by (simp add: sweep_app_def)
qed

text \<open>
  The lease runs from the last poll, so abandoned work can reach the starvation ceiling although
  the lease is shorter: a job polled for the last time after 70 seconds, with a lease of 60 and a
  ceiling of 120, is still queued after 125.
\<close>

definition abandoned_run :: "app_move list" where
  "abandoned_run = waiting_run @ [Engine_moves [Pass 70], Get_job ''1'', Engine_moves [Pass 55], Sweep_jobs]"

theorem abandoned_work_reaches_the_ceiling:
  "\<exists>a q. app_reachable example_config 0 a \<and> jc_lease_seconds (ac_jobs example_config) < sc_max_wait_seconds (ac_scheduler example_config)
     \<and> eng_store (ap_engine a) ''1'' = Some q \<and> qr_state q = QUEUED \<and> \<not> qr_cancelled q
     \<and> sc_max_wait_seconds (ac_scheduler example_config) < qr_wait_time q (eng_now (ap_engine a))"
proof -
  let ?a = "app_after abandoned_run"
  have "jc_lease_seconds (ac_jobs example_config) < sc_max_wait_seconds (ac_scheduler example_config) \<and>
     (case eng_store (ap_engine ?a) ''1'' of Some q \<Rightarrow> qr_state q = QUEUED \<and> \<not> qr_cancelled q
        \<and> sc_max_wait_seconds (ac_scheduler example_config) < qr_wait_time q (eng_now (ap_engine ?a)) | None \<Rightarrow> False)"
    by code_simp
  then show ?thesis using app_after_reachable [of abandoned_run] by (auto split: option.splits)
qed

end
