(* ===== verification/Sir_Gpu.thy ===== *)
theory Sir_Gpu
  imports Sir_Engine_Safety Sir_App
begin

text \<open>
  An abstract specification of what the engine does with the GPU, and the refinement: read off from
  the outside, every step of the engine is a sequence of steps of a five-state machine. The machine
  says in a few rules what residency, draining and switching promise: a model is loaded only when the
  GPU is free, is served only once it is loaded, within a capacity, and lets go only when nobody is
  being served.
\<close>

subsection \<open>The abstract machine\<close>

datatype gpu =
  Free
| Loading string
| Serving string "rid set"
| Releasing string
| Abandoned string

text \<open>\<open>Abandoned\<close> is what a shutdown in the middle of a swap leaves behind: taken, with nobody to release it.\<close>

inductive gpu_step :: "string list \<Rightarrow> int \<Rightarrow> gpu \<Rightarrow> gpu \<Rightarrow> bool" for names cap where
  grab: "m \<in> set names \<Longrightarrow> gpu_step names cap Free (Loading m)"
| ready: "gpu_step names cap (Loading m) (Serving m {})"
| fails: "gpu_step names cap (Loading m) (Releasing m)"
| admit: "r \<notin> R \<Longrightarrow> int (card R) < cap \<Longrightarrow> gpu_step names cap (Serving m R) (Serving m (insert r R))"
| finish: "r \<in> R \<Longrightarrow> gpu_step names cap (Serving m R) (Serving m (R - {r}))"
| release: "gpu_step names cap (Serving m {}) (Releasing m)"
| released: "gpu_step names cap (Releasing m) Free"
| abandon_load: "gpu_step names cap (Loading m) (Abandoned m)"
| abandon_release: "gpu_step names cap (Releasing m) (Abandoned m)"

inductive_cases gpu_step_FreeE: "gpu_step names cap Free g"
inductive_cases gpu_step_AbandonedE: "gpu_step names cap (Abandoned m) g"

abbreviation gpu_steps :: "string list \<Rightarrow> int \<Rightarrow> gpu \<Rightarrow> gpu \<Rightarrow> bool" where
  "gpu_steps names cap \<equiv> (gpu_step names cap)\<^sup>*\<^sup>*"

lemma admit_all:
  assumes "distinct rs" and "set rs \<inter> R = {}" and "finite R" and "int (card R + length rs) \<le> cap"
  shows "gpu_steps names cap (Serving m R) (Serving m (R \<union> set rs))"
  using assms
proof (induction rs arbitrary: R)
  case (Cons r rs)
  have "gpu_step names cap (Serving m R) (Serving m (insert r R))"
    by (rule gpu_step.admit) (use Cons.prems in auto)
  moreover have "gpu_steps names cap (Serving m (insert r R)) (Serving m (insert r R \<union> set rs))"
    by (rule Cons.IH) (use Cons.prems in auto)
  ultimately show ?case by (simp add: converse_rtranclp_into_rtranclp)
qed simp

text \<open>What the machine promises: it never serves more than it has room for, and only configured models.\<close>

fun gpu_ok :: "string list \<Rightarrow> int \<Rightarrow> gpu \<Rightarrow> bool" where
  "gpu_ok names cap Free = True"
| "gpu_ok names cap (Serving m R) = (m \<in> set names \<and> finite R \<and> int (card R) \<le> cap)"
| "gpu_ok names cap (Loading m) = (m \<in> set names)"
| "gpu_ok names cap (Releasing m) = (m \<in> set names)"
| "gpu_ok names cap (Abandoned m) = (m \<in> set names)"

lemma gpu_step_ok: "gpu_step names cap g g' \<Longrightarrow> 0 \<le> cap \<Longrightarrow> gpu_ok names cap g \<Longrightarrow> gpu_ok names cap g'"
  by (induction rule: gpu_step.induct) (auto simp: card_insert_if intro: order_trans [rotated])

subsection \<open>How the engine is read\<close>

definition undone :: "task list \<Rightarrow> rid set" where
  "undone fl = set (map tk_rid (filter (\<lambda>t. \<not> tk_done t) fl))"

fun view_of :: "loop_pc \<Rightarrow> string option \<Rightarrow> string list \<Rightarrow> rid set \<Rightarrow> gpu" where
  "view_of pc res [] R = Free"
| "view_of (StopWait _) (Some _) (m # _) R = Releasing m"
| "view_of pc (Some _) (m # _) R = Serving m R"
| "view_of (LoadWait _ _) None (m # _) R = Loading m"
| "view_of StopGather None (m # _) R = Abandoned m"
| "view_of Stopped None (m # _) R = Abandoned m"
| "view_of pc None (m # _) R = Releasing m"

definition gpu_at :: "loop_pc \<Rightarrow> engine \<Rightarrow> gpu" where
  "gpu_at pc e = view_of pc (eng_resident e) (eng_gpu e) (undone (eng_in_flight e))"

definition gpu_view :: "engine \<Rightarrow> gpu" where
  "gpu_view e = gpu_at (eng_pc e) e"

abbreviation moves :: "engine \<Rightarrow> gpu \<Rightarrow> gpu \<Rightarrow> bool" where
  "moves e \<equiv> gpu_steps (names_of e) (sc_max_concurrent_requests (sched e))"

lemma undone_Nil [simp]: "undone [] = {}"
  by (simp add: undone_def)

lemma undone_done: "list_all tk_done fl \<Longrightarrow> undone fl = {}"
  by (auto simp: undone_def list_all_iff)

lemma undone_filter [simp]: "undone (filter (\<lambda>t. \<not> tk_done t) fl) = undone fl"
  by (auto simp: undone_def)

lemma undone_ask [simp]: "undone (map (ask_cancel p) fl) = undone fl"
  by (induction fl) (simp_all add: undone_def)

lemma undone_finish [simp]: "undone (map (finish_task r) fl) = undone fl - {r}"
  by (induction fl) (auto simp: undone_def)

lemma undone_new [simp]: "undone (fl @ map new_task rs) = undone fl \<union> set rs"
  by (auto simp: undone_def filter_map o_def)

lemma undone_card: "finite (undone fl) \<and> card (undone fl) \<le> length fl"
proof -
  have "card (undone fl) \<le> length (filter (\<lambda>t. \<not> tk_done t) fl)"
    unfolding undone_def by (metis card_length length_map)
  then have "card (undone fl) \<le> length fl" by (rule order_trans [OF _ length_filter_le])
  then show ?thesis by (simp add: undone_def)
qed

text \<open>Before and between the awaits of a running loop, the GPU is served or free.\<close>

lemma gpu_at_LoopTop:
  assumes "inv_at LoopTop e"
  shows "gpu_at LoopTop e = (case eng_resident e of None \<Rightarrow> Free | Some m \<Rightarrow> Serving m (undone (eng_in_flight e)))"
  using inv_atD(5) [OF assms] by (auto simp: gpu_at_def phase_inv_def split: option.splits)

lemma gpu_at_TickWait: "inv_at LoopTop e \<Longrightarrow> gpu_at (TickWait d) e = gpu_at LoopTop e"
  using inv_atD(5) [of LoopTop e] by (auto simp: gpu_at_def phase_inv_def split: option.splits)

subsection \<open>The operations\<close>

lemma housekeep_gpu: "gpu_at pc (housekeep e) = gpu_at pc e"
proof -
  have "eng_gpu (housekeep e) = eng_gpu e" "undone (eng_in_flight (housekeep e)) = undone (eng_in_flight e)"
    by (simp_all add: housekeep_def reap_finished_def cancel_disconnected_def cancel_tasks_eq purge_cancelled_def
        split: prod.splits)
  then show ?thesis by (simp add: gpu_at_def)
qed

lemma dispatch_gpu:
  assumes inv: "inv_at LoopTop e" and d: "dispatch e = Some e'"
  shows "moves e (gpu_at LoopTop e) (gpu_at LoopTop e')"
proof (cases "eng_resident e")
  case None
  with d show ?thesis by (simp add: dispatch_def)
next
  case (Some m)
  obtain rs where rs: "map_of (eng_queues e) m = Some rs"
    using known_model [OF inv resident_known [OF inv Some]] by blast
  let ?free = "nat (sc_max_concurrent_requests (sched e) - int (length (eng_in_flight e)))"
  let ?ts = "take ?free (live (eng_store e) rs)"
  obtain ds rs' qs' evs where eq: "dispatch e = Some (e\<lparr>eng_store := taken_store (eng_now e) ?ts ds (eng_store e),
        eng_queues := qs', eng_events := evs, eng_in_flight := eng_in_flight e @ map new_task ?ts\<rparr>)"
    using dispatch_spec [OF inv Some rs] by blast
  have "rs \<in> set (map snd (eng_queues e))" using rs by (force dest: map_of_SomeD)
  then have "distinct rs"
    using inv_atD(2) [OF inv] by (auto simp: queue_inv_def queued_ids_def distinct_concat_iff)
  then have dist: "distinct ?ts" by (simp add: live_def)
  have "r \<notin> undone (eng_in_flight e)" if "r \<in> set ?ts" for r
  proof -
    have "r \<in> set rs" using that by (auto simp: live_def dest: in_set_takeD)
    then obtain q where q: "eng_store e r = Some q" "r \<in> set (queued_ids (eng_queues e))"
      using queue_invE [OF inv_atD(2) [OF inv] rs] by blast
    then have "qr_state q \<noteq> RUNNING" using state_invD(2) [OF inv_atD(4) [OF inv] q(1)] by simp
    then show ?thesis using state_invD(3) [OF inv_atD(4) [OF inv] q(1)] by (auto simp: undone_def)
  qed
  then have disj: "set ?ts \<inter> undone (eng_in_flight e) = {}" by blast
  have "int (length (eng_in_flight e)) \<le> sc_max_concurrent_requests (sched e)"
    using inv_atD(3) [OF inv] by (simp add: task_inv_def)
  then have "int (card (undone (eng_in_flight e)) + length ?ts) \<le> sc_max_concurrent_requests (sched e)"
    using undone_card [of "eng_in_flight e"] by (auto simp: min_def)
  from admit_all [OF dist disj _ this] undone_card
  have "moves e (Serving m (undone (eng_in_flight e))) (Serving m (undone (eng_in_flight e) \<union> set ?ts))" by blast
  moreover have "eng_gpu e = [m]" using inv_atD(5) [OF inv] Some by (simp add: phase_inv_def)
  moreover have "undone (eng_in_flight e') = undone (eng_in_flight e) \<union> set ?ts"
    "eng_resident e' = Some m" "eng_gpu e' = eng_gpu e"
    using d eq Some by auto
  ultimately show ?thesis using Some by (simp add: gpu_at_def)
qed

lemma after_drain_gpu:
  assumes inv: "inv_at LoopTop e" and "all_done e" and t: "t \<in> set (names_of e)" and d: "after_drain t e = Some e'"
  shows "moves e (gpu_at LoopTop e) (gpu_view e')"
proof (cases "eng_resident e")
  case None
  then have "gpu_view e' = Loading t"
    using d inv_atD(5) [OF inv] by (auto simp: after_drain_def load_begin_def gpu_view_def gpu_at_def phase_inv_def emit_def Let_def split: if_splits)
  then show ?thesis using gpu_at_LoopTop [OF inv] None t by (auto intro: gpu_step.grab)
next
  case (Some m)
  then have "gpu_view e' = Releasing m"
    using d inv_atD(5) [OF inv] by (auto simp: after_drain_def gpu_view_def gpu_at_def phase_inv_def Let_def split: if_splits)
  then show ?thesis
    using gpu_at_LoopTop [OF inv] Some undone_done [of "eng_in_flight e"] assms(2)
    by (auto simp: all_done_def intro: gpu_step.release)
qed

lemma switch_begin_gpu:
  assumes inv: "inv_at LoopTop e" and t: "t \<in> set (names_of e)" and d: "switch_begin t e = Some e'"
  shows "moves e (gpu_at LoopTop e) (gpu_view e')"
proof (cases "eng_in_flight e = []")
  case True
  with after_drain_gpu [OF inv _ t] d show ?thesis by (simp add: switch_begin_def all_done_def)
next
  case False
  then have "gpu_view e' = gpu_at LoopTop e"
    using d inv_atD(5) [OF inv]
    by (auto simp: switch_begin_def gpu_view_def gpu_at_def cancel_disconnected_def cancel_tasks_eq emit_def phase_inv_def
        split: option.splits)
  then show ?thesis by simp
qed

lemma loop_body_gpu:
  assumes inv: "inv_at LoopTop e" and fit: "failed_fit e" and body: "loop_body e = Some e'"
  shows "moves e (gpu_at LoopTop e) (gpu_view e')"
  using inv fit body
proof (rule loop_body_cases)
  fix i snap d r
  let ?h = "(housekeep e)\<lparr>eng_idle_since := i\<rparr>"
  assume snap: "snapshot ?h = Some snap" and d: "d = decide snap (eng_now e) (sched e)"
    and r: "r = record_decision d ?h" and ri: "inv_at LoopTop r"
    and cases: "(\<exists>t. dc_kind d = SWITCH \<and> dc_target d = Some t \<and> switch_begin t r = Some e')
     \<or> (dc_kind d \<in> {SERVE, HOLD} \<and> (\<exists>f. dispatch r = Some f
          \<and> e' = f\<lparr>eng_pc := TickWait (eng_now f + sc_tick_interval_seconds (sched f))\<rparr>))
     \<or> (dc_kind d = IDLE \<and> e' = r\<lparr>eng_pc := TickWait (eng_now e + sc_tick_interval_seconds (sched e))\<rparr>)"
  have h: "inv_at LoopTop ?h" using housekeep_inv [OF inv] by simp
  have conf: "eng_config r = eng_config e" by (simp add: r record_decision_def)
  have view: "gpu_at LoopTop r = gpu_at LoopTop e"
    using housekeep_gpu [of LoopTop e] by (simp add: r record_decision_def gpu_at_def)
  have fr: "failed_fit r" using fit by (simp add: r record_decision_def)
  from cases show "moves e (gpu_at LoopTop e) (gpu_view e')"
  proof (elim disjE exE conjE)
    fix t assume sw: "dc_kind d = SWITCH" "dc_target d = Some t" "switch_begin t r = Some e'"
    obtain snap' where s: "snapshot ?h = Some snap'" "snapshot_ok snap'" "map ms_name (ss_models snap') = names_of ?h"
      using snapshot_Some [OF h] by blast
    then have "snapshot_ok snap" and names: "map ms_name (ss_models snap) = names_of e" using snap by simp_all
    from switch_target [OF this(1), of "eng_now e" "sched e"] sw(1,2) d
    obtain m where "m \<in> set (ss_models snap)" "t = ms_name m" by auto
    then have "t \<in> set (names_of r)" using names conf by (metis image_eqI list.set_map)
    from switch_begin_gpu [OF ri this sw(3)] show ?thesis unfolding view conf .
  next
    fix f assume f: "dispatch r = Some f" "e' = f\<lparr>eng_pc := TickWait (eng_now f + sc_tick_interval_seconds (sched f))\<rparr>"
    have fi: "inv_at LoopTop f" using dispatch_inv [OF ri fr] f(1) by auto
    have "gpu_view e' = gpu_at LoopTop f"
      using f(2) gpu_at_TickWait [OF fi] by (simp add: gpu_view_def gpu_at_def)
    with dispatch_gpu [OF ri f(1)] show ?thesis unfolding view conf by simp
  next
    assume "e' = r\<lparr>eng_pc := TickWait (eng_now e + sc_tick_interval_seconds (sched e))\<rparr>"
    then have "gpu_view e' = gpu_at LoopTop r"
      using gpu_at_TickWait [OF ri] by (simp add: gpu_view_def gpu_at_def)
    then show ?thesis unfolding view by simp
  qed
qed

lemma crash_unload_gpu:
  assumes "eng_resident e = Some m" "eng_gpu e = [m]" "undone (eng_in_flight e) = {}" "crash_unload m ms e = Some e'"
  shows "moves e (Serving m {}) (gpu_view e')"
proof -
  have "gpu_view e' = Releasing m"
    using assms by (auto simp: crash_unload_def gpu_view_def gpu_at_def split: if_splits)
  then show ?thesis by (auto intro: gpu_step.release)
qed

lemma handle_failed_gpu:
  assumes inv: "inv_at LoopTop e" and fit: "failed_fit e" and "length ms \<le> 1" and hf: "handle_failed ms e = Some e'"
  shows "moves e (gpu_at LoopTop e) (gpu_view e')"
proof (cases ms)
  case Nil
  with hf loop_body_gpu [OF inv fit] show ?thesis by simp
next
  case (Cons m ms')
  then have ms: "ms = [m]" using assms(3) by simp
  let ?e = "emit EV_CRASH m ''backend marked unavailable'' None (mark_unavailable m e)"
  have e: "inv_at LoopTop ?e" "failed_fit ?e" using inv fit by (simp_all add: emit_def mark_unavailable_def)
  have conf: "eng_config ?e = eng_config e" and view: "gpu_at LoopTop ?e = gpu_at LoopTop e"
    by (simp_all add: emit_def mark_unavailable_def gpu_at_def)
  show ?thesis
  proof (cases "eng_resident ?e = Some m")
    case False
    then have "loop_body ?e = Some e'" using hf ms by (simp add: Let_def)
    from loop_body_gpu [OF e this] show ?thesis unfolding view conf .
  next
    case True
    let ?c = "cancel_tasks (request_of_model ?e m) ?e"
    have c: "eng_resident ?c = Some m" "eng_gpu ?c = [m]" "eng_config ?c = eng_config e"
      "undone (eng_in_flight ?c) = undone (eng_in_flight e)"
      using inv_atD(5) [OF e(1)] True
      by (simp_all add: phase_inv_def cancel_tasks_eq emit_def mark_unavailable_def)
    have view: "gpu_at LoopTop e = Serving m (undone (eng_in_flight e))"
      using gpu_at_LoopTop [OF inv] True by (simp add: emit_def mark_unavailable_def)
    show ?thesis
    proof (cases "eng_in_flight ?c = []")
      case False
      then have "e' = ?c\<lparr>eng_pc := FailGather m []\<rparr>" using hf ms True by (simp add: Let_def)
      then have "gpu_view e' = Serving m (undone (eng_in_flight e))"
        using c by (simp add: gpu_view_def gpu_at_def)
      then show ?thesis using view by simp
    next
      case empty: True
      then have "crash_unload m [] ?c = Some e'" using hf ms True by (simp add: Let_def)
      moreover have "undone (eng_in_flight ?c) = {}" using empty by simp
      ultimately have "moves ?c (Serving m {}) (gpu_view e')" using crash_unload_gpu c(1,2) by blast
      then show ?thesis using view c(3,4) empty by simp
    qed
  qed
qed

lemma loop_top_gpu:
  assumes inv: "inv_at LoopTop e" and "loop_top e = Some e'"
  shows "moves e (gpu_at LoopTop e) (gpu_view e')"
proof (cases "eng_running e")
  case True
  let ?e = "e\<lparr>eng_wakeup := False, eng_failed := []\<rparr>"
  have "inv_at LoopTop ?e" "length (eng_failed e) \<le> 1" using inv by (simp_all add: inv_at_def phase_inv_def)
  moreover have "handle_failed (eng_failed e) ?e = Some e'"
    using assms(2) True by (simp add: loop_top_def handle_failures_def)
  ultimately show ?thesis using handle_failed_gpu [of ?e "eng_failed e" e'] by (simp add: gpu_at_def)
next
  case False
  then have "gpu_view e' = gpu_at LoopDone e" using assms(2) by (auto simp: loop_top_def gpu_view_def gpu_at_def)
  then show ?thesis using inv_atD(5) [OF inv] by (auto simp: gpu_at_def phase_inv_def split: option.splits)
qed

lemma fail_stopped_gpu:
  assumes inv: "inv_at (FailStop m ms) e" and "fail_stopped m ms e = Some e'"
  shows "moves e Free (gpu_view e')"
proof -
  note ph = inv_atD(5) [OF inv, unfolded phase_inv_def]
  let ?e = "emit EV_UNLOAD m ''after crash'' None (e\<lparr>eng_gpu := removeAll m (eng_gpu e)\<rparr>)"
  have i: "inv_at LoopTop ?e"
    using inv_at_cong [OF inv, of ?e LoopTop] ph by (simp add: emit_def phase_inv_def all_done_def)
  have "failed_fit ?e" "loop_body ?e = Some e'" "gpu_at LoopTop ?e = Free"
    using ph assms(2) gpu_at_LoopTop [OF i] by (simp_all add: emit_def fail_stopped_def)
  with loop_body_gpu [OF i] show ?thesis by (simp add: emit_def)
qed

lemma drain_done_gpu:
  assumes inv: "inv_at (DrainWait t s) e" and "all_done e" and d: "drain_done t s e = Some e'"
  shows "moves e (gpu_view (e\<lparr>eng_pc := DrainWait t s\<rparr>)) (gpu_view e')"
proof -
  note ph = inv_atD(5) [OF inv, unfolded phase_inv_def]
  let ?e = "emit EV_DRAIN_END (resident_or_dash e) [] (Some (eng_now e - s)) (e\<lparr>eng_in_flight := [], eng_draining := False\<rparr>)"
  have i: "inv_at LoopTop ?e"
    using inv_at_cong [OF inv, of ?e LoopTop] ph assms(2) by (simp add: emit_def phase_inv_def)
  have "moves ?e (gpu_at LoopTop ?e) (gpu_view e')"
    using after_drain_gpu [OF i, of t e'] d ph by (simp add: drain_done_def emit_def all_done_def)
  moreover have "gpu_at LoopTop ?e = gpu_view (e\<lparr>eng_pc := DrainWait t s\<rparr>)"
    using gpu_at_LoopTop [OF i] ph undone_done [of "eng_in_flight e"] assms(2)
    by (auto simp: emit_def gpu_view_def gpu_at_def all_done_def split: option.splits)
  ultimately show ?thesis by (simp add: emit_def)
qed

lemma unload_done_gpu:
  assumes inv: "inv_at (UnloadWait t p) e" and d: "unload_done t p e = Some e'"
  shows "moves e (Releasing p) (gpu_view e')"
proof -
  note ph = inv_atD(5) [OF inv, unfolded phase_inv_def]
  have "gpu_view e' = Loading t"
    using d ph by (auto simp: unload_done_def load_begin_def gpu_view_def gpu_at_def emit_def Let_def split: if_splits)
  moreover have "moves e (Releasing p) Free" by (auto intro: gpu_step.released)
  moreover have "gpu_step (names_of e) (sc_max_concurrent_requests (sched e)) Free (Loading t)"
    using ph by (auto intro: gpu_step.grab)
  ultimately show ?thesis by (simp add: rtranclp.rtrancl_into_rtrancl)
qed

lemma serve_gpu:
  assumes inv: "inv_at (eng_pc e) e" and en: "serve_enabled r out e"
  shows "moves e (gpu_view e) (gpu_view (serve r out e))"
proof -
  from en obtain t where t: "t \<in> set (eng_in_flight e)" "tk_rid t = r" "\<not> tk_done t"
    by (auto simp: serve_enabled_def)
  then have r: "r \<in> undone (eng_in_flight e)" by (auto simp: undone_def)
  from enabled_running [OF inv t(1,3)] t(2) obtain q
    where q: "eng_store e r = Some q" "qr_state q = RUNNING" "req_ok q" "eng_resident e = Some (qr_model q)" by blast
  have gpu: "eng_gpu e = [qr_model q]" and pc: "eng_pc e \<noteq> StopWait m" for m
    using inv_atD(5) [OF inv] q(4) t(1) by (cases "eng_pc e"; auto simp: phase_inv_def)+
  have view: "view_of (eng_pc e) (eng_resident e) (eng_gpu e) R = Serving (qr_model q) R" for R
    using pc by (cases "eng_pc e") (auto simp: q(4) gpu)
  from serve_effect [OF q(1-3), of out] consider
    (same) q' where "serve r out e = e\<lparr>eng_store := (eng_store e)(r \<mapsto> q')\<rparr>"
  | (finish) q' evs means failed where "serve r out e = e\<lparr>eng_store := (eng_store e)(r \<mapsto> q'),
        eng_events := evs, eng_mean_seconds := means, eng_failed := failed,
        eng_in_flight := map (finish_task r) (eng_in_flight e)\<rparr>"
    unfolding task_effect_def by blast
  then show ?thesis
  proof cases
    case same
    then show ?thesis by (simp add: gpu_view_def gpu_at_def)
  next
    case finish
    then show ?thesis using r by (auto simp: gpu_view_def gpu_at_def view intro: gpu_step.finish)
  qed
qed


lemma stop_begin_gpu:
  assumes inv: "inv_at (eng_pc e) e" and "\<not> stopping (eng_pc e)"
  shows "moves e (gpu_view e) (gpu_view (stop_begin e))"
proof -
  note ph = inv_atD(5) [OF inv, unfolded phase_inv_def]
  have "gpu_view (stop_begin e) = gpu_at StopGather e"
    by (cases "eng_pc e") (simp_all add: stop_begin_def cancel_loop_def cancel_tasks_eq gpu_view_def gpu_at_def emit_def)
  moreover have "moves e (gpu_view e) (gpu_at StopGather e)"
  proof (cases "eng_pc e")
    case (LoadWait t s)
    then show ?thesis using ph by (auto simp: gpu_view_def gpu_at_def intro: gpu_step.abandon_load)
  qed (use ph assms(2) in \<open>auto simp: gpu_view_def gpu_at_def intro: gpu_step.abandon_release split: option.splits\<close>)
  ultimately show ?thesis by simp
qed

lemma stop_gathered_gpu:
  assumes inv: "inv_at StopGather e" and "all_done e" and "stop_gathered e = Some e'"
  shows "moves e (gpu_at StopGather e) (gpu_view e')"
proof -
  note ph = inv_atD(5) [OF inv, unfolded phase_inv_def]
  have none: "undone (eng_in_flight e) = {}" using assms(2) undone_done by (simp add: all_done_def)
  obtain qs' where e': "e' = (let e = e\<lparr>eng_in_flight := [],
        eng_store := shut_store (queued_ids (eng_queues e)) (eng_store e), eng_queues := qs'\<rparr> in
      (case eng_resident e of None \<Rightarrow> e\<lparr>eng_pc := Stopped\<rparr> | Some m \<Rightarrow> e\<lparr>eng_pc := StopWait m\<rparr>))"
    using stop_gathered_eq [OF inv] assms(3) by auto
  show ?thesis
  proof (cases "eng_resident e")
    case None
    then have "gpu_view e' = gpu_at StopGather e"
      using e' none by (cases "eng_gpu e") (simp_all add: gpu_view_def gpu_at_def Let_def)
    then show ?thesis by simp
  next
    case (Some m)
    then have "gpu_at StopGather e = Serving m {}" "gpu_view e' = Releasing m"
      using e' none ph by (simp_all add: gpu_view_def gpu_at_def Let_def)
    then show ?thesis by (auto intro: gpu_step.release)
  qed
qed

subsection \<open>The refinement\<close>

lemma engine_step_gpu:
  assumes "engine_step e e'" and "engine_inv e"
  shows "moves e (gpu_view e) (gpu_view e')"
  using assms
proof (induction rule: engine_step.induct)
  case (time d e)
  then show ?case by (simp add: gpu_view_def gpu_at_def)
next
  case (arrive e r req e')
  then have "gpu_view e' = gpu_view e"
    by (auto simp: submit_def Let_def emit_def gpu_view_def gpu_at_def split: option.splits if_splits)
  then show ?case by simp
next
  case (disconnect e r)
  then show ?case by (simp add: client_cancel_def map_req_def gpu_view_def gpu_at_def)
next
  case (task r out e)
  then show ?case using serve_gpu by (simp add: engine_inv_def)
next
  case (start e)
  then show ?case
    by (simp add: engine_inv_def inv_at_def phase_inv_def start_engine_def gpu_view_def gpu_at_def)
next
  case (top e e')
  then show ?case using loop_top_gpu [of e e'] by (simp add: engine_inv_def gpu_view_def [of e])
next
  case (tick e d)
  then have "inv_at LoopTop e" by (simp add: engine_inv_def)
  from gpu_at_TickWait [OF this, of d] tick show ?case by (simp add: gpu_view_def gpu_at_def)
next
  case (failed_gather e m ms e')
  then have ph: "eng_resident e = Some m" "eng_gpu e = [m]"
    by (auto simp: engine_inv_def inv_at_def phase_inv_def)
  then have "gpu_view e = Serving m {}"
    using failed_gather undone_done [of "eng_in_flight e"] by (simp add: gpu_view_def gpu_at_def all_done_def)
  moreover have "crash_unload m ms (e\<lparr>eng_in_flight := []\<rparr>) = Some e'"
    using failed_gather by (simp add: fail_gathered_def)
  ultimately show ?case using crash_unload_gpu [of "e\<lparr>eng_in_flight := []\<rparr>" m ms e'] ph by simp
next
  case (failed_stop e m ms e')
  then have i: "inv_at (FailStop m ms) e" by (simp add: engine_inv_def)
  then have "gpu_view e = Releasing m"
    using failed_stop by (auto simp: inv_at_def phase_inv_def gpu_view_def gpu_at_def)
  then show ?case
    using fail_stopped_gpu [OF i] failed_stop gpu_step.released converse_rtranclp_into_rtranclp by metis
next
  case (drained e t s e')
  then have "inv_at (DrainWait t s) e" by (simp add: engine_inv_def)
  from drain_done_gpu [OF this] drained show ?case by (simp add: gpu_view_def gpu_at_def)
next
  case (unloaded e t p e')
  then have i: "inv_at (UnloadWait t p) e" by (simp add: engine_inv_def)
  then have "gpu_view e = Releasing p"
    using unloaded by (auto simp: inv_at_def phase_inv_def gpu_view_def gpu_at_def)
  then show ?case using unload_done_gpu [OF i] unloaded by simp
next
  case (loaded e t s)
  then have "gpu_view e = Loading t" "gpu_view (load_ok t s e) = Serving t {}"
    by (auto simp: engine_inv_def inv_at_def phase_inv_def gpu_view_def gpu_at_def load_ok_def Let_def emit_def)
  then show ?case by (auto intro: gpu_step.ready)
next
  case (load_fails e t s msg)
  then have "gpu_view e = Loading t" "gpu_view (load_failed t s msg e) = Releasing t"
    by (auto simp: engine_inv_def inv_at_def phase_inv_def gpu_view_def gpu_at_def load_failed_def Let_def emit_def)
  then show ?case by (auto intro: gpu_step.fails)
next
  case (load_fail_stop e t)
  then have "gpu_view e = Releasing t" "gpu_view (load_fail_stopped t e) = Free"
    by (auto simp: engine_inv_def inv_at_def phase_inv_def gpu_view_def gpu_at_def load_fail_stopped_def mark_unavailable_def)
  then show ?case by (auto intro: gpu_step.released)
next
  case (stop e)
  then show ?case using stop_begin_gpu by (simp add: engine_inv_def)
next
  case (stop_gather e e')
  then show ?case using stop_gathered_gpu [of e e'] by (simp add: engine_inv_def gpu_view_def [of e])
next
  case (stop_wait e m)
  then have "gpu_view e = Releasing m" "gpu_view (stop_finish m e) = Free"
    by (auto simp: engine_inv_def inv_at_def phase_inv_def gpu_view_def gpu_at_def stop_finish_def)
  then show ?case by (auto intro: gpu_step.released)
qed

text \<open>A simulation, as a contract: what a refinement step by step says of whole runs.\<close>

locale simulation =
  fixes step :: "'s \<Rightarrow> 's \<Rightarrow> bool" and good :: "'s \<Rightarrow> bool" and view :: "'s \<Rightarrow> 'a" and spec :: "'a \<Rightarrow> 'a \<Rightarrow> bool"
  assumes good_step: "good s \<Longrightarrow> step s s' \<Longrightarrow> good s'"
    and simulates: "good s \<Longrightarrow> step s s' \<Longrightarrow> spec\<^sup>*\<^sup>* (view s) (view s')"
begin

lemma run: "step\<^sup>*\<^sup>* s s' \<Longrightarrow> good s \<Longrightarrow> good s' \<and> spec\<^sup>*\<^sup>* (view s) (view s')"
proof (induction rule: rtranclp_induct)
  case (step s' s'')
  then have "good s'" "spec\<^sup>*\<^sup>* (view s) (view s')" by simp_all
  with step.hyps(2) good_step simulates show ?case by (meson rtranclp_trans)
qed simp

lemma keeps: "step\<^sup>*\<^sup>* s s' \<Longrightarrow> good s \<Longrightarrow> (\<And>a a'. spec a a' \<Longrightarrow> P a \<Longrightarrow> P a') \<Longrightarrow> P (view s) \<Longrightarrow> P (view s')"
proof -
  assume P: "\<And>a a'. spec a a' \<Longrightarrow> P a \<Longrightarrow> P a'"
  have "spec\<^sup>*\<^sup>* a a' \<Longrightarrow> P a \<Longrightarrow> P a'" for a a'
    by (induction rule: rtranclp_induct) (use P in blast)+
  then show "step\<^sup>*\<^sup>* s s' \<Longrightarrow> good s \<Longrightarrow> P (view s) \<Longrightarrow> P (view s')" using run by blast
qed

end

abbreviation capacity :: "app_config \<Rightarrow> int" where
  "capacity c \<equiv> sc_max_concurrent_requests (ac_scheduler c)"

interpretation engine_gpu:
  simulation engine_step "\<lambda>e. engine_inv e \<and> eng_config e = c" gpu_view "gpu_step (model_names c) (capacity c)" for c
  by unfold_locales (use engine_step_inv engine_step_config engine_step_gpu in blast)+

interpretation app_engine: simulation app_step "app_inv c" ap_engine engine_step for c
  by unfold_locales (use app_step_inv app_step_engine in blast)+

lemma reachable_run: "reachable c t0 e \<Longrightarrow> engine_step\<^sup>*\<^sup>* (init_engine c t0) e"
  by (induction rule: reachable.induct) auto

lemma reachable_valid: "reachable c t0 e \<Longrightarrow> valid_app_config c"
  by (induction rule: reachable.induct)

lemma reachable_gpu_ok:
  assumes "reachable c t0 e"
  shows "gpu_ok (model_names c) (capacity c) (gpu_view e)"
proof -
  have c: "valid_app_config c" by (rule reachable_valid [OF assms])
  then have "engine_inv (init_engine c t0) \<and> eng_config (init_engine c t0) = c"
    by (simp add: init_engine_inv) (simp add: init_engine_def)
  moreover have "gpu_view (init_engine c t0) = Free" by (simp add: init_engine_def gpu_view_def gpu_at_def)
  moreover have "0 \<le> capacity c" using c by (simp add: valid_app_config_def valid_scheduler_config_def)
  ultimately show ?thesis
    using engine_gpu.keeps [OF reachable_run [OF assms], of c "gpu_ok (model_names c) (capacity c)"] gpu_step_ok by auto
qed



text \<open>
  The whole application follows the protocol: between any two moments of a run, whatever clients,
  pumps and the sweeper did, the GPU went the way of the protocol, and it never serves more requests
  at once than configured, nor a model that is not.
\<close>

theorem application_follows_gpu_protocol:
  assumes "app_reachable c t0 a" and "app_step\<^sup>*\<^sup>* a a'"
  shows "gpu_steps (model_names c) (capacity c) (gpu_view (ap_engine a)) (gpu_view (ap_engine a'))
    \<and> gpu_ok (model_names c) (capacity c) (gpu_view (ap_engine a'))"
proof -
  have inv: "app_inv c a" by (rule app_reachable_inv [OF assms(1)])
  note run = app_engine.run [OF assms(2) inv]
  have "engine_inv (ap_engine a) \<and> eng_config (ap_engine a) = c" using inv by (simp add: app_inv_def)
  moreover have "engine_step\<^sup>*\<^sup>* (ap_engine a) (ap_engine a')" using run by (simp add: rtranclp_idemp)
  moreover have "gpu_ok (model_names c) (capacity c) (gpu_view (ap_engine a))"
    by (rule reachable_gpu_ok [OF app_reachable_engine [OF assms(1)]])
  moreover have "0 \<le> capacity c"
    using reachable_valid [OF app_reachable_engine [OF assms(1)]] by (simp add: valid_app_config_def valid_scheduler_config_def)
  ultimately show ?thesis
    using engine_gpu.run engine_gpu.keeps [of "ap_engine a" "ap_engine a'" c "gpu_ok (model_names c) (capacity c)"]
      gpu_step_ok by blast
qed

theorem application_follows_gpu_protocol_witness:
  "gpu_steps (model_names example_config) (capacity example_config) (gpu_view (ap_engine (app_after job_run)))
     (gpu_view (ap_engine (sweep_app (app_after job_run))))"
proof -
  have "app_step\<^sup>*\<^sup>* (app_after job_run) (sweep_app (app_after job_run))" by (blast intro: app_step.sweep)
  from application_follows_gpu_protocol [OF app_after_reachable this] show ?thesis by simp
qed

end
