(* ===== verification/Sir_Requests.thy ===== *)
theory Sir_Requests
  imports Sir_Engine_Liveness
begin

text \<open>
  Which code of the engine has to be looked at for an invariant about the requests: what holds of
  store, queues, time and measured durations, said once as a locale, with the proof that every step
  keeps it. \<open>Sir_Fifo\<close> and \<open>Sir_Estimates\<close> interpret it.
\<close>

subsection \<open>Invariants of queues and store\<close>

text \<open>
  A property of store, queues, time and measured durations is kept by every step if it is kept by the
  code that touches them: the head of a pass, a dispatch, a task, an arrival, a departure, time, and a shutdown.
\<close>

locale request_invariant =
  fixes P :: "engine \<Rightarrow> bool"
  assumes frame: "P e \<Longrightarrow> eng_store e' = eng_store e \<Longrightarrow> eng_queues e' = eng_queues e \<Longrightarrow> eng_now e' = eng_now e
      \<Longrightarrow> eng_mean_seconds e' = eng_mean_seconds e \<Longrightarrow> P e'"
    and housekeep: "inv_at LoopTop e \<Longrightarrow> P e \<Longrightarrow> P (housekeep e)"
    and dispatch: "inv_at LoopTop e \<Longrightarrow> P e \<Longrightarrow> dispatch e = Some e' \<Longrightarrow> P e'"
    and serve: "engine_inv e \<Longrightarrow> P e \<Longrightarrow> serve_enabled r out e \<Longrightarrow> P (serve r out e)"
    and submit: "engine_inv e \<Longrightarrow> P e \<Longrightarrow> eng_store e r = None \<Longrightarrow> submit req r e = Inr e' \<Longrightarrow> P e'"
    and cancel: "engine_inv e \<Longrightarrow> P e \<Longrightarrow> P (client_cancel r e)"
    and elapse: "P e \<Longrightarrow> 0 \<le> d \<Longrightarrow> P (e\<lparr>eng_now := eng_now e + d\<rparr>)"
    and shut: "engine_inv e \<Longrightarrow> P e \<Longrightarrow> eng_pc e = StopGather \<Longrightarrow> all_done e \<Longrightarrow> stop_gathered e = Some e' \<Longrightarrow> P e'"
begin

lemma after_drain: "P e \<Longrightarrow> after_drain t e = Some e' \<Longrightarrow> P e'"
  by (rule frame [of e]) (auto simp: after_drain_def load_begin_def emit_def Let_def split: option.splits if_splits)

lemma switch_begin: "P e \<Longrightarrow> switch_begin t e = Some e' \<Longrightarrow> P e'"
  by (rule frame [of e])
    (auto simp: switch_begin_def after_drain_def load_begin_def cancel_disconnected_def cancel_tasks_def emit_def Let_def
      split: option.splits if_splits)

lemma loop_body:
  assumes "inv_at LoopTop e" and "failed_fit e" and P: "P e" and "loop_body e = Some e'"
  shows "P e'"
  using assms(1,2,4)
proof (rule loop_body_cases)
  fix i snap d r
  assume r: "r = record_decision d ((housekeep e)\<lparr>eng_idle_since := i\<rparr>)" and ri: "inv_at LoopTop r"
    and cases: "(\<exists>t. dc_kind d = SWITCH \<and> dc_target d = Some t \<and> switch_begin t r = Some e')
     \<or> (dc_kind d \<in> {SERVE, HOLD} \<and> (\<exists>f. dispatch r = Some f
          \<and> e' = f\<lparr>eng_pc := TickWait (eng_now f + sc_tick_interval_seconds (sched f))\<rparr>))
     \<or> (dc_kind d = IDLE \<and> e' = r\<lparr>eng_pc := TickWait (eng_now e + sc_tick_interval_seconds (sched e))\<rparr>)"
  have Pr: "P r" by (rule frame [OF housekeep [OF assms(1) P]]) (simp_all add: r record_decision_def)
  from cases show ?thesis
  proof (elim disjE exE conjE)
    fix t assume "switch_begin t r = Some e'"
    then show ?thesis by (rule switch_begin [OF Pr])
  next
    fix f assume f: "dispatch r = Some f" "e' = f\<lparr>eng_pc := TickWait (eng_now f + sc_tick_interval_seconds (sched f))\<rparr>"
    show ?thesis by (rule frame [OF dispatch [OF ri Pr f(1)]]) (simp_all add: f(2))
  next
    assume "e' = r\<lparr>eng_pc := TickWait (eng_now e + sc_tick_interval_seconds (sched e))\<rparr>"
    then show ?thesis by (intro frame [OF Pr]) simp_all
  qed
qed

lemma handle_failed:
  assumes "inv_at LoopTop e" "failed_fit e" "length ms \<le> 1" and P: "P e" and hf: "handle_failed ms e = Some e'"
  shows "P e'"
proof (cases ms)
  case Nil
  with hf loop_body [OF assms(1,2) P] show ?thesis by simp
next
  case (Cons m ms')
  then have ms: "ms = [m]" using assms(3) by simp
  let ?e = "emit EV_CRASH m ''backend marked unavailable'' None (mark_unavailable m e)"
  have e: "inv_at LoopTop ?e" "failed_fit ?e" using assms(1,2) by (simp_all add: emit_def mark_unavailable_def)
  have Pe: "P ?e" by (rule frame [OF P]) (simp_all add: emit_def mark_unavailable_def)
  show ?thesis
  proof (cases "eng_resident ?e = Some m")
    case False
    then have "loop_body ?e = Some e'" using hf ms by (simp add: Let_def)
    with loop_body [OF e Pe] show ?thesis .
  next
    case True
    then show ?thesis
      using hf ms by (intro frame [OF Pe]) (auto simp: Let_def crash_unload_def cancel_tasks_def split: if_splits)
  qed
qed

lemma loop_top:
  assumes "inv_at LoopTop e" and P: "P e" and "loop_top e = Some e'"
  shows "P e'"
proof (cases "eng_running e")
  case True
  let ?e = "e\<lparr>eng_wakeup := False, eng_failed := []\<rparr>"
  have "P ?e" by (rule frame [OF P]) simp_all
  moreover have "inv_at LoopTop ?e" "length (eng_failed e) \<le> 1" using assms(1) by (simp_all add: inv_at_def phase_inv_def)
  moreover have "Sir_Engine.handle_failed (eng_failed e) ?e = Some e'"
    using assms(3) True by (simp add: loop_top_def handle_failures_def)
  ultimately show ?thesis using handle_failed [of ?e "eng_failed e" e'] by simp
next
  case False
  with assms(3) show ?thesis by (intro frame [OF P]) (auto simp: loop_top_def)
qed

lemma fail_stopped:
  assumes inv: "inv_at (FailStop m ms) e" and P: "P e" and "fail_stopped m ms e = Some e'"
  shows "P e'"
proof -
  note ph = inv_atD(5) [OF inv, unfolded phase_inv_def]
  let ?e = "emit EV_UNLOAD m ''after crash'' None (e\<lparr>eng_gpu := removeAll m (eng_gpu e)\<rparr>)"
  have i: "inv_at LoopTop ?e"
    using inv_at_cong [OF inv, of ?e LoopTop] ph by (simp add: emit_def phase_inv_def all_done_def)
  have Pe: "P ?e" by (rule frame [OF P]) (simp_all add: emit_def)
  have "failed_fit ?e" "Sir_Engine.loop_body ?e = Some e'" using ph assms(3) by (simp_all add: emit_def fail_stopped_def)
  from loop_body [OF i this(1) Pe this(2)] show ?thesis .
qed

lemma kept:
  assumes "engine_step e e'" and "engine_inv e" and "P e"
  shows "P e'"
  using assms
proof (induction rule: engine_step.induct)
  case (time d e)
  then show ?case by (simp add: elapse)
next
  case (arrive e r req e')
  then show ?case using submit by blast
next
  case (disconnect e r)
  then show ?case using cancel by blast
next
  case (task r out e)
  then show ?case using serve by blast
next
  case (top e e')
  then show ?case using loop_top by (simp add: engine_inv_def)
next
  case (failed_stop e m ms e')
  then show ?case using fail_stopped by (simp add: engine_inv_def)
next
  case (stop_gather e e')
  then show ?case using shut by blast
next
  case (failed_gather e m ms e')
  then show ?case by (intro frame [OF failed_gather.prems(2)]) (auto simp: fail_gathered_def crash_unload_def split: if_splits)
next
  case (drained e t s e')
  then show ?case
    by (intro frame [OF drained.prems(2)]) (auto simp: drain_done_def after_drain_def load_begin_def emit_def Let_def split: if_splits option.splits)
next
  case (unloaded e t p e')
  then show ?case
    by (intro frame [OF unloaded.prems(2)]) (auto simp: unload_done_def load_begin_def emit_def Let_def split: if_splits)
next
  case (stop e)
  have "eng_store (cancel_loop x) = eng_store x" "eng_queues (cancel_loop x) = eng_queues x" "eng_now (cancel_loop x) = eng_now x"
    "eng_mean_seconds (cancel_loop x) = eng_mean_seconds x" for x
    by (simp_all add: cancel_loop_def emit_def split: loop_pc.split)
  with stop show ?case by (intro frame [OF stop.prems(2)]) (simp_all add: stop_begin_def cancel_tasks_def)
next
  case (tick e d)
  show ?case by (rule frame [OF tick.prems(2)]) simp_all
next
  case (start e)
  then show ?case by (intro frame [OF start.prems(2)]) (simp_all add: start_engine_def)
next
  case (loaded e t s)
  then show ?case by (intro frame [OF loaded.prems(2)]) (simp_all add: load_ok_def emit_def Let_def)
next
  case (load_fails e t s msg)
  then show ?case by (intro frame [OF load_fails.prems(2)]) (simp_all add: load_failed_def mark_unavailable_def emit_def Let_def)
next
  case (load_fail_stop e t)
  then show ?case by (intro frame [OF load_fail_stop.prems(2)]) (simp_all add: load_fail_stopped_def mark_unavailable_def)
next
  case (stop_wait e m)
  then show ?case by (intro frame [OF stop_wait.prems(2)]) (simp_all add: stop_finish_def)
qed

lemma kept_reachable:
  assumes "reachable c t0 e" and "P (init_engine c t0)"
  shows "P e"
  using assms
proof (induction rule: reachable.induct)
  case (step e e')
  then show ?case using kept [OF step.hyps(2) reachable_inv [OF step.hyps(1)]] by blast
qed

end

end
