(* ===== verification/Sir_Fifo.thy ===== *)
theory Sir_Fifo
  imports Sir_Requests
begin

text \<open>
  Nobody is overtaken: across the whole run of an engine, the requests of a model start in the order
  of their arrival. The argument is an invariant about what the queues and the store hold, an
  interpretation of \<open>request_invariant\<close>.
\<close>

subsection \<open>The order of a model's requests\<close>

text \<open>The live requests in the queue of a model, and when a request came.\<close>

definition lane :: "engine \<Rightarrow> string \<Rightarrow> rid list" where
  "lane e m = (case map_of (eng_queues e) m of None \<Rightarrow> [] | Some rs \<Rightarrow> live (eng_store e) rs)"

definition came :: "store \<Rightarrow> rid \<Rightarrow> seconds" where
  "came st r = (case st r of None \<Rightarrow> 0 | Some q \<Rightarrow> qr_enqueued_at q)"

text \<open>
  Nobody came after now; a queue is in the order of arrival; whoever has started came before everyone
  who still waits; and starts are in the order of arrival.
\<close>

definition past_inv :: "engine \<Rightarrow> bool" where
  "past_inv e \<longleftrightarrow> (\<forall>r q. eng_store e r = Some q \<longrightarrow> qr_enqueued_at q \<le> eng_now e
     \<and> (\<forall>s. qr_started_at q = Some s \<longrightarrow> s \<le> eng_now e))"

definition lanes_inv :: "engine \<Rightarrow> bool" where
  "lanes_inv e \<longleftrightarrow> (\<forall>m. sorted (map (came (eng_store e)) (lane e m)))"

definition waiting_inv :: "engine \<Rightarrow> bool" where
  "waiting_inv e \<longleftrightarrow> (\<forall>r q x. eng_store e r = Some q \<longrightarrow> qr_started_at q \<noteq> None \<longrightarrow> x \<in> set (lane e (qr_model q))
     \<longrightarrow> qr_enqueued_at q \<le> came (eng_store e) x)"

definition starts_inv :: "engine \<Rightarrow> bool" where
  "starts_inv e \<longleftrightarrow> (\<forall>r q s r' q' s'. eng_store e r = Some q \<longrightarrow> eng_store e r' = Some q' \<longrightarrow> qr_model q = qr_model q'
     \<longrightarrow> qr_started_at q = Some s \<longrightarrow> qr_started_at q' = Some s' \<longrightarrow> qr_enqueued_at q < qr_enqueued_at q' \<longrightarrow> s \<le> s')"

definition fifo_inv :: "engine \<Rightarrow> bool" where
  "fifo_inv e \<longleftrightarrow> past_inv e \<and> lanes_inv e \<and> waiting_inv e \<and> starts_inv e"

text \<open>What the order is about, in a request.\<close>

definition marks :: "queued_request \<Rightarrow> string \<times> seconds \<times> seconds option" where
  "marks q = (qr_model q, qr_enqueued_at q, qr_started_at q)"

lemma marks_came:
  assumes "\<And>r. map_option marks (st' r) = map_option marks (st r)"
  shows "came st' = came st"
proof
  fix r
  show "came st' r = came st r" using assms [of r] by (auto simp: came_def marks_def split: option.splits)
qed

text \<open>Where nothing starts and no queue gets longer, the order stays.\<close>

lemma fifo_calm:
  assumes inv: "fifo_inv e" and later: "eng_now e \<le> eng_now e'"
    and same: "\<And>r. map_option marks (eng_store e' r) = map_option marks (eng_store e r)"
    and sub: "\<And>m. lane e' m = filter keep (lane e m)"
  shows "fifo_inv e'"
proof -
  have old: "\<exists>q0. eng_store e r = Some q0 \<and> qr_model q0 = qr_model q \<and> qr_enqueued_at q0 = qr_enqueued_at q
      \<and> qr_started_at q0 = qr_started_at q" if "eng_store e' r = Some q" for r q
    using same [of r] that by (cases "eng_store e r") (auto simp: marks_def)
  have came: "came (eng_store e') = came (eng_store e)" by (rule marks_came [OF same])
  have "past_inv e'"
    using inv later old unfolding fifo_inv_def past_inv_def by (metis order_trans)
  moreover have "lanes_inv e'"
    using inv sub unfolding fifo_inv_def lanes_inv_def came by (simp add: sorted_filter)
  moreover have "waiting_inv e'"
    unfolding waiting_inv_def came
  proof (intro allI impI)
    fix r q x assume "eng_store e' r = Some q" "qr_started_at q \<noteq> None" "x \<in> set (lane e' (qr_model q))"
    moreover from this(3) have "x \<in> set (lane e (qr_model q))" using sub by simp
    ultimately show "qr_enqueued_at q \<le> came (eng_store e) x"
      using inv old unfolding fifo_inv_def waiting_inv_def by metis
  qed
  moreover have "starts_inv e'"
    unfolding starts_inv_def
  proof (intro allI impI)
    fix r q s r' q' s'
    assume a: "eng_store e' r = Some q" "eng_store e' r' = Some q'" "qr_model q = qr_model q'"
      "qr_started_at q = Some s" "qr_started_at q' = Some s'" "qr_enqueued_at q < qr_enqueued_at q'"
    from old [OF a(1)] old [OF a(2)] a(3-6) obtain p p' where "eng_store e r = Some p" "eng_store e r' = Some p'"
      "qr_model p = qr_model p'" "qr_started_at p = Some s" "qr_started_at p' = Some s'"
      "qr_enqueued_at p < qr_enqueued_at p'" by auto
    moreover have "starts_inv e" using inv by (simp add: fifo_inv_def)
    ultimately show "s \<le> s'" unfolding starts_inv_def by blast
  qed
  ultimately show ?thesis by (simp add: fifo_inv_def)
qed

subsection \<open>Each part of the code keeps the order\<close>

lemma lane_mem:
  assumes "inv_at pc e" and "x \<in> set (lane e m)"
  obtains q where "eng_store e x = Some q" "qr_model q = m" "qr_state q = QUEUED" "qr_started_at q = None"
    "\<not> qr_cancelled q" "came (eng_store e) x = qr_enqueued_at q"
proof -
  from assms(2) obtain rs where rs: "map_of (eng_queues e) m = Some rs" "x \<in> set rs"
    "\<not> is_cancelled (eng_store e) x"
    by (cases "map_of (eng_queues e) m") (auto simp: lane_def)
  obtain q where q: "eng_store e x = Some q" "qr_model q = m" "x \<in> set (queued_ids (eng_queues e))"
    by (rule queue_invE [OF inv_atD(2) [OF assms(1)] rs(1,2)])
  from state_invD [OF inv_atD(4) [OF assms(1)] q(1)] q(3) have "qr_state q = QUEUED" "qr_started_at q = None"
    by (auto simp: req_ok_def)
  with that [OF q(1,2)] rs(3) q(1) show thesis by (simp add: is_cancelled_def came_def)
qed

lemma lane_same:
  assumes "eng_queues e' = eng_queues e" and "is_cancelled (eng_store e') = is_cancelled (eng_store e)"
  shows "lane e' m = lane e m"
  using assms by (simp add: lane_def live_def cong: option.case_cong)

lemma fifo_frame:
  assumes "fifo_inv e" and "eng_store e' = eng_store e" "eng_queues e' = eng_queues e" "eng_now e' = eng_now e"
  shows "fifo_inv e'"
  by (rule fifo_calm [OF assms(1), where keep = "\<lambda>_. True"])
    (simp_all add: assms(2-4) lane_same [of e' e])

lemma fifo_elapse:
  assumes "fifo_inv e" and "0 \<le> d"
  shows "fifo_inv (e\<lparr>eng_now := eng_now e + d\<rparr>)"
  by (rule fifo_calm [OF assms(1), where keep = "\<lambda>_. True"]) (simp_all add: assms(2) lane_same [of "e\<lparr>eng_now := eng_now e + d\<rparr>" e])

lemma fifo_housekeep:
  assumes "fifo_inv e"
  shows "fifo_inv (housekeep e)"
proof (rule fifo_calm [OF assms, where keep = "\<lambda>_. True"])
  show "map_option marks (eng_store (housekeep e) r) = map_option marks (eng_store e r)" for r
    by (auto simp: housekeep_def reap_finished_def cancel_disconnected_def cancel_tasks_def purge_cancelled_def
        mq_purge_spec [of _ _ 0] taken_store_def drop_req_def marks_def [abs_def] qr_model_def option.map_comp comp_def)
  show "lane (housekeep e) m = filter (\<lambda>_. True) (lane e m)" for m
    by (simp add: lane_def housekeep_queues live_def housekeep_store split: option.split)
qed (simp add: housekeep_def reap_finished_def cancel_disconnected_def cancel_tasks_def purge_cancelled_def
    mq_purge_spec [of _ _ 0])

lemma map_req_marks [simp]:
  "(\<And>q. marks (f q) = marks q) \<Longrightarrow> map_option marks (eng_store (map_req r f e) x) = map_option marks (eng_store e x)"
  by (simp add: map_req_def upd_req_def split: option.split)

lemma map_req_frame [simp]:
  "eng_queues (map_req r f e) = eng_queues e" "eng_now (map_req r f e) = eng_now e"
  by (simp_all add: map_req_def)

lemma observe_frame [simp]:
  "eng_queues (observe_duration r e) = eng_queues e" "eng_now (observe_duration r e) = eng_now e"
  "eng_store (observe_duration r e) = eng_store e"
  by (simp_all add: observe_duration_def Let_def split: option.splits)

lemma finally_frame [simp]:
  "eng_queues (serve_finally r e) = eng_queues e" "eng_now (serve_finally r e) = eng_now e"
  "map_option marks (eng_store (serve_finally r e) x) = map_option marks (eng_store e x)"
  by (simp_all add: serve_finally_def map_task_def marks_def qr_model_def)

lemma end_frame [simp]:
  "eng_queues (serve_end r ev e) = eng_queues e" "eng_now (serve_end r ev e) = eng_now e"
  "map_option marks (eng_store (serve_end r ev e) x) = map_option marks (eng_store e x)"
  by (simp_all add: serve_end_def emit_def put_event_def marks_def qr_model_def split: option.split)

lemma serve_frame:
  "eng_queues (serve r out e) = eng_queues e" "eng_now (serve r out e) = eng_now e"
  "map_option marks (eng_store (serve r out e) x) = map_option marks (eng_store e x)"
proof -
  note defs = serve_def emit_def put_event_def marks_def qr_model_def
  show "eng_queues (serve r out e) = eng_queues e" by (cases out) (simp_all add: defs split: option.split)
  show "eng_now (serve r out e) = eng_now e" by (cases out) (simp_all add: defs split: option.split)
  show "map_option marks (eng_store (serve r out e) x) = map_option marks (eng_store e x)"
    by (cases out) (simp_all add: defs split: option.split)
qed

lemma fifo_serve:
  assumes "fifo_inv e"
  shows "fifo_inv (serve r out e)"
  by (rule fifo_calm [OF assms, where keep = "\<lambda>_. True"])
    (simp_all add: serve_frame lane_same [of "serve r out e" e] serve_is_cancelled)

lemma fifo_cancel:
  assumes "fifo_inv e"
  shows "fifo_inv (client_cancel r e)"
proof (rule fifo_calm [OF assms, where keep = "\<lambda>x. \<not> is_cancelled (eng_store (client_cancel r e)) x"])
  have "is_cancelled (eng_store (client_cancel r e)) x" if "is_cancelled (eng_store e) x" for x
    using that by (auto simp: client_cancel_def map_req_def upd_req_def is_cancelled_def qr_cancel_def split: option.splits)
  then show "lane (client_cancel r e) m = filter (\<lambda>x. \<not> is_cancelled (eng_store (client_cancel r e)) x) (lane e m)" for m
    by (auto simp: lane_def live_def client_cancel_def intro: filter_cong split: option.split)
qed (simp_all add: client_cancel_def qr_cancel_def marks_def qr_model_def)

lemma fifo_shut:
  assumes inv: "fifo_inv e" and ei: "engine_inv e" and "stop_gathered e = Some e'"
  shows "fifo_inv e'"
proof (rule fifo_calm [OF inv, where keep = "\<lambda>_. False"])
  obtain qs' where qs': "Some e' = Some (let e = e\<lparr>eng_in_flight := [],
        eng_store := shut_store (queued_ids (eng_queues e)) (eng_store e), eng_queues := qs'\<rparr> in
      (case eng_resident e of None \<Rightarrow> e\<lparr>eng_pc := Stopped\<rparr> | Some m \<Rightarrow> e\<lparr>eng_pc := StopWait m\<rparr>))"
    "queued_ids qs' = []"
    using stop_gathered_eq [OF ei [unfolded engine_inv_def]] assms(3) by auto
  have e': "eng_now e' = eng_now e" "eng_queues e' = qs'"
    "eng_store e' = shut_store (queued_ids (eng_queues e)) (eng_store e)"
    using qs'(1) by (auto simp: Let_def split: option.splits)
  then show "eng_now e \<le> eng_now e'" by simp
  show "map_option marks (eng_store e' r) = map_option marks (eng_store e r)" for r
    by (simp add: e' shut_store_def option.map_comp comp_def shut_request_def put_event_def marks_def [abs_def] qr_model_def)
  have nil: "rs = []" if "map_of qs' m = Some rs" for m rs
    using qs'(2) that by (auto simp: queued_ids_def dest!: map_of_SomeD)
  then show "lane e' m = filter (\<lambda>_. False) (lane e m)" for m
    by (cases "map_of qs' m") (auto simp: lane_def e' dest: nil)
qed

text \<open>Whoever arrives comes last.\<close>

text \<open>A submission joins the end of its lane.\<close>

definition joined :: "rid \<Rightarrow> queued_request \<Rightarrow> engine \<Rightarrow> engine \<Rightarrow> bool" where
  "joined r q e e' \<longleftrightarrow> eng_now e' = eng_now e \<and> eng_store e' = (eng_store e)(r \<mapsto> q)
     \<and> qr_enqueued_at q = eng_now e \<and> qr_started_at q = None
     \<and> (\<forall>k. lane e' k = (if k = qr_model q then lane e k @ [r] else lane e k))
     \<and> (\<forall>k x. x \<in> set (lane e k) \<longrightarrow> x \<noteq> r \<and> came (eng_store e) x \<le> eng_now e)"

lemma submit_joined:
  assumes past: "past_inv e" and ei: "engine_inv e" and fresh: "eng_store e r = None" and sub: "submit req r e = Inr e'"
  shows "joined r (new_queued_request req (eng_now e)) e e'"
proof -
  note at = ei [unfolded engine_inv_def]
  let ?m = "gr_model req" and ?q = "new_queued_request req (eng_now e)"
  obtain rs where rs: "map_of (eng_queues e) ?m = Some rs"
    using sub by (auto simp: submit_def mq_contains_def split: if_splits)
  have "?m \<in> set (names_of e)"
    using rs queue_keys [OF at] by (metis list.set_map map_of_eq_None_iff option.distinct(1))
  from submit_known [OF at this rs, of r] sub obtain evs where
    e': "e' = e\<lparr>eng_store := (eng_store e)(r \<mapsto> ?q), eng_queues := AList.update ?m (rs @ [r]) (eng_queues e),
      eng_events := evs, eng_wakeup := True\<rparr>" by auto
  have old: "x \<noteq> r \<and> came (eng_store e) x \<le> eng_now e" if "x \<in> set (lane e k)" for x k
    using that fresh past by (auto simp: past_inv_def elim!: lane_mem [OF at])
  have in_queue: "x \<noteq> r" if "map_of (eng_queues e) k = Some xs" "x \<in> set xs" for k xs x
    using queue_invE [OF inv_atD(2) [OF at] that] fresh by (metis option.distinct(1))
  have live: "live (eng_store e') xs = live (eng_store e) xs" if "map_of (eng_queues e) k = Some xs" for k xs
    using in_queue [OF that] by (auto simp: live_def e' is_cancelled_def intro!: filter_cong)
  have lane: "lane e' k = (if k = ?m then lane e k @ [r] else lane e k)" for k
  proof (cases "k = ?m")
    case True
    then show ?thesis using live [OF rs] rs
      by (simp add: lane_def e' update_conv') (simp add: is_cancelled_def new_queued_request_def)
  next
    case False
    then show ?thesis using live
      by (auto simp: lane_def e' update_conv' split: option.split)
  qed
  show ?thesis
    unfolding joined_def using old lane by (simp add: e' new_queued_request_def qr_model_def)
qed

lemma joined_came:
  "joined r p e e' \<Longrightarrow> came (eng_store e') x = (if x = r then eng_now e else came (eng_store e) x)"
  by (auto simp: joined_def came_def)

lemma joined_past: "past_inv e \<Longrightarrow> joined r p e e' \<Longrightarrow> past_inv e'"
  unfolding past_inv_def joined_def by (auto split: if_splits)

lemma joined_lanes:
  assumes lanes: "lanes_inv e" and j: "joined r p e e'"
  shows "lanes_inv e'"
  unfolding lanes_inv_def
proof
  fix k
  have old: "x \<noteq> r" "came (eng_store e) x \<le> eng_now e" if "x \<in> set (lane e k)" for x
    using j that by (auto simp: joined_def)
  have "map (came (eng_store e')) (lane e k) = map (came (eng_store e)) (lane e k)"
    using old(1) by (auto simp: joined_came [OF j])
  moreover have "sorted (map (came (eng_store e)) (lane e k))" using lanes by (simp add: lanes_inv_def)
  ultimately have "sorted (map (came (eng_store e')) (lane e k))" by argo
  moreover have "lane e' k = (if k = qr_model p then lane e k @ [r] else lane e k)" using j by (simp add: joined_def)
  ultimately show "sorted (map (came (eng_store e')) (lane e' k))"
    using old by (auto simp: sorted_append joined_came [OF j])
qed

lemma joined_request:
  "joined r p e e' \<Longrightarrow> eng_store e' a = Some q \<Longrightarrow> qr_started_at q \<noteq> None \<Longrightarrow> eng_store e a = Some q"
  by (auto simp: joined_def split: if_splits)

lemma joined_waiting:
  assumes "past_inv e" and waiting: "waiting_inv e" and j: "joined r p e e'"
  shows "waiting_inv e'"
  unfolding waiting_inv_def
proof (intro allI impI)
  fix a q x assume a: "eng_store e' a = Some q" "qr_started_at q \<noteq> None" "x \<in> set (lane e' (qr_model q))"
  note q = joined_request [OF j a(1,2)]
  show "qr_enqueued_at q \<le> came (eng_store e') x"
  proof (cases "x = r")
    case True
    then show ?thesis using assms(1) q by (auto simp: joined_came [OF j] past_inv_def)
  next
    case False
    then have "x \<in> set (lane e (qr_model q))" using a(3) j by (auto simp: joined_def split: if_splits)
    then show ?thesis using waiting q a(2) False by (auto simp: joined_came [OF j] waiting_inv_def)
  qed
qed

lemma joined_starts:
  assumes "starts_inv e" and j: "joined r p e e'"
  shows "starts_inv e'"
proof -
  have "eng_store e a = Some q" if "eng_store e' a = Some q" "qr_started_at q = Some s" for a q s
    using joined_request [OF j that(1)] that(2) by simp
  then show ?thesis using assms(1) unfolding starts_inv_def by blast
qed

lemma fifo_submit:
  assumes "fifo_inv e" and "engine_inv e" and "eng_store e r = None" and "submit req r e = Inr e'"
  shows "fifo_inv e'"
proof -
  have p: "past_inv e" "lanes_inv e" "waiting_inv e" "starts_inv e" using assms(1) by (simp_all add: fifo_inv_def)
  note j = submit_joined [OF p(1) assms(2-4)]
  show ?thesis
    using joined_past [OF p(1) j] joined_lanes [OF p(2) j] joined_waiting [OF p(1,3) j] joined_starts [OF p(4) j]
    by (simp add: fifo_inv_def)
qed

text \<open>A dispatch takes the front of a queue, and starts it now.\<close>

definition took :: "rid list \<Rightarrow> string \<Rightarrow> engine \<Rightarrow> engine \<Rightarrow> bool" where
  "took ts m e e' \<longleftrightarrow> lane e m = ts @ lane e' m \<and> (\<forall>k. k \<noteq> m \<longrightarrow> lane e' k = lane e k)
     \<and> came (eng_store e') = came (eng_store e) \<and> eng_now e' = eng_now e
     \<and> (\<forall>a q. eng_store e' a = Some q \<longrightarrow> (\<exists>p. eng_store e a = Some p \<and> qr_model p = qr_model q
          \<and> qr_enqueued_at p = qr_enqueued_at q
          \<and> qr_started_at q = (if a \<in> set ts then Some (eng_now e) else qr_started_at p)
          \<and> (a \<in> set ts \<longrightarrow> qr_model q = m)))"

lemma dispatch_took:
  assumes at: "inv_at pc e" and res: "eng_resident e = Some m" and d: "dispatch e = Some e'"
  shows "\<exists>ts. took ts m e e'"
proof -
  obtain rs where rs: "map_of (eng_queues e) m = Some rs"
    using known_model [OF at resident_known [OF at res]] by blast
  let ?free = "nat (sc_max_concurrent_requests (sched e) - int (length (eng_in_flight e)))"
  let ?ts = "take ?free (live (eng_store e) rs)"
  obtain ds rs' qs' evs where e': "e' = e\<lparr>eng_store := taken_store (eng_now e) ?ts ds (eng_store e),
        eng_queues := qs', eng_events := evs, eng_in_flight := eng_in_flight e @ map new_task ?ts\<rparr>"
    and qs': "map_of qs' m = Some rs'" "\<forall>k. k \<noteq> m \<longrightarrow> map_of qs' k = map_of (eng_queues e) k"
    and rest: "live (eng_store e) rs' = drop ?free (live (eng_store e) rs)"
    using dispatch_spec [OF at res rs] d by auto
  have "lane e m = ?ts @ lane e' m" using rs qs'(1) rest by (simp add: lane_def e' live_def)
  moreover have "lane e' k = lane e k" if "k \<noteq> m" for k
    using qs'(2) that by (simp add: lane_def e' live_def split: option.split)
  moreover have "came (eng_store e') = came (eng_store e)"
    by (simp add: e' came_def fun_eq_iff taken_store_def run_req_def drop_req_def split: option.split)
  moreover have "qr_model p = m" if "a \<in> set ?ts" "eng_store e a = Some p" for a p
  proof -
    have "a \<in> set rs" using that(1) by (auto simp: live_def dest: in_set_takeD)
    from queue_invE [OF inv_atD(2) [OF at] rs this] that(2) show ?thesis by force
  qed
  ultimately show ?thesis
    unfolding took_def
    by (intro exI [of _ ?ts]) (auto simp: e' taken_store_def run_req_def drop_req_def qr_model_def split: if_splits)
qed

text \<open>Who was taken came before those left behind, and after those who had started.\<close>

lemma took_order:
  assumes t: "took ts m e e'" and inv: "fifo_inv e"
  shows "a \<in> set ts \<Longrightarrow> x \<in> set (lane e' m) \<Longrightarrow> came (eng_store e) a \<le> came (eng_store e) x"
    and "a \<in> set ts \<Longrightarrow> eng_store e b = Some p \<Longrightarrow> qr_started_at p \<noteq> None \<Longrightarrow> qr_model p = m
      \<Longrightarrow> qr_enqueued_at p \<le> came (eng_store e) a"
    and "set (lane e' k) \<subseteq> set (lane e k)" and "sorted (map (came (eng_store e)) (lane e' k))"
proof -
  have lane: "lane e m = ts @ lane e' m" and other: "\<And>k. k \<noteq> m \<Longrightarrow> lane e' k = lane e k"
    using t by (simp_all add: took_def)
  have sorted: "sorted (map (came (eng_store e)) (lane e k))" for k using inv by (simp add: fifo_inv_def lanes_inv_def)
  then have s: "sorted (map (came (eng_store e)) ts @ map (came (eng_store e)) (lane e' m))"
    using lane by (metis map_append)
  then show "a \<in> set ts \<Longrightarrow> x \<in> set (lane e' m) \<Longrightarrow> came (eng_store e) a \<le> came (eng_store e) x"
    by (auto simp: sorted_append)
  show "a \<in> set ts \<Longrightarrow> eng_store e b = Some p \<Longrightarrow> qr_started_at p \<noteq> None \<Longrightarrow> qr_model p = m
      \<Longrightarrow> qr_enqueued_at p \<le> came (eng_store e) a"
    using inv lane by (auto simp: fifo_inv_def waiting_inv_def)
  show "set (lane e' k) \<subseteq> set (lane e k)" using lane other [of k] by (cases "k = m") auto
  show "sorted (map (came (eng_store e)) (lane e' k))"
    using s sorted [of k] other [of k] by (cases "k = m") (auto simp: sorted_append)
qed

lemma took_request:
  assumes "took ts m e e'" and "eng_store e' a = Some q"
  obtains p where "eng_store e a = Some p" "qr_model p = qr_model q" "qr_enqueued_at p = qr_enqueued_at q"
    "qr_started_at q = (if a \<in> set ts then Some (eng_now e) else qr_started_at p)" "a \<in> set ts \<longrightarrow> qr_model q = m"
  using assms unfolding took_def by blast

lemma took_past:
  assumes "took ts m e e'" and "fifo_inv e"
  shows "past_inv e'"
  unfolding past_inv_def
proof (intro allI impI)
  fix a q assume "eng_store e' a = Some q"
  then obtain p where "eng_store e a = Some p" "qr_enqueued_at p = qr_enqueued_at q"
    "qr_started_at q = (if a \<in> set ts then Some (eng_now e) else qr_started_at p)" by (rule took_request [OF assms(1)])
  moreover have "past_inv e" "eng_now e' = eng_now e" using assms by (simp_all add: fifo_inv_def took_def)
  ultimately show "qr_enqueued_at q \<le> eng_now e' \<and> (\<forall>s. qr_started_at q = Some s \<longrightarrow> s \<le> eng_now e')"
    unfolding past_inv_def by (metis option.inject order_refl)
qed

lemma took_waiting:
  assumes t: "took ts m e e'" and inv: "fifo_inv e"
  shows "waiting_inv e'"
  unfolding waiting_inv_def
proof (intro allI impI)
  fix a q x assume q: "eng_store e' a = Some q" "qr_started_at q \<noteq> None" "x \<in> set (lane e' (qr_model q))"
  obtain p where p: "eng_store e a = Some p" "qr_model p = qr_model q" "qr_enqueued_at p = qr_enqueued_at q"
    "qr_started_at q = (if a \<in> set ts then Some (eng_now e) else qr_started_at p)" "a \<in> set ts \<longrightarrow> qr_model q = m"
    by (rule took_request [OF t q(1)])
  have "qr_enqueued_at q \<le> came (eng_store e) x"
  proof (cases "a \<in> set ts")
    case True
    then show ?thesis using took_order(1) [OF t inv True] q(3) p(1,3,5) by (simp add: came_def)
  next
    case False
    moreover have "x \<in> set (lane e (qr_model p))" using took_order(3) [OF t inv] q(3) p(2) by auto
    ultimately show ?thesis using inv p q(2) unfolding fifo_inv_def waiting_inv_def by metis
  qed
  then show "qr_enqueued_at q \<le> came (eng_store e') x" using t by (simp add: took_def)
qed

lemma took_starts:
  assumes t: "took ts m e e'" and inv: "fifo_inv e"
  shows "starts_inv e'"
  unfolding starts_inv_def
proof (intro allI impI)
  fix a q s b q' s'
  assume a: "eng_store e' a = Some q" "eng_store e' b = Some q'" "qr_model q = qr_model q'"
    "qr_started_at q = Some s" "qr_started_at q' = Some s'" "qr_enqueued_at q < qr_enqueued_at q'"
  obtain p where p: "eng_store e a = Some p" "qr_model p = qr_model q" "qr_enqueued_at p = qr_enqueued_at q"
    "qr_started_at q = (if a \<in> set ts then Some (eng_now e) else qr_started_at p)" "a \<in> set ts \<longrightarrow> qr_model q = m"
    by (rule took_request [OF t a(1)])
  obtain p' where p': "eng_store e b = Some p'" "qr_model p' = qr_model q'" "qr_enqueued_at p' = qr_enqueued_at q'"
    "qr_started_at q' = (if b \<in> set ts then Some (eng_now e) else qr_started_at p')" by (rule took_request [OF t a(2)])
  show "s \<le> s'"
  proof (cases "b \<in> set ts")
    case True
    have "s \<le> eng_now e'" using took_past [OF t inv] a(1,4) by (simp add: past_inv_def)
    then show ?thesis using True p'(4) a(5) t by (simp add: took_def)
  next
    case False
    then have started: "qr_started_at p' = Some s'" using p'(4) a(5) by simp
    have "a \<notin> set ts"
      using took_order(2) [OF t inv _ p'(1), of a] started p p'(2,3) a(3,6) by (auto simp: came_def)
    then show ?thesis
      using inv p p' a started unfolding fifo_inv_def starts_inv_def by metis
  qed
qed

lemma fifo_dispatch:
  assumes inv: "fifo_inv e" and at: "inv_at pc e" and d: "dispatch e = Some e'"
  shows "fifo_inv e'"
proof (cases "eng_resident e")
  case None
  with d inv show ?thesis by (simp add: dispatch_def)
next
  case (Some m)
  obtain ts where t: "took ts m e e'" using dispatch_took [OF at Some d] by blast
  then have "lanes_inv e'" using took_order(4) [OF t inv] by (simp add: lanes_inv_def took_def)
  with took_past [OF t inv] took_waiting [OF t inv] took_starts [OF t inv] show ?thesis by (simp add: fifo_inv_def)
qed

subsection \<open>The whole run\<close>

interpretation fifo: request_invariant fifo_inv
proof unfold_locales
  show "fifo_inv e'" if "fifo_inv e" "eng_store e' = eng_store e" "eng_queues e' = eng_queues e" "eng_now e' = eng_now e"
    for e e' by (rule fifo_frame [OF that])
qed (auto intro: fifo_housekeep fifo_dispatch fifo_serve fifo_submit fifo_cancel fifo_elapse fifo_shut)

lemma came_empty: "came (\<lambda>_. None) = (\<lambda>_. 0)"
  by (simp add: came_def fun_eq_iff)

lemma fifo_init: "fifo_inv (init_engine c t0)"
  by (simp add: came_empty map_replicate_const fifo_inv_def past_inv_def lanes_inv_def waiting_inv_def starts_inv_def init_engine_def
      lane_def mq_init_def live_def came_def split: option.split)

lemmas fifo_reachable = fifo.kept_reachable [OF _ fifo_init]

text \<open>
  C9. Nobody is overtaken, in any run: of two requests for the same model, the one that came
  first has started no later than the other, if the other has started at all; the only way to miss
  that is to have gone, by a cancellation or by the shutdown.
\<close>

theorem no_overtaking:
  assumes "reachable c t0 e" and "eng_store e r = Some q" and "eng_store e r' = Some q'"
    and "qr_model q = qr_model q'" and "qr_enqueued_at q < qr_enqueued_at q'" and "qr_started_at q' = Some s'"
  shows "(\<exists>s. qr_started_at q = Some s \<and> s \<le> s') \<or> qr_cancelled q \<or> qr_state q = CANCELLED"
proof (cases "qr_started_at q")
  case (Some s)
  with fifo_reachable [OF assms(1)] assms(2-6) have "s \<le> s'" unfolding fifo_inv_def starts_inv_def by blast
  with Some show ?thesis by simp
next
  case None
  note inv = reachable_inv [OF assms(1), unfolded engine_inv_def]
  have "qr_cancelled q" if "qr_state q \<noteq> CANCELLED"
  proof (rule ccontr)
    assume live: "\<not> qr_cancelled q"
    have "req_ok q"
      using state_invD(1) [OF inv_atD(4) [OF inv] assms(2)] .
    then have "qr_state q = QUEUED" using None that by (auto simp: req_ok_def split: request_state.splits)
    with state_invD(2) [OF inv_atD(4) [OF inv] assms(2)] have "r \<in> set (queued_ids (eng_queues e))" by simp
    then obtain rs where "map_of (eng_queues e) (qr_model q) = Some rs" "r \<in> set rs"
      using queued_in_its_queue [OF inv assms(2)] by blast
    then have "r \<in> set (lane e (qr_model q'))" using live assms(2,4) by (simp add: lane_def is_cancelled_def)
    then have "qr_enqueued_at q' \<le> came (eng_store e) r"
      using fifo_reachable [OF assms(1)] assms(3,6) unfolding fifo_inv_def waiting_inv_def by blast
    then show False using assms(2,5) by (simp add: came_def)
  qed
  then show ?thesis by blast
qed

text \<open>One comes at 0 and starts at 5, two more come at 7 and 9 and start at 9.\<close>

definition two_waves :: "move list" where
  "two_waves = [Start, Arrive (req_for ''a'') ''1'', Resume, Pass 5, Resume, Resume, Pass 2,
     Arrive (req_for ''a'') ''2'', Pass 2, Arrive (req_for ''a'') ''3'', Resume, Resume]"

theorem no_overtaking_witness:
  "\<exists>q s. eng_store (after two_waves) ''1'' = Some q \<and> qr_started_at q = Some s \<and> s \<le> 9"
proof -
  have "map (\<lambda>r. map_option (\<lambda>q. (qr_model q, qr_enqueued_at q, qr_started_at q, qr_cancelled q, qr_state q))
        (eng_store (after two_waves) r)) [''1'', ''2'']
      = [Some (''a'', 0, Some 5, False, RUNNING), Some (''a'', 7, Some 9, False, RUNNING)]" by code_simp
  then obtain q q' where "eng_store (after two_waves) ''1'' = Some q" "eng_store (after two_waves) ''2'' = Some q'"
    "qr_model q = qr_model q'" "qr_enqueued_at q < qr_enqueued_at q'" "qr_started_at q' = Some 9"
    "\<not> qr_cancelled q" "qr_state q = RUNNING" by auto
  with no_overtaking [OF after_reachable this(1-5)] show ?thesis by auto
qed

end
