(* ===== verification/Sir_Estimates.thy ===== *)
theory Sir_Estimates
  imports Sir_Fifo
begin

text \<open>
  What the router tells clients about their wait is based on experience: the running average of a
  model stays within the durations that went into it, in any run, and so do the estimates.
\<close>

subsection \<open>The durations that went into an average\<close>

definition served_in :: "queued_request \<Rightarrow> string \<Rightarrow> seconds \<Rightarrow> bool" where
  "served_in q n d \<longleftrightarrow> qr_model q = n \<and> qr_state q = DONE
     \<and> (\<exists>s f. qr_started_at q = Some s \<and> qr_finished_at q = Some f \<and> d = f - s)"

definition experience :: "app_config \<Rightarrow> engine \<Rightarrow> string \<Rightarrow> seconds set" where
  "experience c e n = estimated_request_seconds ` {m \<in> set (ac_models c). mc_name m = n}
     \<union> {d. \<exists>r q. eng_store e r = Some q \<and> served_in q n d}"

definition between :: "seconds \<Rightarrow> seconds set \<Rightarrow> bool" where
  "between x D \<longleftrightarrow> (\<forall>lo hi. D \<subseteq> {lo..hi} \<longrightarrow> lo \<le> x \<and> x \<le> hi)"

lemma between_mono: "between x D \<Longrightarrow> D \<subseteq> D' \<Longrightarrow> between x D'"
  unfolding between_def by (meson subset_trans)

lemma between_elem: "d \<in> D \<Longrightarrow> between d D"
  by (auto simp: between_def)

lemma between_convex:
  assumes "between x D" and "between y D" and "0 \<le> k" and "k \<le> 1"
  shows "between (k * x + (1 - k) * y) D"
  unfolding between_def
proof (intro allI impI)
  fix lo hi assume "D \<subseteq> {lo..hi}"
  then have b: "lo \<le> x" "x \<le> hi" "lo \<le> y" "y \<le> hi" using assms(1,2) unfolding between_def by blast+
  have "k * lo + (1 - k) * lo \<le> k * x + (1 - k) * y" "k * x + (1 - k) * y \<le> k * hi + (1 - k) * hi"
    using assms(3,4) b by (intro add_mono mult_left_mono; simp)+
  then show "lo \<le> k * x + (1 - k) * y \<and> k * x + (1 - k) * y \<le> hi" by (simp add: algebra_simps)
qed

definition mean_inv :: "app_config \<Rightarrow> engine \<Rightarrow> bool" where
  "mean_inv c e \<longleftrightarrow> (\<forall>n x. eng_mean_seconds e n = Some x \<longrightarrow> between x (experience c e n))
     \<and> (\<forall>m \<in> set (ac_models c). eng_mean_seconds e (mc_name m) \<noteq> None)"

text \<open>Where no average moves and what was served stays served, nothing changes.\<close>

lemma experience_mono:
  assumes "\<And>r q. eng_store e r = Some q \<Longrightarrow> qr_state q = DONE \<Longrightarrow> \<exists>q'. eng_store e' r = Some q' \<and> served_in q' = served_in q"
  shows "experience c e n \<subseteq> experience c e' n"
proof
  fix d assume "d \<in> experience c e n"
  then consider "d \<in> estimated_request_seconds ` {m \<in> set (ac_models c). mc_name m = n}"
    | r q where "eng_store e r = Some q" "served_in q n d" by (auto simp: experience_def)
  then show "d \<in> experience c e' n"
  proof cases
    case 1
    then show ?thesis by (simp add: experience_def)
  next
    case 2
    from this(2) have "qr_state q = DONE" by (simp add: served_in_def)
    from assms [OF 2(1) this] obtain q' where "eng_store e' r = Some q'" "served_in q' n d" using 2(2) by auto
    then show ?thesis unfolding experience_def by blast
  qed
qed

lemma mean_calm:
  assumes "mean_inv c e" and "eng_mean_seconds e' = eng_mean_seconds e"
    and "\<And>r q. eng_store e r = Some q \<Longrightarrow> qr_state q = DONE \<Longrightarrow> \<exists>q'. eng_store e' r = Some q' \<and> served_in q' = served_in q"
  shows "mean_inv c e'"
  using assms(1,2) between_mono [OF _ experience_mono [OF assms(3)]] unfolding mean_inv_def by metis

subsection \<open>Each part of the code\<close>

text \<open>Only a task moves an average: whatever leaves alone the requests that are done changes nothing.\<close>

lemma done_not_queued:
  assumes "inv_at pc e" and "eng_store e r = Some q" and "qr_state q = DONE"
  shows "r \<notin> set (queued_ids (eng_queues e))"
  using state_invD(2) [OF inv_atD(4) [OF assms(1)] assms(2)] assms(3) by simp

lemma mean_queued:
  assumes "inv_at pc e" and "mean_inv c e" and "eng_mean_seconds e' = eng_mean_seconds e"
    and "\<And>r. r \<notin> set (queued_ids (eng_queues e)) \<Longrightarrow> eng_store e r \<noteq> None \<Longrightarrow> eng_store e' r = eng_store e r"
  shows "mean_inv c e'"
  using assms(4) done_not_queued [OF assms(1)] by (intro mean_calm [OF assms(2,3)]) auto

lemma mean_housekeep:
  assumes "inv_at LoopTop e" and "mean_inv c e"
  shows "mean_inv c (housekeep e)"
  by (rule mean_queued [OF assms])
    (auto simp: housekeep_def reap_finished_def cancel_disconnected_def cancel_tasks_def purge_cancelled_def
      mq_purge_spec [of _ _ 0] taken_store_def queued_ids_def)

lemma mean_dispatch:
  assumes at: "inv_at LoopTop e" and "mean_inv c e" and d: "dispatch e = Some e'"
  shows "mean_inv c e'"
proof (cases "eng_resident e")
  case None
  with d assms(2) show ?thesis by (simp add: dispatch_def)
next
  case (Some m)
  obtain rs where rs: "map_of (eng_queues e) m = Some rs"
    using known_model [OF at resident_known [OF at Some]] by blast
  let ?ts = "take (nat (sc_max_concurrent_requests (sched e) - int (length (eng_in_flight e)))) (live (eng_store e) rs)"
  obtain ds rs' qs' evs where e': "e' = e\<lparr>eng_store := taken_store (eng_now e) ?ts ds (eng_store e),
        eng_queues := qs', eng_events := evs, eng_in_flight := eng_in_flight e @ map new_task ?ts\<rparr>"
    and ms: "mset rs = mset ?ts + mset ds + mset rs'"
    using dispatch_spec [OF at Some rs] d by auto
  have "set ?ts \<union> set ds \<subseteq> set rs" using arg_cong [OF ms, of set_mset] by auto
  moreover have "set rs \<subseteq> set (queued_ids (eng_queues e))" using rs by (force simp: queued_ids_mem dest: map_of_SomeD)
  ultimately show ?thesis
    by (intro mean_queued [OF at assms(2)]) (auto simp: e' taken_store_def)
qed

lemma submit_store:
  assumes "submit req r e = Inr e'"
  shows "eng_store e' = (eng_store e)(r \<mapsto> new_queued_request req (eng_now e))"
    and "eng_mean_seconds e' = eng_mean_seconds e"
  using assms by (auto simp: submit_def mq_enqueue_def emit_def Let_def split: if_splits option.splits)

lemma mean_submit:
  assumes "mean_inv c e" and "eng_store e r = None" and "submit req r e = Inr e'"
  shows "mean_inv c e'"
  using assms(2) submit_store [OF assms(3)] by (intro mean_calm [OF assms(1)]) (auto split: if_splits)

lemma mean_cancel: "mean_inv c e \<Longrightarrow> mean_inv c (client_cancel r e)"
  by (rule mean_calm)
    (auto simp: client_cancel_def map_req_def upd_req_def qr_cancel_def served_in_def [abs_def] qr_model_def split: option.split)

lemma mean_shut:
  assumes "engine_inv e" and "mean_inv c e" and "stop_gathered e = Some e'"
  shows "mean_inv c e'"
proof -
  obtain qs' where "Some e' = Some (let e = e\<lparr>eng_in_flight := [],
        eng_store := shut_store (queued_ids (eng_queues e)) (eng_store e), eng_queues := qs'\<rparr> in
      (case eng_resident e of None \<Rightarrow> e\<lparr>eng_pc := Stopped\<rparr> | Some m \<Rightarrow> e\<lparr>eng_pc := StopWait m\<rparr>))"
    using stop_gathered_eq [OF assms(1) [unfolded engine_inv_def]] assms(3) by auto
  then have "eng_mean_seconds e' = eng_mean_seconds e" "eng_store e' = shut_store (queued_ids (eng_queues e)) (eng_store e)"
    by (auto simp: Let_def split: option.splits)
  then show ?thesis
    by (intro mean_queued [OF assms(1) [unfolded engine_inv_def] assms(2)]) (auto simp: shut_store_def)
qed

text \<open>A task that completes moves the average of its model towards the time it took.\<close>

definition average :: "seconds \<Rightarrow> seconds option \<Rightarrow> seconds" where
  "average d p = ewma_alpha * d + (1 - ewma_alpha) * (case p of Some x \<Rightarrow> x | None \<Rightarrow> d)"

lemma average_between:
  assumes "d \<in> D" and "\<And>x. p = Some x \<Longrightarrow> between x D"
  shows "between (average d p) D"
  unfolding average_def
  using assms by (intro between_convex) (auto simp: between_elem ewma_alpha_def split: option.split)

lemma serve_means:
  assumes q: "eng_store e r = Some q" "qr_started_at q = Some s" "s \<le> eng_now e"
  shows "\<exists>q'. eng_store (serve r out e) = (eng_store e)(r \<mapsto> q')
    \<and> (eng_mean_seconds (serve r out e) = eng_mean_seconds e
       \<or> served_in q' (qr_model q) (eng_now e - s)
         \<and> eng_mean_seconds (serve r out e)
           = (eng_mean_seconds e)(qr_model q \<mapsto> average (eng_now e - s) (eng_mean_seconds e (qr_model q))))"
proof -
  note defs = serve_def serve_end_def serve_finally_def map_req_def upd_req_def put_event_def emit_def
    observe_duration_def map_task_def Let_def served_in_def average_def qr_model_def
  show ?thesis
    using q by (cases out) (auto simp: defs max_def split: option.splits)
qed

lemma mean_serve:
  assumes "engine_inv e" and "fifo_inv e" and inv: "mean_inv c e" and "serve_enabled r out e"
  shows "mean_inv c (serve r out e)"
proof -
  note at = assms(1) [unfolded engine_inv_def]
  obtain q q0 fl where q: "eng_store e r = Some q" "qr_state q = RUNNING" by (rule serve_cases [OF at assms(4)])
  have "req_ok q" by (rule state_invD(1) [OF inv_atD(4) [OF at] q(1)])
  then obtain s where s: "qr_started_at q = Some s" using q(2) by (auto simp: req_ok_def)
  with assms(2) q(1) have "s \<le> eng_now e" by (simp add: fifo_inv_def past_inv_def)
  from serve_means [OF q(1) s this, of out] obtain q' where st: "eng_store (serve r out e) = (eng_store e)(r \<mapsto> q')"
    and cases: "eng_mean_seconds (serve r out e) = eng_mean_seconds e
       \<or> served_in q' (qr_model q) (eng_now e - s)
         \<and> eng_mean_seconds (serve r out e)
           = (eng_mean_seconds e)(qr_model q \<mapsto> average (eng_now e - s) (eng_mean_seconds e (qr_model q)))"
    by blast
  have mono: "experience c e n \<subseteq> experience c (serve r out e) n" for n
    using q st by (intro experience_mono) (auto split: if_splits)
  then have old: "between x (experience c (serve r out e) n)" if "eng_mean_seconds e n = Some x" for n x
    using inv that between_mono unfolding mean_inv_def by metis
  from cases show ?thesis
  proof
    assume "eng_mean_seconds (serve r out e) = eng_mean_seconds e"
    then show ?thesis using inv old unfolding mean_inv_def by simp
  next
    assume new: "served_in q' (qr_model q) (eng_now e - s)
         \<and> eng_mean_seconds (serve r out e)
           = (eng_mean_seconds e)(qr_model q \<mapsto> average (eng_now e - s) (eng_mean_seconds e (qr_model q)))"
    then have "eng_now e - s \<in> experience c (serve r out e) (qr_model q)"
      unfolding experience_def st by auto
    then have "between (average (eng_now e - s) (eng_mean_seconds e (qr_model q))) (experience c (serve r out e) (qr_model q))"
      using old by (rule average_between)
    then show ?thesis using inv old new unfolding mean_inv_def by simp
  qed
qed

subsection \<open>The whole run\<close>

interpretation mean: request_invariant "\<lambda>e. fifo_inv e \<and> mean_inv c e" for c
proof unfold_locales
  fix e e' :: engine
  assume "fifo_inv e \<and> mean_inv c e" "eng_store e' = eng_store e" "eng_queues e' = eng_queues e"
    "eng_now e' = eng_now e" "eng_mean_seconds e' = eng_mean_seconds e"
  then show "fifo_inv e' \<and> mean_inv c e'"
    using fifo.frame [of e e'] mean_calm [of c e e'] by auto
next
  fix e :: engine and d :: seconds
  assume "fifo_inv e \<and> mean_inv c e" "0 \<le> d"
  then show "fifo_inv (e\<lparr>eng_now := eng_now e + d\<rparr>) \<and> mean_inv c (e\<lparr>eng_now := eng_now e + d\<rparr>)"
    using fifo.elapse [of e d] mean_calm [of c e "e\<lparr>eng_now := eng_now e + d\<rparr>"] by auto
qed (auto intro: fifo.housekeep mean_housekeep fifo.dispatch mean_dispatch fifo.serve mean_serve fifo.submit mean_submit
    fifo.cancel mean_cancel fifo.shut mean_shut)

lemma mean_init: "mean_inv c (init_engine c t0)"
proof -
  let ?seeds = "map (\<lambda>m. (mc_name m, estimated_request_seconds m)) (ac_models c)"
  have "x \<in> experience c (init_engine c t0) n" if "map_of (rev ?seeds) n = Some x" for n x
    using map_of_SomeD [OF that] by (auto simp: experience_def)
  moreover have "map_of (rev ?seeds) (mc_name m) \<noteq> None" if "m \<in> set (ac_models c)" for m
  proof -
    have "mc_name m \<in> fst ` set (rev ?seeds)" using that by force
    then show ?thesis by (simp only: map_of_eq_None_iff simp_thms)
  qed
  ultimately show ?thesis using between_elem by (auto simp: mean_inv_def init_engine_def)
qed

lemma mean_reachable: "reachable c t0 e \<Longrightarrow> mean_inv c e"
  using mean.kept_reachable [of c t0 e c] fifo_init mean_init by blast

subsection \<open>Estimates\<close>

lemma gpu_wait_nonneg: "0 \<le> ms_estimated_load_seconds state \<Longrightarrow> 0 \<le> gpu_wait snap state now config"
  by (auto simp: gpu_wait_def Let_def max_def min_def split: option.split)

lemma estimate_at_least:
  assumes "estimate_wait snap m pos now config mean = Inr w" and "0 \<le> mean" and "0 < sc_max_concurrent_requests config"
    and "\<And>st. st \<in> set (ss_models snap) \<Longrightarrow> 0 \<le> ms_estimated_load_seconds st"
  shows "mean \<le> we_estimated_seconds w"
proof -
  from assms(1) obtain st where st: "by_name snap m = Some st"
    and w: "we_estimated_seconds w = gpu_wait snap st now config
      + of_int (int (requests_ahead st pos) div sc_max_concurrent_requests config) * mean + mean"
    using assms(3) by (auto simp: estimate_wait_def Let_def split: option.splits)
  have "0 \<le> gpu_wait snap st now config"
    using assms(4) by_name_SomeD [OF st] by (intro gpu_wait_nonneg) blast
  moreover have "0 \<le> (of_int (int (requests_ahead st pos) div sc_max_concurrent_requests config) :: rat)"
    using assms(3) by (simp add: pos_imp_zdiv_nonneg_iff)
  ultimately show ?thesis using assms(2) by (simp add: w)
qed

lemma load_estimate_nonneg:
  assumes "valid_app_config c" and "m \<in> set (ac_models c)"
  shows "0 \<le> estimated_load_seconds m"
proof -
  have "valid_model_config m" using assms by (simp add: valid_app_config_def)
  then show ?thesis
    by (simp add: valid_model_config_def check_vllm_params_def check_mock_params_def first_error_None
        estimated_load_seconds_def del: first_error.simps)
qed

text \<open>
  C23. What a client is told rests on what happened. At any time the average kept for a model lies within
  the range of the configured estimate and of the durations of its requests that were served; and the
  time a queued request is told to expect is never below the low end of that range.
\<close>

theorem estimates_stay_within_experience:
  assumes "reachable c t0 e" and "m \<in> set (ac_models c)" and "experience c e (mc_name m) \<subseteq> {lo..hi}"
  shows "(\<exists>x. eng_mean_seconds e (mc_name m) = Some x \<and> lo \<le> x \<and> x \<le> hi)
    \<and> (\<forall>r q w. 0 \<le> lo \<and> eng_store e r = Some q \<and> qr_model q = mc_name m \<and> engine_estimate_wait r e = Inr (Some w)
         \<longrightarrow> lo \<le> we_estimated_seconds w)"
proof -
  obtain x where x: "eng_mean_seconds e (mc_name m) = Some x" "between x (experience c e (mc_name m))"
    using mean_reachable [OF assms(1)] assms(2) unfolding mean_inv_def by blast
  then have range: "lo \<le> x" "x \<le> hi" using assms(3) unfolding between_def by blast+
  have c: "eng_config e = c" by (rule reachable_config [OF assms(1)])
  have valid: "valid_app_config c"
    using reachable_inv [OF assms(1)] c by (simp add: engine_inv_def inv_at_def)
  then have cap: "0 < sc_max_concurrent_requests (ac_scheduler c)"
    by (simp add: valid_app_config_def valid_scheduler_config_def)
  have "lo \<le> we_estimated_seconds w" if w: "0 \<le> lo" "eng_store e r = Some q" "qr_model q = mc_name m"
    "engine_estimate_wait r e = Inr (Some w)" for r q w
  proof -
    obtain pos snap where snap: "snapshot e = Some snap"
      and est: "estimate_wait snap (mc_name m) pos (eng_now e) (ac_scheduler c) x = Inr w"
      using w(2-4) x(1) c by (auto simp: engine_estimate_wait_def split: option.splits sum.splits)
    have "0 \<le> ms_estimated_load_seconds st" if "st \<in> set (ss_models snap)" for st
      using load_estimate_nonneg [OF valid] snapshot_states [OF snap that] c
      by (force simp: model_state_of_def Let_def bind_eq_Some_conv)
    from estimate_at_least [OF est _ cap this] range w(1) show ?thesis by simp
  qed
  then show ?thesis using x(1) range by blast
qed

theorem estimates_stay_within_experience_witness:
  "eng_mean_seconds (after [Arrive (req_for ''a'') ''1'']) ''a'' = Some (9 / 5)
   \<and> (\<exists>w. engine_estimate_wait ''1'' (after [Arrive (req_for ''a'') ''1'']) = Inr (Some w) \<and> 9 / 5 \<le> we_estimated_seconds w)"
proof -
  let ?e = "after [Arrive (req_for ''a'') ''1'']"
  let ?a = "(default_model_config ''a'')\<lparr>mc_served_model_name := ManyServedNames [''A'', ''AA'']\<rparr>"
  have a: "?a \<in> set (ac_models example_config)" "mc_name ?a = ''a''"
    by (simp_all add: example_config_def default_model_config_def)
  have "(case engine_estimate_wait ''1'' ?e of Inr (Some w) \<Rightarrow> True | _ \<Rightarrow> False)
      \<and> (case eng_store ?e ''1'' of Some q \<Rightarrow> qr_model q = ''a'' | None \<Rightarrow> False)
      \<and> map estimated_request_seconds (filter (\<lambda>m. mc_name m = ''a'') (ac_models example_config)) = [9 / 5]" by code_simp
  then obtain w q where w: "engine_estimate_wait ''1'' ?e = Inr (Some w)" and q: "eng_store ?e ''1'' = Some q" "qr_model q = ''a''"
    and seeds: "map estimated_request_seconds (filter (\<lambda>m. mc_name m = ''a'') (ac_models example_config)) = [9 / 5]"
    by (auto split: option.splits sum.splits)
  let ?start = "init_engine example_config 0"
  have "run [Arrive (req_for ''a'') ''1''] ?start \<noteq> None" by code_simp
  then have "run [Arrive (req_for ''a'') ''1''] ?start = Some ?e" by (auto simp: after_def simp del: run.simps)
  then have "submit (req_for ''a'') ''1'' ?start = Inr ?e" by (auto split: option.splits sum.splits if_splits)
  then have "eng_store ?e = [''1'' \<mapsto> new_queued_request (req_for ''a'') 0]"
    using submit_store(1) by (simp add: init_engine_def)
  then have "qr_state p = QUEUED" if "eng_store ?e r = Some p" for r p
    using that by (auto simp: new_queued_request_def split: if_splits)
  then have "experience example_config ?e ''a'' \<subseteq> {9 / 5..9 / 5}"
    using arg_cong [OF seeds, of set] by (fastforce simp: experience_def served_in_def)
  with estimates_stay_within_experience [OF after_reachable a(1), unfolded a(2)] w q show ?thesis by fastforce
qed

end
