(* ===== verification/Sir_Alive.thy ===== *)
theory Sir_Alive
  imports Sir_Engine_Liveness
begin

text \<open>
  Is the control loop alive? \<open>is_running\<close> of \<open>engine.py\<close> asks whether the task of the loop exists and
  is not done. The model's answer is the program counter, and only a start and a stop change it.
\<close>

definition is_running :: "engine \<Rightarrow> bool" where
  "is_running e \<longleftrightarrow> eng_pc e \<noteq> NotStarted \<and> eng_pc e \<noteq> LoopDone \<and> \<not> stopping (eng_pc e)"

text \<open>The flag \<open>_running\<close> says the same, so the loop never leaves its \<open>while\<close> by itself.\<close>

definition alive_inv :: "engine \<Rightarrow> bool" where
  "alive_inv e \<longleftrightarrow> eng_pc e \<noteq> LoopDone \<and> (eng_running e \<longleftrightarrow> is_running e)"

text \<open>\<open>lives e e'\<close>: the code from \<open>e\<close> to \<open>e'\<close> leaves the flag alone and ends at an await of the loop.\<close>

definition lives :: "engine \<Rightarrow> engine \<Rightarrow> bool" where
  "lives e e' \<longleftrightarrow> eng_running e' = eng_running e \<and> is_running e'"

lemma switch_begin_lives:
  assumes "switch_begin t e = Some e'"
  shows "lives e e'"
proof -
  have "is_running e'" using switch_begin_pc [OF assms] by (auto simp: is_running_def)
  moreover have "eng_running e' = eng_running e"
    using assms by (auto simp: switch_begin_def after_drain_def load_begin_def cancel_disconnected_def cancel_tasks_def
      emit_def Let_def split: if_splits option.splits)
  ultimately show ?thesis by (simp add: lives_def)
qed

lemma fold_dispatch_running: "eng_running (fold dispatch_one rs e) = eng_running e"
  by (induction rs arbitrary: e) (simp_all add: dispatch_one_def emit_def split: option.split)

lemma dispatch_running: "dispatch e = Some e' \<Longrightarrow> eng_running e' = eng_running e"
  by (auto simp: dispatch_def Let_def fold_dispatch_running bind_eq_Some_conv split: option.splits if_splits)

lemma loop_body_lives:
  assumes "inv_at LoopTop e" and "failed_fit e" and "loop_body e = Some e'"
  shows "lives e e'"
  using assms
proof (rule loop_body_cases)
  fix i snap d r
  assume r: "r = record_decision d ((housekeep e)\<lparr>eng_idle_since := i\<rparr>)"
    and cases: "(\<exists>t. dc_kind d = SWITCH \<and> dc_target d = Some t \<and> switch_begin t r = Some e')
     \<or> (dc_kind d \<in> {SERVE, HOLD} \<and> (\<exists>f. dispatch r = Some f
          \<and> e' = f\<lparr>eng_pc := TickWait (eng_now f + sc_tick_interval_seconds (sched f))\<rparr>))
     \<or> (dc_kind d = IDLE \<and> e' = r\<lparr>eng_pc := TickWait (eng_now e + sc_tick_interval_seconds (sched e))\<rparr>)"
  have "eng_running r = eng_running e" by (simp add: r record_decision_def)
  then show ?thesis
    using cases switch_begin_lives dispatch_running [of r] by (auto simp: lives_def is_running_def)
qed

lemma handle_failed_lives:
  assumes "inv_at LoopTop e" "failed_fit e" "length ms \<le> 1" "handle_failed ms e = Some e'"
  shows "lives e e'"
proof (cases ms)
  case Nil
  with assms loop_body_lives show ?thesis by simp
next
  case (Cons m ms')
  then have ms: "ms = [m]" using assms(3) by simp
  let ?e = "emit EV_CRASH m ''backend marked unavailable'' None (mark_unavailable m e)"
  have e: "inv_at LoopTop ?e" "failed_fit ?e" and f: "eng_running ?e = eng_running e"
    using assms(1,2) by (simp_all add: emit_def mark_unavailable_def)
  show ?thesis
  proof (cases "eng_resident ?e = Some m")
    case False
    then have "loop_body ?e = Some e'" using assms(4) ms by (simp add: Let_def)
    from loop_body_lives [OF e this] show ?thesis using f by (simp add: lives_def)
  next
    case True
    then show ?thesis
      using assms(4) ms f
      by (auto simp: Let_def crash_unload_def lives_def is_running_def cancel_tasks_def split: if_splits)
  qed
qed

lemma loop_top_lives:
  assumes "inv_at LoopTop e" and "eng_running e" and "loop_top e = Some e'"
  shows "lives e e'"
proof -
  let ?e = "e\<lparr>eng_wakeup := False, eng_failed := []\<rparr>"
  have "inv_at LoopTop ?e" "length (eng_failed e) \<le> 1" using assms(1) by (simp_all add: inv_at_def phase_inv_def)
  moreover have "handle_failed (eng_failed e) ?e = Some e'"
    using assms(2,3) by (simp add: loop_top_def handle_failures_def)
  ultimately show ?thesis using handle_failed_lives [of ?e "eng_failed e" e'] by (simp add: lives_def)
qed

lemma fail_stopped_lives:
  assumes inv: "inv_at (FailStop m ms) e" and "fail_stopped m ms e = Some e'"
  shows "lives e e'"
proof -
  note ph = inv_atD(5) [OF inv, unfolded phase_inv_def]
  let ?e = "emit EV_UNLOAD m ''after crash'' None (e\<lparr>eng_gpu := removeAll m (eng_gpu e)\<rparr>)"
  have i: "inv_at LoopTop ?e"
    using inv_at_cong [OF inv, of ?e LoopTop] ph by (simp add: emit_def phase_inv_def all_done_def)
  have "failed_fit ?e" "loop_body ?e = Some e'" using ph assms(2) by (simp_all add: emit_def fail_stopped_def)
  from loop_body_lives [OF i this] show ?thesis by (simp add: lives_def emit_def)
qed

lemma serve_running: "eng_running (serve r out e) = eng_running e"
  by (cases out) (simp_all add: serve_def serve_end_def serve_finally_def map_req_def map_task_def emit_def
      observe_duration_def Let_def split: option.split)

lemma serve_same_loop: "is_running (serve r out e) = is_running e" "eng_pc (serve r out e) = eng_pc e"
  by (simp_all add: is_running_def serve_pc)

lemma engine_step_alive:
  assumes "engine_step e e'" and "engine_inv e" and "alive_inv e"
  shows "alive_inv e' \<and> (is_running e \<longrightarrow> is_running e' \<or> e' = stop_begin e)"
  using assms
proof (induction rule: engine_step.induct)
  case (arrive e r req e')
  then have "eng_pc e' = eng_pc e" "eng_running e' = eng_running e"
    by (auto simp: submit_def Let_def emit_def split: option.splits if_splits)
  with arrive show ?case by (simp add: alive_inv_def is_running_def)
next
  case (task r out e)
  then show ?case by (simp add: alive_inv_def serve_same_loop serve_running)
next
  case (top e e')
  then have "eng_running e" "inv_at LoopTop e" by (simp_all add: alive_inv_def is_running_def engine_inv_def)
  with loop_top_lives [of e e'] top show ?case by (auto simp: lives_def alive_inv_def is_running_def)
next
  case (failed_gather e m ms e')
  then show ?case by (auto simp: fail_gathered_def crash_unload_def alive_inv_def is_running_def split: if_splits)
next
  case (failed_stop e m ms e')
  then have "lives e e'" using fail_stopped_lives [of m ms e e'] by (simp add: engine_inv_def)
  with failed_stop show ?case by (auto simp: lives_def alive_inv_def is_running_def)
next
  case (drained e t s e')
  then show ?case
    by (auto simp: drain_done_def after_drain_def load_begin_def emit_def Let_def alive_inv_def is_running_def
        split: if_splits option.splits)
next
  case (unloaded e t p e')
  then show ?case
    by (auto simp: unload_done_def load_begin_def emit_def Let_def alive_inv_def is_running_def split: if_splits)
next
  case (stop e)
  have "eng_running (cancel_loop x) = eng_running x" for x
    by (simp add: cancel_loop_def emit_def split: loop_pc.split)
  then show ?case by (simp add: stop_begin_def cancel_tasks_def alive_inv_def is_running_def)
next
  case (stop_gather e e')
  then show ?case
    by (auto simp: stop_gathered_def Let_def alive_inv_def is_running_def bind_eq_Some_conv split: option.splits if_splits)
qed (auto simp: alive_inv_def is_running_def client_cancel_def map_req_def start_engine_def load_ok_def load_failed_def
    load_fail_stopped_def mark_unavailable_def stop_finish_def emit_def Let_def)

lemma reachable_alive: "reachable c t0 e \<Longrightarrow> alive_inv e"
proof (induction rule: reachable.induct)
  case init
  then show ?case by (simp add: alive_inv_def is_running_def init_engine_def)
next
  case (step e e')
  then show ?case using engine_step_alive reachable_inv by blast
qed

lemma reachable_running: "reachable c t0 e \<Longrightarrow> is_running e \<Longrightarrow> eng_running e"
  using reachable_alive by (simp add: alive_inv_def)



end
