(* ===== verification/Sir_Swap.thy ===== *)
theory Sir_Swap
  imports Sir_Alive
begin

text \<open>
  What a swap is for: the requests of the model that was swapped in get served. First the policy
  (a resident model within its minimal residency keeps the GPU while nobody is overdue), then a
  pass of the loop, then the whole swap from the end of the drain.
\<close>

subsection \<open>The policy keeps a young resident\<close>

lemma find_by_key: "distinct (map f xs) \<Longrightarrow> x \<in> set xs \<Longrightarrow> List.find (\<lambda>y. f y = f x) xs = Some x"
  by (induction xs) (auto simp: image_iff)

lemma decide_keeps_resident:
  assumes "snapshot_ok snap" and "quiet snap" and "overdue snap now config = []"
    and R: "R \<in> set (ss_models snap)" "ss_resident snap = Some (ms_name R)"
    and "has_pending R" and "is_available R now"
    and young: "ms_resident_since R = Some s" "now - s < sc_min_residency_seconds config"
  shows "dc_kind (decide snap now config) \<in> {SERVE, HOLD}"
proof -
  have Rs: "R \<in> set (servable snap now)" using assms(6,7) R(1) by (simp add: servable_iff)
  then have "servable snap now \<noteq> []" by auto
  from decide_scored [OF assms(2,3) this] obtain best where
    best: "py_max (\<lambda>s. score_of (snapshot_scores snap now config) (ms_name s)) (servable snap now) = Some best"
    "best \<in> set (servable snap now)" by metis
  have work: "with_work snap \<noteq> []" using R(1) assms(6) by (auto simp: with_work_def filter_empty_conv)
  have "ms_name R \<noteq> []" using assms(1) R(2) by (simp add: snapshot_ok_def)
  then have res: "resident_state snap = Some R"
    using R(2) find_by_key [of ms_name "ss_models snap" R] R(1) assms(1)
    by (simp add: resident_state_def by_name_def snapshot_ok_def)
  have busy: "is_busy R" using assms(6) by (simp add: is_busy_def has_pending_def)
  show ?thesis
  proof (cases "ms_name best = ms_name R")
    case True
    then show ?thesis using assms(2,3,7) best(1) work res R(2) by (auto simp: decide_def Let_def)
  next
    case False
    then show ?thesis using assms(2,3,7) best(1) work res busy young by (auto simp: decide_def Let_def)
  qed
qed

subsection \<open>A pass that dispatches\<close>

text \<open>The loop has nobody overdue to make room for, and its resident model is young.\<close>

definition uncontended :: "engine \<Rightarrow> string \<Rightarrow> bool" where
  "uncontended e t \<longleftrightarrow>
     (\<forall>m \<in> set (names_of e). m \<noteq> t \<longrightarrow> \<not> overdue_at e m)
     \<and> (case eng_unavailable_until e t of None \<Rightarrow> True | Some u \<Rightarrow> u \<le> eng_now e)
     \<and> (case eng_resident_since e of None \<Rightarrow> False | Some s \<Rightarrow> eng_now e - s < sc_min_residency_seconds (sched e))"

lemma pass_serves:
  assumes inv: "inv_at LoopTop e" and fit: "failed_fit e" and res: "eng_resident e = Some t"
    and calm: "uncontended e t" and rs: "map_of (eng_queues e) t = Some rs" and work: "live (eng_store e) rs \<noteq> []"
    and idle: "eng_in_flight e = []"
  shows "\<exists>e'. loop_body e = Some e' \<and> eng_resident e' = Some t \<and> eng_gpu e' = [t]
    \<and> (\<forall>r \<in> set (take (nat (sc_max_concurrent_requests (sched e))) (live (eng_store e) rs)).
        \<exists>q. eng_store e' r = Some q \<and> qr_state q = RUNNING)"
proof -
  obtain e' where e': "loop_body e = Some e'" using loop_body_inv [OF inv fit] by blast
  show ?thesis
    using inv fit e'
  proof (rule loop_body_cases)
    fix i snap d r
    let ?h = "(housekeep e)\<lparr>eng_idle_since := i\<rparr>"
    assume snap: "snapshot ?h = Some snap" and d: "d = decide snap (eng_now e) (sched e)"
      and r: "r = record_decision d ?h" and ri: "inv_at LoopTop r"
      and cases: "(\<exists>t. dc_kind d = SWITCH \<and> dc_target d = Some t \<and> switch_begin t r = Some e')
       \<or> (dc_kind d \<in> {SERVE, HOLD} \<and> (\<exists>f. dispatch r = Some f
            \<and> e' = f\<lparr>eng_pc := TickWait (eng_now f + sc_tick_interval_seconds (sched f))\<rparr>))
       \<or> (dc_kind d = IDLE \<and> e' = r\<lparr>eng_pc := TickWait (eng_now e + sc_tick_interval_seconds (sched e))\<rparr>)"
    have h: "inv_at LoopTop ?h" using housekeep_inv [OF inv] by simp
    note s = pass_snapshot [OF inv snap]
    have sm: "\<And>m. m \<in> set (ac_models (eng_config e)) \<Longrightarrow> \<exists>ms \<in> set (ss_models snap). model_state_of ?h m = Some ms"
      using snapshot_Some [OF h] snap by auto
    have "ms \<notin> set (overdue snap (eng_now e) (sched e))" if "ms \<in> set (ss_models snap)" for ms
    proof -
      have "ms_name ms \<in> set (names_of e)" using s(3) that by (metis image_eqI list.set_map)
      with s(5) [OF that] res calm show ?thesis by (auto simp: uncontended_def)
    qed
    then have none: "overdue snap (eng_now e) (sched e) = []"
      by (metis list.set_intros(1) neq_Nil_conv overdue_iff servable_iff)
    have "t \<in> set (names_of e)" by (rule resident_known [OF inv res])
    then obtain m where m: "m \<in> set (ac_models (eng_config e))" "mc_name m = t" by (auto simp: model_names_def)
    from sm [OF m(1)] obtain R where R: "R \<in> set (ss_models snap)" "model_state_of ?h m = Some R" by blast
    note f = model_state_fields [OF R(2)]
    have R2: "ms_name R = t" "ms_resident_since R = eng_resident_since e"
      using R(2) m(2) res by (auto simp: model_state_of_def Let_def bind_eq_Some_conv)
    have q: "map_of (eng_queues (housekeep e)) t = Some (live (eng_store e) rs)"
      using housekeep_queues [of e t] rs by simp
    have live: "live (eng_store (housekeep e)) (live (eng_store e) rs) = live (eng_store e) rs"
      using housekeep_store(2) [of e] by (simp add: live_def)
    have "ms_depth R = length (live (eng_store e) rs)"
      using f(3) m(2) q live by (simp add: mq_depth_def count_live_eq)
    then have "has_pending R" using work by (simp add: has_pending_def)
    moreover have "is_available R (eng_now e)"
      using f(4) m(2) calm by (auto simp: uncontended_def is_available_def split: option.splits)
    moreover obtain u where "ms_resident_since R = Some u" "eng_now e - u < sc_min_residency_seconds (sched e)"
      using calm R2(2) by (auto simp: uncontended_def split: option.splits)
    ultimately have "dc_kind d \<in> {SERVE, HOLD}"
      unfolding d using decide_keeps_resident [OF s(1,4) none R(1)] s(2) res R2(1) by simp
    with cases obtain g where g: "dispatch r = Some g"
      "e' = g\<lparr>eng_pc := TickWait (eng_now g + sc_tick_interval_seconds (sched g))\<rparr>" by auto
    have rr: "eng_resident r = Some t" "map_of (eng_queues r) t = Some (live (eng_store e) rs)"
      "eng_in_flight r = []" "eng_config r = eng_config e" "eng_store r = eng_store (housekeep e)"
      using res q housekeep_idle [OF idle] by (simp_all add: r record_decision_def)
    let ?ts = "take (nat (sc_max_concurrent_requests (sched e))) (live (eng_store e) rs)"
    obtain ds rs' qs' evs where eq: "dispatch r = Some (r\<lparr>eng_store := taken_store (eng_now r) ?ts ds (eng_store r),
        eng_queues := qs', eng_events := evs, eng_in_flight := eng_in_flight r @ map new_task ?ts\<rparr>)"
      using dispatch_spec [OF ri rr(1,2)] live unfolding rr by auto
    have "\<exists>q. eng_store e' x = Some q \<and> qr_state q = RUNNING" if "x \<in> set ?ts" for x
    proof -
      have "x \<in> set rs" using that by (auto simp: live_def dest: in_set_takeD)
      have "x \<in> set (live (eng_store e) rs)" using that by (auto dest: in_set_takeD)
      then obtain q where "eng_store r x = Some q"
        using queue_invE [OF inv_atD(2) [OF ri] rr(2)] by metis
      then show ?thesis using g eq that by (auto simp: taken_store_def run_req_def)
    qed
    moreover have "eng_gpu r = [t]" using inv_atD(5) [OF ri] rr(1) by (simp add: phase_inv_def)
    ultimately show ?thesis using e' g eq rr(1) by auto
  qed
qed

subsection \<open>The whole swap\<close>

text \<open>From the end of the drain: unloading takes \<open>u\<close> seconds, loading \<open>l\<close>, then the loop comes round.\<close>

definition swap_run :: "seconds \<Rightarrow> seconds \<Rightarrow> move list" where
  "swap_run u l = [Resume, Pass u, Resume, Pass l, Resume, Resume]"

lemma swap_loads:
  assumes inv: "inv_at (DrainWait t s) e" and pc: "eng_pc e = DrainWait t s" and fin: "all_done e"
    and res: "eng_resident e = Some p" and "0 \<le> u" "0 \<le> l"
  shows "\<exists>e'. run [Resume, Pass u, Resume, Pass l, Resume] e = Some e' \<and> eng_pc e' = LoopTop
    \<and> eng_resident e' = Some t \<and> eng_resident_since e' = Some (eng_now e') \<and> eng_in_flight e' = []
    \<and> eng_now e' = eng_now e + u + l \<and> eng_config e' = eng_config e \<and> eng_store e' = eng_store e
    \<and> eng_queues e' = eng_queues e \<and> eng_unavailable_until e' = (eng_unavailable_until e)(t := None)
    \<and> eng_running e' = eng_running e \<and> eng_failed e' = eng_failed e \<and> eng_swaps e' = Suc (eng_swaps e)
    \<and> eng_loads e' = Suc (eng_loads e)"
proof -
  have b: "has_backend p e" "has_backend t e"
    using resident_known [OF inv res] inv_atD(5) [OF inv] by (simp_all add: has_backend_def phase_inv_def)
  define d where "d = emit EV_DRAIN_END (resident_or_dash e) [] (Some (eng_now e - s))
      (e\<lparr>eng_in_flight := [], eng_draining := False\<rparr>)"
  define a where "a = d\<lparr>eng_switching := True, eng_resident := None, eng_resident_since := None, eng_pc := UnloadWait t p\<rparr>"
  have a: "do_move Resume e = Some a"
    using pc fin b(1) res by (simp add: resume_def drain_done_def after_drain_def d_def a_def emit_def has_backend_def)
  define a2 where "a2 = a\<lparr>eng_now := eng_now a + u\<rparr>"
  define f where "f = (emit EV_LOAD_START t [] None
      ((emit EV_UNLOAD p [] None (a2\<lparr>eng_gpu := removeAll p (eng_gpu a2)\<rparr>))\<lparr>eng_swaps := eng_swaps a2 + 1\<rparr>))
      \<lparr>eng_gpu := List.insert t (removeAll p (eng_gpu a2)), eng_pc := LoadWait t (eng_now a2)\<rparr>"
  have f: "do_move Resume a2 = Some f"
    using b(2) by (simp add: resume_def unload_done_def load_begin_def has_backend_def a2_def a_def d_def f_def emit_def)
  define f2 where "f2 = f\<lparr>eng_now := eng_now f + l\<rparr>"
  have g: "do_move Resume f2 = Some (load_ok t (eng_now a2) f2)"
    by (simp add: resume_def f2_def f_def)
  have "run [Resume, Pass u, Resume, Pass l, Resume] e = Some (load_ok t (eng_now a2) f2)"
    using a f g assms(5,6) by (simp add: a2_def f2_def del: do_move.simps(6))
  then show ?thesis
    by (intro exI [of _ "load_ok t (eng_now a2) f2"])
      (simp add: load_ok_def f2_def f_def a2_def a_def d_def emit_def Let_def)
qed



end
