(* ===== verification/Sir_Json.thy ===== *)
theory Sir_Json
  imports Sir_Schemas
begin

text \<open>
  The JSON of Python's standard library, as far as the router writes and reads it: \<open>json.dumps\<close> with
  its default separators and escapes, which writes log lines and the error events of a stream, and
  \<open>json.loads\<close>, which reads the events of vLLM. Reading is split into an automaton that turns
  characters into tokens and one with a stack that turns tokens into a value; both go through their
  input once. Numbers with a fraction are exact rationals; the spellings of infinities and NaN that
  Python accepts, and escapes of code points from 256 on, which strings here do not have, are errors.
\<close>

subsection \<open>Writing\<close>

definition json_char :: "char \<Rightarrow> string" where
  "json_char c = (let n = of_char c :: nat in
     if c = CHR 0x22 \<or> c = CHR 0x5C then [CHR 0x5C, c]
     else if c = CHR 0x0A then [CHR 0x5C, CHR ''n''] else if c = CHR 0x0D then [CHR 0x5C, CHR ''r'']
     else if c = CHR 0x09 then [CHR 0x5C, CHR ''t''] else if c = CHR 0x08 then [CHR 0x5C, CHR ''b'']
     else if c = CHR 0x0C then [CHR 0x5C, CHR ''f'']
     else if 32 \<le> n \<and> n \<le> 126 then [c]
     else [CHR 0x5C, CHR ''u'', CHR ''0'', CHR ''0'', hex_digit (n div 16), hex_digit (n mod 16)])"

definition json_string :: "string \<Rightarrow> string" where
  "json_string s = CHR 0x22 # concat (map json_char s) @ [CHR 0x22]"

text \<open>
  \<open>repr\<close> of a float that is a multiple of 0.001, as \<open>round(x, 3)\<close> gives them: the digits after the
  point without trailing zeros, but at least one. (From \<open>1e16\<close> on Python changes to an exponent.)
\<close>

definition thousandths :: "nat \<Rightarrow> string" where
  "thousandths f =
     (if f mod 100 = 0 then [hex_digit (f div 100)]
      else if f mod 10 = 0 then [hex_digit (f div 100), hex_digit (f div 10 mod 10)]
      else [hex_digit (f div 100), hex_digit (f div 10 mod 10), hex_digit (f mod 10)])"

definition float_text :: "rat \<Rightarrow> string" where
  "float_text x =
     (let k = py_round (x * 1000); a = nat \<bar>k\<bar>
      in (if k < 0 then ''-'' else []) @ show_nat (a div 1000) @ CHR ''.'' # thousandths (a mod 1000))"

fun json_dumps :: "json \<Rightarrow> string" where
  "json_dumps JNull = ''null''"
| "json_dumps (JBool b) = (if b then ''true'' else ''false'')"
| "json_dumps (JInt n) = show_int n"
| "json_dumps (JFloat x) = float_text x"
| "json_dumps (JStr s) = json_string s"
| "json_dumps (JList vs) = CHR ''['' # py_join '', '' (map json_dumps vs) @ '']''"
| "json_dumps (JObj kvs) =
     CHR ''{'' # py_join '', '' (map (\<lambda>(k, v). json_string k @ '': '' @ json_dumps v) kvs) @ ''}''"

subsection \<open>Tokens\<close>

datatype json_token =
  TStr string | TInt int | TFloat rat | TNull | TBool bool | TOpen | TClose | TLeft | TRight | TComma | TColon

definition is_digit :: "char \<Rightarrow> bool" where
  "is_digit c \<longleftrightarrow> (let n = of_char c :: nat in 48 \<le> n \<and> n \<le> 57)"

definition number_value :: "string \<Rightarrow> nat" where
  "number_value ds = foldl (\<lambda>a c. 10 * a + (of_char c - 48)) 0 ds"

definition ten_to :: "int \<Rightarrow> rat" where
  "ten_to k = (if 0 \<le> k then 10 ^ nat k else 1 / 10 ^ nat (- k))"

fun read_exponent :: "string \<Rightarrow> int option" where
  "read_exponent [] = Some 0"
| "read_exponent (c # cs) =
     (if c \<noteq> CHR ''e'' \<and> c \<noteq> CHR ''E'' then None
      else let neg = cs \<noteq> [] \<and> hd cs = CHR ''-'';
               ds = (if cs \<noteq> [] \<and> (hd cs = CHR ''-'' \<or> hd cs = CHR ''+'') then tl cs else cs)
        in if ds = [] \<or> \<not> list_all is_digit ds then None
           else Some (if neg then - int (number_value ds) else int (number_value ds)))"

text \<open>Numbers: sign, digits without a leading zero, fraction and exponent; an int if neither of the last two is there.\<close>

definition with_sign :: "bool \<Rightarrow> 'a::uminus \<Rightarrow> 'a" where
  "with_sign neg x = (if neg then - x else x)"

definition unsigned_number :: "bool \<Rightarrow> string \<Rightarrow> json_token option" where
  "unsigned_number neg w =
     (let ip = takeWhile is_digit w; rest = dropWhile is_digit w;
          point = (rest \<noteq> [] \<and> hd rest = CHR ''.'');
          fr = (if point then takeWhile is_digit (tl rest) else []);
          ex = (if point then dropWhile is_digit (tl rest) else rest)
      in if ip = [] \<or> (hd ip = CHR ''0'' \<and> 1 < length ip) \<or> (point \<and> fr = []) then None
         else if rest = [] then Some (TInt (with_sign neg (int (number_value ip))))
         else map_option (\<lambda>k. TFloat (with_sign neg
                ((of_nat (number_value ip) + of_nat (number_value fr) / 10 ^ length fr) * ten_to k)))
              (read_exponent ex))"

definition number_token :: "string \<Rightarrow> json_token option" where
  "number_token w =
     (if w \<noteq> [] \<and> hd w = CHR ''-'' then unsigned_number True (tl w) else unsigned_number False w)"

definition word_token :: "string \<Rightarrow> json_token option" where
  "word_token w =
     (if w = ''null'' then Some TNull else if w = ''true'' then Some (TBool True)
      else if w = ''false'' then Some (TBool False) else None)"

text \<open>What the scanner is in: between tokens, in a string, after its backslash, in its \<open>\u\<close>, a number, a word.\<close>

datatype scan = Between | InString string | InEscape string | InHex string nat nat | InNumber string | InWord string

definition punct :: "char \<Rightarrow> json_token option" where
  "punct c =
     (if c = CHR ''{'' then Some TOpen else if c = CHR ''}'' then Some TClose
      else if c = CHR ''['' then Some TLeft else if c = CHR '']'' then Some TRight
      else if c = CHR '','' then Some TComma else if c = CHR '':'' then Some TColon else None)"

definition number_char :: "char \<Rightarrow> bool" where
  "number_char c \<longleftrightarrow> is_digit c \<or> c \<in> {CHR ''-'', CHR ''+'', CHR ''.'', CHR ''e'', CHR ''E''}"

definition is_letter :: "char \<Rightarrow> bool" where
  "is_letter c \<longleftrightarrow> (let n = of_char c :: nat in 97 \<le> n \<and> n \<le> 122)"

definition json_space :: "char \<Rightarrow> bool" where
  "json_space c \<longleftrightarrow> c \<in> {CHR '' '', CHR 0x09, CHR 0x0A, CHR 0x0D}"

definition start_token :: "char \<Rightarrow> (json_token list \<times> scan) option" where
  "start_token c =
     (if json_space c then Some ([], Between)
      else if c = CHR 0x22 then Some ([], InString [])
      else if is_digit c \<or> c = CHR ''-'' then Some ([], InNumber [c])
      else if is_letter c then Some ([], InWord [c])
      else map_option (\<lambda>t. ([t], Between)) (punct c))"

definition unescape :: "char \<Rightarrow> char option" where
  "unescape c =
     (if c \<in> {CHR 0x22, CHR 0x5C, CHR ''/''} then Some c
      else if c = CHR ''n'' then Some (CHR 0x0A) else if c = CHR ''r'' then Some (CHR 0x0D)
      else if c = CHR ''t'' then Some (CHR 0x09) else if c = CHR ''b'' then Some (CHR 0x08)
      else if c = CHR ''f'' then Some (CHR 0x0C) else None)"

definition hex_value :: "char \<Rightarrow> nat option" where
  "hex_value c = (let n = of_char c :: nat in
     if 48 \<le> n \<and> n \<le> 57 then Some (n - 48) else if 97 \<le> n \<and> n \<le> 102 then Some (n - 87)
     else if 65 \<le> n \<and> n \<le> 70 then Some (n - 55) else None)"

text \<open>A token that ends where another character follows, or the text.\<close>

fun end_token :: "scan \<Rightarrow> json_token list option" where
  "end_token Between = Some []"
| "end_token (InNumber w) = map_option (\<lambda>t. [t]) (number_token w)"
| "end_token (InWord w) = map_option (\<lambda>t. [t]) (word_token w)"
| "end_token _ = None"

definition then_start :: "json_token option \<Rightarrow> char \<Rightarrow> (json_token list \<times> scan) option" where
  "then_start t c =
     (case (t, start_token c) of (Some t, Some (ts, st)) \<Rightarrow> Some (t # ts, st) | _ \<Rightarrow> None)"

fun scan_char :: "scan \<Rightarrow> char \<Rightarrow> (json_token list \<times> scan) option" where
  "scan_char (InString s) c =
     (if c = CHR 0x22 then Some ([TStr s], Between)
      else if c = CHR 0x5C then Some ([], InEscape s)
      else if (of_char c :: nat) < 32 then None else Some ([], InString (s @ [c])))"
| "scan_char (InEscape s) c =
     (if c = CHR ''u'' then Some ([], InHex s 0 0)
      else map_option (\<lambda>x. ([], InString (s @ [x]))) (unescape c))"
| "scan_char (InHex s k n) c =
     (case hex_value c of
        None \<Rightarrow> None
      | Some v \<Rightarrow>
          if k < 3 then Some ([], InHex s (Suc k) (16 * n + v))
          else if 16 * n + v < 256 then Some ([], InString (s @ [char_of (16 * n + v)])) else None)"
| "scan_char (InNumber w) c =
     (if number_char c then Some ([], InNumber (w @ [c])) else then_start (number_token w) c)"
| "scan_char (InWord w) c =
     (if is_letter c then Some ([], InWord (w @ [c])) else then_start (word_token w) c)"
| "scan_char Between c = start_token c"

fun scan_all :: "scan \<Rightarrow> string \<Rightarrow> json_token list option" where
  "scan_all st [] = end_token st"
| "scan_all st (c # cs) =
     (case scan_char st c of
        None \<Rightarrow> None
      | Some (ts, st') \<Rightarrow> map_option (append ts) (scan_all st' cs))"

subsection \<open>Values\<close>

text \<open>An array or object that is open, and what may come next.\<close>

datatype frame = OpenList "json list" | OpenObj "(string \<times> json) list" string

datatype parsing =
  NeedValue "frame list" | NeedValueOrEnd "frame list" | NeedKeyOrEnd "frame list"
| NeedKey "(string \<times> json) list" "frame list" | NeedColon string "(string \<times> json) list" "frame list"
| AfterValue json "frame list"

fun value_of :: "json_token \<Rightarrow> frame list \<Rightarrow> parsing option" where
  "value_of (TStr s) fs = Some (AfterValue (JStr s) fs)"
| "value_of (TInt n) fs = Some (AfterValue (JInt n) fs)"
| "value_of (TFloat x) fs = Some (AfterValue (JFloat x) fs)"
| "value_of TNull fs = Some (AfterValue JNull fs)"
| "value_of (TBool b) fs = Some (AfterValue (JBool b) fs)"
| "value_of TLeft fs = Some (NeedValueOrEnd fs)"
| "value_of TOpen fs = Some (NeedKeyOrEnd fs)"
| "value_of _ fs = None"

text \<open>As in a dict, a repeated key keeps its place and takes the last value.\<close>

fun parse_token :: "parsing \<Rightarrow> json_token \<Rightarrow> parsing option" where
  "parse_token (NeedValue fs) t = value_of t fs"
| "parse_token (NeedValueOrEnd fs) t =
     (if t = TRight then Some (AfterValue (JList []) fs) else value_of t (OpenList [] # fs))"
| "parse_token (NeedKeyOrEnd fs) t =
     (case t of TClose \<Rightarrow> Some (AfterValue (JObj []) fs) | TStr k \<Rightarrow> Some (NeedColon k [] fs) | _ \<Rightarrow> None)"
| "parse_token (NeedKey kvs fs) t = (case t of TStr k \<Rightarrow> Some (NeedColon k kvs fs) | _ \<Rightarrow> None)"
| "parse_token (NeedColon k kvs fs) t = (if t = TColon then Some (NeedValue (OpenObj kvs k # fs)) else None)"
| "parse_token (AfterValue v (OpenList vs # fs)) t =
     (if t = TComma then Some (NeedValue (OpenList (vs @ [v]) # fs))
      else if t = TRight then Some (AfterValue (JList (vs @ [v])) fs) else None)"
| "parse_token (AfterValue v (OpenObj kvs k # fs)) t =
     (if t = TComma then Some (NeedKey (AList.update k v kvs) fs)
      else if t = TClose then Some (AfterValue (JObj (AList.update k v kvs)) fs) else None)"
| "parse_token (AfterValue v []) t = None"

fun parse_tokens :: "parsing \<Rightarrow> json_token list \<Rightarrow> json option" where
  "parse_tokens p [] = (case p of AfterValue v [] \<Rightarrow> Some v | _ \<Rightarrow> None)"
| "parse_tokens p (t # ts) = (case parse_token p t of None \<Rightarrow> None | Some p' \<Rightarrow> parse_tokens p' ts)"

definition json_loads :: "string \<Rightarrow> json option" where
  "json_loads s = Option.bind (scan_all Between s) (parse_tokens (NeedValue []))"

subsection \<open>Reading back what was written\<close>

definition milli :: "rat \<Rightarrow> bool" where
  "milli x \<longleftrightarrow> of_int (py_round (x * 1000)) = x * 1000"

fun json_plain :: "json \<Rightarrow> bool" where
  "json_plain (JFloat x) = milli x"
| "json_plain (JList vs) = list_all json_plain vs"
| "json_plain (JObj kvs) = (distinct (map fst kvs) \<and> list_all (\<lambda>(k, v). json_plain v) kvs)"
| "json_plain _ = True"

fun tokens_of :: "json \<Rightarrow> json_token list" where
  "tokens_of JNull = [TNull]"
| "tokens_of (JBool b) = [TBool b]"
| "tokens_of (JInt n) = [TInt n]"
| "tokens_of (JFloat x) = [TFloat x]"
| "tokens_of (JStr s) = [TStr s]"
| "tokens_of (JList []) = [TLeft, TRight]"
| "tokens_of (JList (v # vs)) = TLeft # tokens_of v @ concat (map (\<lambda>w. TComma # tokens_of w) vs) @ [TRight]"
| "tokens_of (JObj []) = [TOpen, TClose]"
| "tokens_of (JObj ((k, v) # kvs)) =
     TOpen # TStr k # TColon # tokens_of v
       @ concat (map (\<lambda>(k, v). TComma # TStr k # TColon # tokens_of v) kvs) @ [TClose]"

text \<open>The stack automaton.\<close>

lemma update_append_fresh: "k \<notin> fst ` set us \<Longrightarrow> AList.update k v us = us @ [(k, v)]"
  by (induction us) auto

lemma tokens_of_Cons: "\<exists>t ts. tokens_of j = t # ts \<and> t \<noteq> TRight"
  by (cases j rule: tokens_of.cases) auto

lemma parse_first:
  "parse_tokens (NeedValueOrEnd fs) (tokens_of j @ ts) = parse_tokens (NeedValue (OpenList [] # fs)) (tokens_of j @ ts)"
proof -
  obtain t us where "tokens_of j = t # us" "t \<noteq> TRight" using tokens_of_Cons by blast
  then show ?thesis by simp
qed

lemma parse_list:
  assumes "\<And>w fs ts. w \<in> set vs \<Longrightarrow> parse_tokens (NeedValue fs) (tokens_of w @ ts) = parse_tokens (AfterValue w fs) ts"
  shows "parse_tokens (AfterValue v (OpenList us # fs)) (concat (map (\<lambda>w. TComma # tokens_of w) vs) @ TRight # ts)
    = parse_tokens (AfterValue (JList (us @ v # vs)) fs) ts"
  using assms by (induction vs arbitrary: v us) simp_all

lemma parse_json_object:
  assumes "\<And>k w fs ts. (k, w) \<in> set kvs \<Longrightarrow> parse_tokens (NeedValue fs) (tokens_of w @ ts) = parse_tokens (AfterValue w fs) ts"
    and "distinct (map fst (us @ (k, v) # kvs))"
  shows "parse_tokens (AfterValue v (OpenObj us k # fs))
      (concat (map (\<lambda>(k, v). TComma # TStr k # TColon # tokens_of v) kvs) @ TClose # ts)
    = parse_tokens (AfterValue (JObj (us @ (k, v) # kvs)) fs) ts"
  using assms
proof (induction kvs arbitrary: k v us)
  case Nil
  then have "AList.update k v us = us @ [(k, v)]" by (simp add: update_append_fresh)
  then show ?case by simp
next
  case (Cons kv kvs)
  obtain k' v' where kv: "kv = (k', v')" by (cases kv)
  have "AList.update k v us = us @ [(k, v)]" using Cons.prems(2) by (simp add: update_append_fresh)
  moreover have "parse_tokens (NeedValue gs) (tokens_of v' @ us) = parse_tokens (AfterValue v' gs) us" for gs us
    using Cons.prems(1) [of k' v'] kv by simp
  moreover have "parse_tokens (AfterValue v' (OpenObj (us @ [(k, v)]) k' # fs))
      (concat (map (\<lambda>(k, v). TComma # TStr k # TColon # tokens_of v) kvs) @ TClose # ts)
    = parse_tokens (AfterValue (JObj ((us @ [(k, v)]) @ (k', v') # kvs)) fs) ts"
    using Cons.prems kv by (intro Cons.IH) auto
  ultimately show ?case using kv by simp
qed

lemma parse_back:
  "json_plain j \<Longrightarrow> parse_tokens (NeedValue fs) (tokens_of j @ ts) = parse_tokens (AfterValue j fs) ts"
proof (induction j arbitrary: fs ts rule: tokens_of.induct)
  case (7 v vs)
  then show ?case
    by (simp add: parse_first) (subst parse_list; simp add: list_all_iff)
next
  case (9 k v kvs)
  then show ?case
    by simp (subst parse_json_object; force simp add: list_all_iff)
qed simp_all

text \<open>The scanner.\<close>

lemma hex_back: "k < 16 \<Longrightarrow> hex_value (hex_digit k) = Some k"
  by (auto simp: hex_value_def hex_digit_def Let_def)

lemma append_tokens [simp]: "map_option ((@) []) x = x" "((@) (t # ts)) = (\<lambda>us. t # ts @ us)"
  by (cases x) auto

lemma scan_json_char: "scan_all (InString s) (json_char c @ r) = scan_all (InString (s @ [c])) r"
proof -
  let ?n = "of_char c :: nat"
  have "json_char c = [CHR 0x5C, CHR ''u'', CHR ''0'', CHR ''0'', hex_digit (?n div 16), hex_digit (?n mod 16)]"
    if "c \<notin> {CHR 0x22, CHR 0x5C, CHR 0x0A, CHR 0x0D, CHR 0x09, CHR 0x08, CHR 0x0C}" "\<not> (32 \<le> ?n \<and> ?n \<le> 126)"
    using that by (simp add: json_char_def Let_def)
  then consider (named) "c \<in> {CHR 0x22, CHR 0x5C, CHR 0x0A, CHR 0x0D, CHR 0x09, CHR 0x08, CHR 0x0C}"
    | (plain) "c \<noteq> CHR 0x22" "c \<noteq> CHR 0x5C" "32 \<le> ?n" "?n \<le> 126"
    | (hex) "json_char c = [CHR 0x5C, CHR ''u'', CHR ''0'', CHR ''0'', hex_digit (?n div 16), hex_digit (?n mod 16)]"
    by blast
  then show ?thesis
  proof cases
    case named
    have "scan_all (InString s) (json_char a @ r) = scan_all (InString (s @ [a])) r"
      if "json_char a = [CHR 0x5C, b]" "unescape b = Some a" "b \<noteq> CHR ''u''" for a b
      using that by simp
    then show ?thesis using named by (elim insertE emptyE) (simp_all add: json_char_def unescape_def)
  next
    case plain
    then have "json_char c = [c] \<or> c \<in> {CHR 0x0A, CHR 0x0D, CHR 0x09, CHR 0x08, CHR 0x0C}"
      by (simp add: json_char_def Let_def)
    then have "json_char c = [c]" using plain(3) by auto
    then show ?thesis using plain by simp
  next
    case hex
    have n: "?n < 256" by (rule nat_of_char_less_256)
    have "?n div 16 < 16" by (rule less_mult_imp_div_less) (use n in simp)
    then have "hex_value (hex_digit (?n div 16)) = Some (?n div 16)" by (rule hex_back)
    moreover have "hex_value (hex_digit (?n mod 16)) = Some (?n mod 16)" by (rule hex_back) simp
    moreover have "hex_value (CHR ''0'') = Some 0" by (simp add: hex_value_def)
    ultimately show ?thesis using n by (simp add: hex)
  qed
qed

lemma scan_string:
  "scan_all (InString s) (concat (map json_char t) @ CHR 0x22 # r) = map_option (Cons (TStr (s @ t))) (scan_all Between r)"
  by (induction t arbitrary: s) (simp_all add: scan_json_char)

lemma scan_json_string:
  "scan_all Between (json_string s @ r) = map_option (Cons (TStr s)) (scan_all Between r)"
  using scan_string [of "[]" s r] by (simp add: json_string_def start_token_def json_space_def)

text \<open>What follows a value: nothing, or one of the characters that go on or close.\<close>

definition delimited :: "string \<Rightarrow> bool" where
  "delimited r \<longleftrightarrow> r = [] \<or> hd r \<in> {CHR '','', CHR '']'', CHR ''}''}"

lemma delimiter_start:
  assumes "delimited (c # r)"
  shows "\<not> number_char c" "\<not> is_letter c" "start_token c = map_option (\<lambda>t. ([t], Between)) (punct c)" "punct c \<noteq> None"
  using assms by (auto simp: delimited_def number_char_def is_digit_def is_letter_def start_token_def json_space_def punct_def)

lemma scan_ends:
  assumes "delimited r" and "st \<in> range InNumber \<union> range InWord" and "end_token st = Some [t]"
  shows "scan_all st r = map_option (Cons t) (scan_all Between r)"
proof (cases r)
  case Nil
  with assms(3) show ?thesis by simp
next
  case (Cons c cs)
  note d = delimiter_start [OF assms(1) [unfolded Cons]]
  then obtain p where "punct c = Some p" by blast
  with d assms(2,3) show ?thesis
    unfolding Cons by (auto simp: then_start_def option.map_comp comp_def)
qed

lemma scan_number:
  assumes "delimited r" and "list_all number_char u" and "number_token (w @ u) = Some t"
  shows "scan_all (InNumber w) (u @ r) = map_option (Cons t) (scan_all Between r)"
  using assms(2,3)
proof (induction u arbitrary: w)
  case Nil
  then show ?case using scan_ends [OF assms(1), of "InNumber w"] by simp
next
  case (Cons c u)
  then show ?case by simp
qed

lemma scan_word:
  assumes "delimited r" and "list_all is_letter u" and "word_token (w @ u) = Some t"
  shows "scan_all (InWord w) (u @ r) = map_option (Cons t) (scan_all Between r)"
  using assms(2,3)
proof (induction u arbitrary: w)
  case Nil
  then show ?case using scan_ends [OF assms(1), of "InWord w"] by simp
next
  case (Cons c u)
  then show ?case by simp
qed

lemma scan_literal:
  assumes "delimited r"
  shows "scan_all Between (''null'' @ r) = map_option (Cons TNull) (scan_all Between r)"
    and "scan_all Between (''true'' @ r) = map_option (Cons (TBool True)) (scan_all Between r)"
    and "scan_all Between (''false'' @ r) = map_option (Cons (TBool False)) (scan_all Between r)"
  using scan_word [OF assms, of "''ull''" "''n''"] scan_word [OF assms, of "''rue''" "''t''"]
    scan_word [OF assms, of "''alse''" "''f''"]
  by (simp_all add: start_token_def json_space_def is_digit_def is_letter_def word_token_def)

lemma scan_numeral:
  assumes "delimited r" and "number_token w = Some t" and "list_all number_char w" and "w \<noteq> []"
    and "is_digit (hd w) \<or> hd w = CHR ''-''"
  shows "scan_all Between (w @ r) = map_option (Cons t) (scan_all Between r)"
proof -
  obtain c u where w: "w = c # u" using assms(4) by (cases w) auto
  have "start_token c = Some ([], InNumber [c])"
    using assms(5) w by (auto simp: start_token_def json_space_def is_digit_def)
  then show ?thesis using scan_number [OF assms(1), of u "[c]" t] assms(2,3) w by simp
qed

lemma digit_char: "k < 10 \<Longrightarrow> is_digit (char_of (48 + k :: nat))"
  by (simp add: is_digit_def Let_def)

lemma digit_show_nat: "list_all is_digit (show_nat n)"
proof (induction n rule: show_nat.induct)
  case (1 n)
  have "is_digit (char_of (48 + n mod 10))" by (rule digit_char) simp
  with 1 show ?case by (subst show_nat.simps) (simp add: digit_char)
qed

lemma show_nat_not_Nil [simp]: "show_nat n \<noteq> []"
  by (subst show_nat.simps) simp

lemma number_value_append: "number_value (ds @ [c]) = 10 * number_value ds + (of_char c - 48)"
  by (simp add: number_value_def)

lemma number_value_show: "number_value (show_nat n) = n"
proof (induction n rule: show_nat.induct)
  case (1 n)
  show ?case
  proof (cases "n < 10")
    case True
    then show ?thesis by (subst show_nat.simps) (simp add: number_value_def)
  next
    case False
    have "48 + n mod 10 < 256" by (rule order_less_le_trans [of _ 58]) simp_all
    with 1 False show ?thesis by (subst show_nat.simps) (simp add: number_value_append)
  qed
qed

lemma show_nat_zero: "hd (show_nat n) = CHR ''0'' \<Longrightarrow> show_nat n = ''0''"
proof (induction n rule: show_nat.induct)
  case (1 n)
  show ?case
  proof (cases "n < 10")
    case True
    then show ?thesis using "1.prems"
      by (subst show_nat.simps, subst (asm) show_nat.simps) simp
  next
    case False
    then have "show_nat n = show_nat (n div 10) @ [char_of (48 + n mod 10)]" by (subst show_nat.simps) simp
    moreover from this "1.prems" "1.IH" False have "show_nat (n div 10) = ''0''" by simp
    then have "n div 10 = 0" using number_value_show [of "n div 10"] by (simp add: number_value_def)
    ultimately show ?thesis using False by simp
  qed
qed

lemma take_digits:
  assumes "list_all is_digit ds" and "r = [] \<or> \<not> is_digit (hd r)"
  shows "takeWhile is_digit (ds @ r) = ds" and "dropWhile is_digit (ds @ r) = r"
proof -
  have "takeWhile is_digit r = []" "dropWhile is_digit r = r" using assms(2) by (cases r; simp)+
  with assms(1) show "takeWhile is_digit (ds @ r) = ds" "dropWhile is_digit (ds @ r) = r"
    by (induction ds) simp_all
qed

lemma minus_no_digit [simp]: "\<not> is_digit (CHR ''-'')" "\<not> is_digit (CHR ''.'')" 
  by (simp_all add: is_digit_def)

lemma hd_show_nat: "is_digit (hd (show_nat n))" "hd (show_nat n) \<noteq> CHR ''-''"
  using digit_show_nat [of n] by (cases "show_nat n"; auto)+

lemma unsigned_parts:
  shows "unsigned_number neg (show_nat n) = Some (TInt (with_sign neg (int n)))"
    and "list_all is_digit fr \<Longrightarrow> fr \<noteq> [] \<Longrightarrow> unsigned_number neg (show_nat n @ CHR ''.'' # fr)
      = Some (TFloat (with_sign neg (of_nat n + of_nat (number_value fr) / 10 ^ length fr)))"
proof -
  have lead: "\<not> (hd (show_nat n) = CHR ''0'' \<and> 1 < length (show_nat n))"
    using show_nat_zero [of n] by (metis One_nat_def length_Cons less_irrefl list.size(3))
  have ip: "takeWhile is_digit (show_nat n) = show_nat n" "dropWhile is_digit (show_nat n) = []"
    using take_digits [OF digit_show_nat [of n], of "[]"] by simp_all
  have ip': "takeWhile is_digit (show_nat n @ CHR ''.'' # fr) = show_nat n"
    "dropWhile is_digit (show_nat n @ CHR ''.'' # fr) = CHR ''.'' # fr"
    by (rule take_digits [OF digit_show_nat]; simp)+
  show "unsigned_number neg (show_nat n) = Some (TInt (with_sign neg (int n)))"
    unfolding unsigned_number_def Let_def ip using lead by (simp add: number_value_show)
  assume fr: "list_all is_digit fr" "fr \<noteq> []"
  have fr': "takeWhile is_digit fr = fr" "dropWhile is_digit fr = []"
    using take_digits [OF fr(1), of "[]"] by simp_all
  show "unsigned_number neg (show_nat n @ CHR ''.'' # fr)
      = Some (TFloat (with_sign neg (of_nat n + of_nat (number_value fr) / 10 ^ length fr)))"
    unfolding unsigned_number_def Let_def ip'
    using lead fr(2) by (simp add: number_value_show fr' ten_to_def)
qed

lemma number_of_int: "number_token (show_int n) = Some (TInt n)"
  using hd_show_nat by (simp add: number_token_def show_int_def unsigned_parts with_sign_def)

lemma thousandths_value:
  assumes "f < 1000"
  shows "list_all is_digit (thousandths f)" "thousandths f \<noteq> []"
    "of_nat (number_value (thousandths f)) / 10 ^ length (thousandths f) = (of_nat f / 1000 :: rat)"
proof -
  have d: "is_digit (hex_digit k)" "(of_char (hex_digit k) :: nat) = 48 + k" if "k < 10" for k
    using that by (simp_all add: hex_digit_def digit_char)
  have parts: "f div 100 < 10" "f div 10 mod 10 < 10" "f mod 10 < 10" using assms by auto
  have "f = 10 * (f div 10) + f mod 10" "f div 10 = 10 * (f div 10 div 10) + f div 10 mod 10" by simp_all
  then have f: "f = 100 * (f div 100) + 10 * (f div 10 mod 10) + f mod 10"
    unfolding div_mult2_eq [of f 10 10, simplified] by linarith
  show "list_all is_digit (thousandths f)" "thousandths f \<noteq> []" using parts by (simp_all add: thousandths_def d)
  have "f mod 100 = 0 \<Longrightarrow> f = 100 * (f div 100)" "f mod 10 = 0 \<Longrightarrow> f = 10 * (10 * (f div 100) + f div 10 mod 10)"
    using f by auto
  then have "number_value (thousandths f) * 1000 = f * 10 ^ length (thousandths f)"
    using parts f by (auto simp: thousandths_def number_value_def d)
  then have "(of_nat (number_value (thousandths f) * 1000) :: rat) = of_nat (f * 10 ^ length (thousandths f))" by simp
  then show "of_nat (number_value (thousandths f)) / 10 ^ length (thousandths f) = (of_nat f / 1000 :: rat)"
    by (simp add: field_simps)
qed

lemma number_of_float:
  assumes "milli x"
  shows "number_token (float_text x) = Some (TFloat x)"
proof -
  define k where "k = py_round (x * 1000)"
  define a where "a = nat \<bar>k\<bar>"
  have x: "x = of_int k / 1000" using assms by (simp add: milli_def k_def)
  have k: "of_int k = with_sign (k < 0) (of_nat a :: rat)" by (simp add: with_sign_def a_def)
  have a: "(of_nat a :: rat) = of_nat (a div 1000) * 1000 + of_nat (a mod 1000)"
    by (metis div_mult_mod_eq of_nat_add of_nat_mult of_nat_numeral)
  have "a mod 1000 < 1000" by simp
  note th = thousandths_value [OF this]
  have "number_token (float_text x) = unsigned_number (k < 0) (show_nat (a div 1000) @ CHR ''.'' # thousandths (a mod 1000))"
    using hd_show_nat(2) by (simp add: float_text_def k_def [symmetric] a_def [symmetric] Let_def number_token_def)
  also have "\<dots> = Some (TFloat (with_sign (k < 0) (of_nat (a div 1000) + of_nat (a mod 1000) / 1000)))"
    unfolding unsigned_parts(2) [OF th(1,2)] th(3) ..
  also have "with_sign (k < 0) (of_nat (a div 1000) + of_nat (a mod 1000) / 1000) = x"
    unfolding x k with_sign_def a by (simp add: field_simps)
  finally show ?thesis .
qed

lemma join_Cons: "py_join sep (x # xs) = x @ concat (map (\<lambda>y. sep @ y) xs)"
  by (induction xs arbitrary: x) simp_all

lemma scan_punct:
  assumes "punct c = Some p"
  shows "scan_all Between (c # r) = map_option (Cons p) (scan_all Between r)"
  using assms by (auto simp: start_token_def json_space_def punct_def is_digit_def is_letter_def split: if_splits)

lemma scan_puncts [simp]:
  "scan_all Between (CHR ''{'' # r) = map_option (Cons TOpen) (scan_all Between r)"
  "scan_all Between (CHR ''}'' # r) = map_option (Cons TClose) (scan_all Between r)"
  "scan_all Between (CHR ''['' # r) = map_option (Cons TLeft) (scan_all Between r)"
  "scan_all Between (CHR '']'' # r) = map_option (Cons TRight) (scan_all Between r)"
  "scan_all Between (CHR '','' # CHR '' '' # r) = map_option (Cons TComma) (scan_all Between r)"
  "scan_all Between (CHR '':'' # CHR '' '' # r) = map_option (Cons TColon) (scan_all Between r)"
proof -
  have sp: "scan_all Between (CHR '' '' # r) = scan_all Between r" by (simp add: start_token_def json_space_def)
  show "scan_all Between (CHR ''{'' # r) = map_option (Cons TOpen) (scan_all Between r)"
    "scan_all Between (CHR ''}'' # r) = map_option (Cons TClose) (scan_all Between r)"
    "scan_all Between (CHR ''['' # r) = map_option (Cons TLeft) (scan_all Between r)"
    "scan_all Between (CHR '']'' # r) = map_option (Cons TRight) (scan_all Between r)"
    by (rule scan_punct; simp add: punct_def)+
  have "scan_all Between (CHR '','' # CHR '' '' # r) = map_option (Cons TComma) (scan_all Between (CHR '' '' # r))"
    "scan_all Between (CHR '':'' # CHR '' '' # r) = map_option (Cons TColon) (scan_all Between (CHR '' '' # r))"
    by (rule scan_punct; simp add: punct_def)+
  then show "scan_all Between (CHR '','' # CHR '' '' # r) = map_option (Cons TComma) (scan_all Between r)"
    "scan_all Between (CHR '':'' # CHR '' '' # r) = map_option (Cons TColon) (scan_all Between r)"
    unfolding sp .
qed

lemma append_both: "map_option (append ts) (map_option (append us) x) = map_option (append (ts @ us)) x"
  by (cases x) simp_all

lemma cons_append: "map_option (Cons t) (map_option (append us) x) = map_option (append (t # us)) x"
  by (cases x) simp_all

definition scans :: "string \<Rightarrow> json_token list \<Rightarrow> bool" where
  "scans w ts \<longleftrightarrow> (\<forall>r. delimited r \<longrightarrow> scan_all Between (w @ r) = map_option (append ts) (scan_all Between r))"

declare scan_all.simps(2) [simp del]

lemma delimited_simps [simp]:
  "delimited []" "delimited (CHR '','' # r)" "delimited (CHR '']'' # r)" "delimited (CHR ''}'' # r)"
  by (simp_all add: delimited_def)

lemma scans_items:
  assumes "\<And>x. x \<in> set xs \<Longrightarrow> scans (f x) (g x)" and "delimited r"
  shows "delimited (concat (map (\<lambda>x. '', '' @ f x) xs) @ r)"
    and "scan_all Between (concat (map (\<lambda>x. '', '' @ f x) xs) @ r)
      = map_option (append (concat (map (\<lambda>x. TComma # g x) xs))) (scan_all Between r)"
proof -
  show d: "delimited (concat (map (\<lambda>x. '', '' @ f x) xs) @ r)" for xs using assms(2) by (cases xs) simp_all
  show "scan_all Between (concat (map (\<lambda>x. '', '' @ f x) xs) @ r)
      = map_option (append (concat (map (\<lambda>x. TComma # g x) xs))) (scan_all Between r)"
    using assms(1)
  proof (induction xs)
    case Nil
    show ?case by (simp add: option.map_ident)
  next
    case (Cons x xs)
    have "scan_all Between (f x @ concat (map (\<lambda>x. '', '' @ f x) xs) @ r)
        = map_option (append (g x)) (scan_all Between (concat (map (\<lambda>x. '', '' @ f x) xs) @ r))"
      using Cons.prems [of x] d [of xs] by (simp add: scans_def)
    also have "\<dots> = map_option (append (g x @ concat (map (\<lambda>x. TComma # g x) xs))) (scan_all Between r)"
      using Cons.IH Cons.prems append_both by simp
    finally show ?case by (simp add: option.map_comp comp_def)
  qed
qed

lemma digits_number: "list_all is_digit ds \<Longrightarrow> list_all number_char ds"
  by (induction ds) (simp_all add: number_char_def)

lemma scans_numbers:
  "scans (show_int n) [TInt n]"
  "milli x \<Longrightarrow> scans (float_text x) [TFloat x]"
proof -
  note nat = digits_number [OF digit_show_nat]
  have "list_all number_char (show_int n)" "show_int n \<noteq> []" "is_digit (hd (show_int n)) \<or> hd (show_int n) = CHR ''-''"
    using nat hd_show_nat by (simp_all add: show_int_def number_char_def)
  then show "scans (show_int n) [TInt n]"
    using scan_numeral [OF _ number_of_int] by (simp add: scans_def)
  assume x: "milli x"
  let ?f = "nat \<bar>py_round (x * 1000)\<bar> mod 1000"
  have "list_all number_char (thousandths ?f)" by (rule digits_number [OF thousandths_value(1)]) simp
  then have "list_all number_char (float_text x)" "float_text x \<noteq> []" "is_digit (hd (float_text x)) \<or> hd (float_text x) = CHR ''-''"
    using nat hd_show_nat by (simp_all add: float_text_def number_char_def Let_def)
  then show "scans (float_text x) [TFloat x]"
    using scan_numeral [OF _ number_of_float [OF x]] by (simp add: scans_def)
qed

lemma scans_list:
  assumes v: "scans (json_dumps v) (tokens_of v)" and vs: "\<And>w. w \<in> set vs \<Longrightarrow> scans (json_dumps w) (tokens_of w)"
  shows "scans (json_dumps (JList (v # vs))) (tokens_of (JList (v # vs)))"
  unfolding scans_def
proof (intro allI impI)
  fix r assume "delimited r"
  let ?items = "concat (map (\<lambda>w. '', '' @ json_dumps w) vs) @ CHR '']'' # r"
  note items = scans_items [of vs json_dumps tokens_of "CHR '']'' # r", OF vs delimited_simps(3)]
  have "scan_all Between (json_dumps (JList (v # vs)) @ r) = map_option (Cons TLeft) (scan_all Between (json_dumps v @ ?items))"
    by (simp add: join_Cons comp_def del: py_join.simps)
  also have "scan_all Between (json_dumps v @ ?items) = map_option (append (tokens_of v)) (scan_all Between ?items)"
    using v items(1) by (simp add: scans_def)
  also have "scan_all Between ?items = map_option (append (concat (map (\<lambda>w. TComma # tokens_of w) vs))) (scan_all Between (CHR '']'' # r))"
    by (rule items(2))
  finally show "scan_all Between (json_dumps (JList (v # vs)) @ r)
      = map_option (append (tokens_of (JList (v # vs)))) (scan_all Between r)"
    by (simp add: option.map_comp comp_def del: json_dumps.simps)
qed

lemma scans_object:
  assumes "scans (json_dumps v) (tokens_of v)" and "\<And>l w. (l, w) \<in> set kvs \<Longrightarrow> scans (json_dumps w) (tokens_of w)"
  shows "scans (json_dumps (JObj ((k, v) # kvs))) (tokens_of (JObj ((k, v) # kvs)))"
  unfolding scans_def
proof (intro allI impI)
  fix r assume "delimited r"
  let ?f = "\<lambda>(k, v). json_string k @ '': '' @ json_dumps v" and ?g = "\<lambda>(k, v). TStr k # TColon # tokens_of v"
  let ?items = "concat (map (\<lambda>x. '', '' @ ?f x) kvs) @ CHR ''}'' # r"
  have pair: "scans (?f (l, w)) (?g (l, w))" if "scans (json_dumps w) (tokens_of w)" for l w
    using that by (simp add: scans_def scan_json_string option.map_comp comp_def)
  then have "\<And>x. x \<in> set kvs \<Longrightarrow> scans (?f x) (?g x)" using assms(2) by fast
  note items = scans_items [of kvs ?f ?g "CHR ''}'' # r", OF this delimited_simps(4)]
  have "scan_all Between (json_dumps (JObj ((k, v) # kvs)) @ r) = map_option (Cons TOpen) (scan_all Between (?f (k, v) @ ?items))"
    by (simp add: join_Cons comp_def del: py_join.simps)
  also have "scan_all Between (?f (k, v) @ ?items) = map_option (append (?g (k, v))) (scan_all Between ?items)"
    using pair [OF assms(1)] items(1) unfolding scans_def by blast
  also have "scan_all Between ?items = map_option (append (concat (map (\<lambda>x. TComma # ?g x) kvs))) (scan_all Between (CHR ''}'' # r))"
    by (rule items(2))
  finally show "scan_all Between (json_dumps (JObj ((k, v) # kvs)) @ r)
      = map_option (append (tokens_of (JObj ((k, v) # kvs)))) (scan_all Between r)"
    by (simp add: option.map_comp comp_def case_prod_unfold del: json_dumps.simps)
qed

lemma scans_value: "json_plain j \<Longrightarrow> scans (json_dumps j) (tokens_of j)"
proof (induction j rule: tokens_of.induct)
  case (3 n)
  show ?case using scans_numbers(1) by simp
next
  case (4 x)
  then show ?case using scans_numbers(2) by simp
next
  case (7 v vs)
  then show ?case by (intro scans_list) (simp_all add: list_all_iff)
next
  case (9 k v kvs)
  then show ?case by (intro scans_object) (force simp: list_all_iff)+
qed (auto simp: scans_def scan_json_string option.map_comp comp_def scan_literal [simplified])

text \<open>What \<open>json.dumps\<close> writes, \<open>json.loads\<close> reads back, if no key is repeated and floats are rounded.\<close>

lemma json_reads_back: "json_plain j \<Longrightarrow> json_loads (json_dumps j) = Some j"
  using scans_value [of j, unfolded scans_def, THEN spec, of "[]"] parse_back [of j "[]" "[]"]
  by (simp add: json_loads_def)

lemma json_object_braces: "\<exists>mid. json_dumps (JObj kvs) = CHR ''{'' # mid @ ''}''"
  by simp

lemma milli_thousandth: "milli (of_int k / 1000)"
  by (simp add: milli_def py_round_def Let_def)

end
