(* ===== verification/Sir_Vllm.thy ===== *)
theory Sir_Vllm
  imports Sir_Config
begin

text \<open>
  The vLLM backend of \<open>src/src/sir/backends/vllm.py\<close>: its life cycle over the Docker API and the
  health endpoint, and the reading of a generation stream. HTTP is the library httpx: what an
  exchange yields is an argument (\<open>docker_answer\<close>, the probes of the health endpoint, the lines
  of a response), and so is \<open>loads\<close>, the JSON parser (\<open>None\<close> for a JSONDecodeError), and
  \<open>pstr\<close>, \<open>str\<close> on JSON values that are not strings. A chunk's text is a string here: a
  \<open>content\<close> of another type, which fails later in the code when the parts are joined, is a
  TypeError at once.
\<close>

subsection \<open>Health and lifecycle\<close>

text \<open>
  \<open>_await_health\<close>: \<open>probe k\<close> is the answer of the k-th health check and the time it took. The
  loop may not end, so the result is an option: whether the wanted health was seen, and when.
\<close>

partial_function (option) await_health ::
    "(nat \<Rightarrow> bool \<times> seconds) \<Rightarrow> bool \<Rightarrow> seconds \<Rightarrow> seconds \<Rightarrow> nat \<Rightarrow> seconds \<Rightarrow> (bool \<times> seconds) option" where
  "await_health probe want deadline poll k now =
     (let healthy = fst (probe k); now = now + snd (probe k) in
      if healthy = want then Some (True, now)
      else if deadline \<le> now then Some (False, now)
      else await_health probe want deadline poll (Suc k) (now + poll))"

datatype docker_answer = DockerDown string | DockerStatus int string

definition show_name :: "string option \<Rightarrow> string" where
  "show_name n = (case n of None \<Rightarrow> ''None'' | Some s \<Rightarrow> py_repr s)"

definition detail_of :: "string \<Rightarrow> string" where
  "detail_of body = take 400 (py_strip body)"

text \<open>\<open>_docker_post\<close>: the message of the BackendError, if it raises one.\<close>

definition docker_post :: "vllm_params \<Rightarrow> string \<Rightarrow> docker_answer \<Rightarrow> string option" where
  "docker_post p action answer =
     (case answer of
        DockerDown why \<Rightarrow>
          Some (''docker could not '' @ action @ '' '' @ show_name (vp_container_name p) @ '': '' @ why)
      | DockerStatus status body \<Rightarrow>
          if status \<in> {204, 304} then None
          else Some (''docker refused to '' @ action @ '' '' @ show_name (vp_container_name p)
                 @ '': HTTP '' @ show_int status @ '' '' @ detail_of body))"

text \<open>\<open>start\<close> at time \<open>now\<close>: the error it raises, or the time at which it returns.\<close>

definition vllm_start ::
    "string \<Rightarrow> vllm_params \<Rightarrow> docker_answer \<Rightarrow> (nat \<Rightarrow> bool \<times> seconds) \<Rightarrow> seconds \<Rightarrow> (string + seconds) option" where
  "vllm_start name p docker probe now =
     (case (if vp_manage_lifecycle p then docker_post p ''start'' docker else None) of
        Some err \<Rightarrow> Some (Inl err)
      | None \<Rightarrow>
          (case await_health probe True (now + vp_start_timeout_seconds p) (vp_ready_poll_seconds p) 0 now of
             None \<Rightarrow> None
           | Some (True, t) \<Rightarrow> Some (Inr t)
           | Some (False, t) \<Rightarrow> Some (Inl (''vllm for '' @ py_repr name @ '' did not become healthy within ''
                @ show_rounded (vp_start_timeout_seconds p) @ ''s''))))"

text \<open>\<open>stop\<close>: it swallows Docker's errors; the result is the time at which it returns.\<close>

definition vllm_stop ::
    "vllm_params \<Rightarrow> docker_answer \<Rightarrow> (nat \<Rightarrow> bool \<times> seconds) \<Rightarrow> seconds \<Rightarrow> seconds option" where
  "vllm_stop p docker probe now =
     (if \<not> vp_manage_lifecycle p then Some now
      else map_option snd
        (await_health probe False (now + vp_stop_timeout_seconds p) (vp_ready_poll_seconds p) 0 now))"

subsection \<open>The upstream request\<close>

text \<open>
  \<open>dict(value)\<close> for the truthy values of \<open>stream_options\<close>: an object, or a list of pairs with
  string keys; anything else raises.
\<close>

fun pair_of :: "json \<Rightarrow> py_error + string \<times> json" where
  "pair_of (JList [JStr k, v]) = Inr (k, v)"
| "pair_of (JStr [a, b]) = Inr ([a], JStr [b])"
| "pair_of (JObj [(k, v), (l, w)]) = Inr (k, JStr l)"
| "pair_of (JList vs) = Inl (ValueError ''dict'')"
| "pair_of (JStr s) = Inl (ValueError ''dict'')"
| "pair_of (JObj kvs) = Inl (ValueError ''dict'')"
| "pair_of v = Inl (TypeError ''dict'')"

fun pairs_of :: "json list \<Rightarrow> py_error + (string \<times> json) list" where
  "pairs_of [] = Inr []"
| "pairs_of (v # vs) =
     (case pair_of v of
        Inl err \<Rightarrow> Inl err
      | Inr p \<Rightarrow> (case pairs_of vs of Inl err \<Rightarrow> Inl err | Inr ps \<Rightarrow> Inr (p # ps)))"

fun dict_of :: "json \<Rightarrow> py_error + (string \<times> json) list" where
  "dict_of (JObj kvs) = Inr kvs"
| "dict_of (JList vs) = (case pairs_of vs of Inl err \<Rightarrow> Inl err
     | Inr ps \<Rightarrow> Inr (fold (\<lambda>(k, v). AList.update k v) ps []))"
| "dict_of (JStr s) = Inl (ValueError ''dict'')"
| "dict_of v = Inl (TypeError ''dict'')"

definition upstream_payload :: "generation_request \<Rightarrow> py_error + (string \<times> json) list" where
  "upstream_payload request =
     (let payload = AList.update ''stream'' (JBool True) (gr_payload request);
          options = payload_get payload ''stream_options''
      in case (if truthy options then dict_of options else Inr []) of
           Inl err \<Rightarrow> Inl err
         | Inr opts \<Rightarrow>
             Inr (AList.update ''stream_options'' (JObj (AList.update ''include_usage'' (JBool True) opts)) payload))"

definition base_url :: "vllm_params \<Rightarrow> string" where
  "base_url p = rev (dropWhile (\<lambda>c. c = CHR ''/'') (rev (vp_base_url p)))"

definition health_url :: "vllm_params \<Rightarrow> string" where
  "health_url p = base_url p @ vp_health_path p"

subsection \<open>Reading a stream\<close>

datatype sse_line = NoEvent | DoneMark | EventLine "(string \<times> json) list"

fun starts_with :: "string \<Rightarrow> string \<Rightarrow> bool" where
  "starts_with [] s = True"
| "starts_with (c # cs) [] = False"
| "starts_with (c # cs) (x # xs) = (c = x \<and> starts_with cs xs)"

definition parse_sse :: "(string \<Rightarrow> json option) \<Rightarrow> string \<Rightarrow> sse_line" where
  "parse_sse loads line =
     (let line = py_strip line in
      if line = [] \<or> starts_with '':'' line \<or> \<not> starts_with ''data:'' line then NoEvent
      else let data = py_strip (drop 5 line) in
        if data = ''[DONE]'' then DoneMark
        else case loads data of Some (JObj kvs) \<Rightarrow> EventLine kvs | _ \<Rightarrow> NoEvent)"

fun count_of :: "json \<Rightarrow> int option" where
  "count_of (JInt n) = Some n"
| "count_of (JBool b) = Some (if b then 1 else 0)"
| "count_of _ = None"

definition vllm_usage :: "json \<Rightarrow> usage option" where
  "vllm_usage raw =
     (case raw of
        JObj kvs \<Rightarrow>
          let counts = List.map_filter (\<lambda>key. map_option (Pair key) (count_of (payload_get kvs key)))
                [''prompt_tokens'', ''completion_tokens'', ''total_tokens'']
          in if counts = [] then None else Some counts
      | _ \<Rightarrow> None)"

text \<open>\<open>x[0]\<close> and \<open>x.get(k)\<close> on a JSON value.\<close>

fun first_item :: "json \<Rightarrow> py_error + json" where
  "first_item (JList (v # vs)) = Inr v"
| "first_item (JStr (c # cs)) = Inr (JStr [c])"
| "first_item (JList []) = Inl IndexError"
| "first_item (JStr []) = Inl IndexError"
| "first_item (JObj kvs) = Inl (KeyError ''0'')"
| "first_item v = Inl (TypeError ''subscript'')"

fun get_item :: "string \<Rightarrow> json \<Rightarrow> py_error + json" where
  "get_item k (JObj kvs) = Inr (payload_get kvs k)"
| "get_item k v = Inl (AttributeError ''get'')"

fun text_of :: "(json \<Rightarrow> string) \<Rightarrow> json \<Rightarrow> string" where
  "text_of pstr (JStr s) = s"
| "text_of pstr v = pstr v"

text \<open>The state of the loop over the lines, and what an event does to it: a chunk to yield, if any.\<close>

record stream_state =
  vs_index :: nat
  vs_finish_reason :: string
  vs_usage :: "usage option"

definition init_stream :: stream_state where
  "init_stream = \<lparr>vs_index = 0, vs_finish_reason = ''stop'', vs_usage = None\<rparr>"

fun content_of :: "json \<Rightarrow> py_error + string option" where
  "content_of (JStr s) = Inr (if s = [] then None else Some s)"
| "content_of v = (if truthy v then Inl (TypeError ''content'') else Inr None)"

definition read_choice ::
    "(json \<Rightarrow> string) \<Rightarrow> json \<Rightarrow> stream_state \<Rightarrow> py_error + (string \<times> nat) option \<times> stream_state" where
  "read_choice pstr choice s =
     (case get_item ''delta'' choice of
        Inl err \<Rightarrow> Inl err
      | Inr delta \<Rightarrow>
          (case (if truthy delta then get_item ''content'' delta else Inr JNull) of
             Inl err \<Rightarrow> Inl err
           | Inr content \<Rightarrow>
               (case content_of content of
                  Inl err \<Rightarrow> Inl err
                | Inr text \<Rightarrow>
                    let s' = (if text = None then s else s\<lparr>vs_index := Suc (vs_index s)\<rparr>) in
                    (case get_item ''finish_reason'' choice of
                       Inl err \<Rightarrow> Inl err
                     | Inr reason \<Rightarrow>
                         Inr (map_option (\<lambda>t. (t, vs_index s)) text,
                              if truthy reason then s'\<lparr>vs_finish_reason := text_of pstr reason\<rparr> else s')))))"

definition read_event ::
    "(json \<Rightarrow> string) \<Rightarrow> (string \<times> json) list \<Rightarrow> stream_state \<Rightarrow> py_error + (string \<times> nat) option \<times> stream_state" where
  "read_event pstr event s =
     (let choices = payload_get event ''choices''; usage = payload_get event ''usage'' in
      case (if \<not> truthy choices then Inr (None, s)
            else case first_item choices of Inl err \<Rightarrow> Inl err | Inr choice \<Rightarrow> read_choice pstr choice s) of
        Inl err \<Rightarrow> Inl err
      | Inr (chunk, s') \<Rightarrow>
          Inr (chunk, if truthy usage then s'\<lparr>vs_usage := vllm_usage usage\<rparr> else s'))"

text \<open>How the response ends: properly, or with an httpx error after the lines that arrived.\<close>

datatype transport_end = Complete | Broken string

datatype stream_end =
  EndsWith string "usage option"
| RaisesBackend string
| RaisesOther py_error

fun read_lines ::
    "string \<Rightarrow> (string \<Rightarrow> json option) \<Rightarrow> (json \<Rightarrow> string) \<Rightarrow> transport_end \<Rightarrow> string list \<Rightarrow> stream_state
     \<Rightarrow> (string \<times> nat) list \<times> stream_end" where
  "read_lines name loads pstr ending [] s =
     ([], case ending of
            Complete \<Rightarrow> EndsWith (vs_finish_reason s) (vs_usage s)
          | Broken why \<Rightarrow> RaisesBackend (''vllm stream for '' @ py_repr name @ '' failed: '' @ why))"
| "read_lines name loads pstr ending (line # lines) s =
     (case parse_sse loads line of
        NoEvent \<Rightarrow> read_lines name loads pstr ending lines s
      | DoneMark \<Rightarrow> ([], EndsWith (vs_finish_reason s) (vs_usage s))
      | EventLine event \<Rightarrow>
          (case read_event pstr event s of
             Inl err \<Rightarrow> ([], RaisesOther err)
           | Inr (chunk, s') \<Rightarrow>
               let (chunks, end) = read_lines name loads pstr ending lines s'
               in (case chunk of None \<Rightarrow> chunks | Some c \<Rightarrow> c # chunks, end)))"

text \<open>\<open>stream\<close>: what the engine's loop over it sees, chunk by chunk, and how it ends.\<close>

datatype http_answer = NoConnection string | HttpAnswer int string "string list" transport_end

definition vllm_stream ::
    "string \<Rightarrow> (string \<Rightarrow> json option) \<Rightarrow> (json \<Rightarrow> string) \<Rightarrow> generation_request \<Rightarrow> http_answer
     \<Rightarrow> (string \<times> nat) list \<times> stream_end" where
  "vllm_stream name loads pstr request answer =
     (case upstream_payload request of
        Inl err \<Rightarrow> ([], RaisesOther err)
      | Inr payload \<Rightarrow>
          (case answer of
             NoConnection why \<Rightarrow> ([], RaisesBackend (''vllm stream for '' @ py_repr name @ '' failed: '' @ why))
           | HttpAnswer status body lines ending \<Rightarrow>
               if status \<noteq> 200
               then ([], RaisesBackend (''vllm rejected generation for '' @ py_repr name @ '': HTTP ''
                      @ show_int status @ '' '' @ take 400 body))
               else read_lines name loads pstr ending lines init_stream))"

subsection \<open>The health wait ends\<close>

text \<open>When the k-th probe has answered.\<close>

fun probe_end :: "(nat \<Rightarrow> bool \<times> seconds) \<Rightarrow> seconds \<Rightarrow> seconds \<Rightarrow> nat \<Rightarrow> seconds" where
  "probe_end probe poll now 0 = now + snd (probe 0)"
| "probe_end probe poll now (Suc k) = probe_end probe poll now k + poll + snd (probe (Suc k))"

lemma probe_end_ge:
  assumes "0 < poll" and "\<forall>k. 0 \<le> snd (probe k)"
  shows "now + of_nat k * poll \<le> probe_end probe poll now k"
proof (induction k)
  case 0
  then show ?case using assms(2) by simp
next
  case (Suc k)
  moreover have "0 \<le> snd (probe (Suc k))" using assms(2) by blast
  ultimately show ?case by (simp add: algebra_simps)
qed

text \<open>The probe at which the wait stops.\<close>

definition last_probe :: "(nat \<Rightarrow> bool \<times> seconds) \<Rightarrow> bool \<Rightarrow> seconds \<Rightarrow> seconds \<Rightarrow> seconds \<Rightarrow> nat \<Rightarrow> bool" where
  "last_probe probe want deadline poll now n \<longleftrightarrow>
     (fst (probe n) = want \<or> deadline \<le> probe_end probe poll now n)
     \<and> (\<forall>i < n. fst (probe i) \<noteq> want \<and> probe_end probe poll now i < deadline)"

lemma last_probe_exists:
  assumes "0 < poll" and "\<forall>k. 0 \<le> snd (probe k)"
  shows "\<exists>n. last_probe probe want deadline poll now n"
proof -
  let ?stop = "\<lambda>n. fst (probe n) = want \<or> deadline \<le> probe_end probe poll now n"
  obtain m :: nat where "deadline - now < of_nat m * poll" using ex_less_of_nat_mult [OF assms(1)] by blast
  then have "?stop m" using probe_end_ge [OF assms, of now m] by simp
  then have "?stop (LEAST n. ?stop n)" "\<forall>i < (LEAST n. ?stop n). \<not> ?stop i"
    by (rule LeastI) (use not_less_Least in blast)
  then show ?thesis unfolding last_probe_def by (meson not_le)
qed

lemma await_health_from:
  assumes n: "last_probe probe want deadline poll now n" and "k \<le> n"
  shows "await_health probe want deadline poll k (probe_end probe poll now k - snd (probe k))
    = Some (fst (probe n) = want, probe_end probe poll now n)"
  using assms(2)
proof (induction "n - k" arbitrary: k)
  case 0
  then have "k = n" by simp
  with n show ?case by (subst await_health.simps) (auto simp: last_probe_def Let_def)
next
  case (Suc d)
  then have k: "k < n" by simp
  then have "fst (probe k) \<noteq> want" "probe_end probe poll now k < deadline" using n by (auto simp: last_probe_def Let_def)
  moreover have "await_health probe want deadline poll (Suc k)
      (probe_end probe poll now (Suc k) - snd (probe (Suc k))) = Some (fst (probe n) = want, probe_end probe poll now n)"
    by (rule Suc.hyps(1)) (use Suc.hyps(2) k in simp_all)
  ultimately show ?case by (subst await_health.simps) (simp add: Let_def not_le)
qed

lemma await_health_last:
  "last_probe probe want deadline poll now n \<Longrightarrow>
   await_health probe want deadline poll 0 now = Some (fst (probe n) = want, probe_end probe poll now n)"
  using await_health_from [of probe want deadline poll now n 0] by simp

lemma last_probe_bound:
  assumes n: "last_probe probe want (now + timeout) poll now n" and "0 \<le> timeout" and "0 < poll"
    and "\<forall>k. 0 \<le> snd (probe k) \<and> snd (probe k) \<le> c"
  shows "now \<le> probe_end probe poll now n" and "probe_end probe poll now n \<le> now + timeout + poll + c"
proof -
  show "now \<le> probe_end probe poll now n"
  proof -
    have "0 \<le> of_nat n * poll" using assms(3) by simp
    with probe_end_ge [of poll probe now n] assms(3,4) show ?thesis by (meson add_increasing2 order_trans le_add_same_cancel1)
  qed
  have c: "snd (probe n) \<le> c" using assms(4) by blast
  show "probe_end probe poll now n \<le> now + timeout + poll + c"
  proof (cases n)
    case 0
    with c assms(2,3) show ?thesis by simp
  next
    case (Suc m)
    then have "probe_end probe poll now m < now + timeout" using n by (simp add: last_probe_def)
    with c Suc show ?thesis by simp
  qed
qed



subsection \<open>The HTTP clients of a backend\<close>

text \<open>
  The constructor: a client is the one given or one of its own, here with its read and connect
  timeouts; Docker's is opened on its socket only for a backend that owns its container.
\<close>

datatype http_client = GivenClient | OpenedClient seconds seconds
datatype docker_client = GivenDocker | DockerSocket string seconds

record vllm_backend =
  vb_name :: string
  vb_params :: vllm_params
  vb_client :: http_client
  vb_docker :: "docker_client option"

definition make_vllm_backend :: "string \<Rightarrow> vllm_params \<Rightarrow> bool \<Rightarrow> bool \<Rightarrow> vllm_backend" where
  "make_vllm_backend name p client_given docker_given =
     \<lparr>vb_name = name, vb_params = p,
      vb_client = (if client_given then GivenClient
                   else OpenedClient (vp_stream_stall_seconds p) (vp_connect_timeout_seconds p)),
      vb_docker = (if docker_given then Some GivenDocker
                   else if vp_manage_lifecycle p
                   then Some (DockerSocket (vp_docker_socket p) (vp_stop_timeout_seconds p + 30))
                   else None)\<rparr>"

text \<open>\<open>aclose\<close>: the clients it closes, in order.\<close>

definition vllm_aclose :: "vllm_backend \<Rightarrow> http_client \<times> docker_client list" where
  "vllm_aclose b = (vb_client b, case vb_docker b of None \<Rightarrow> [] | Some d \<Rightarrow> [d])"

text \<open>\<open>health\<close>: what httpx yields for a probe, and what the wait makes of it.\<close>

datatype probe_answer = ProbeStatus int | ProbeError string

fun vllm_health :: "probe_answer \<Rightarrow> bool" where
  "vllm_health (ProbeStatus status) = (status = 200)"
| "vllm_health (ProbeError why) = False"

text \<open>\<open>start\<close> and \<open>stop\<close> reach for Docker only if they own the container, and then there is a client.\<close>

lemma managed_has_docker: "vp_manage_lifecycle p \<Longrightarrow> vb_docker (make_vllm_backend name p cg dg) \<noteq> None"
  by (simp add: make_vllm_backend_def)

text \<open>A server that never answers 200 is never reported as ready, whatever it does answer.\<close>

theorem unhealthy_server_never_starts:
  assumes "0 < vp_ready_poll_seconds p" and "\<forall>k. 0 \<le> snd (answers k)" and "\<forall>k. fst (answers k) \<noteq> ProbeStatus 200"
  shows "\<exists>err. vllm_start name p docker (\<lambda>k. (vllm_health (fst (answers k)), snd (answers k))) now = Some (Inl err)"
proof -
  let ?probe = "\<lambda>k. (vllm_health (fst (answers k)), snd (answers k))"
  have no: "\<not> vllm_health (fst (answers k))" for k
    using assms(3) by (cases "fst (answers k)") (metis vllm_health.simps)+
  have "\<forall>k. 0 \<le> snd (?probe k)" using assms(2) by simp
  from last_probe_exists [OF assms(1) this] obtain n where
    "last_probe ?probe True (now + vp_start_timeout_seconds p) (vp_ready_poll_seconds p) now n" by blast
  from await_health_last [OF this] no show ?thesis
    by (auto simp: vllm_start_def split: option.split)
qed

theorem unhealthy_server_never_starts_witness:
  "\<exists>err. vllm_start ''a'' default_vllm_params (DockerStatus 204 []) (\<lambda>k. (vllm_health (ProbeStatus 503), 0)) 0 = Some (Inl err)"
  using unhealthy_server_never_starts [of default_vllm_params "\<lambda>_. (ProbeStatus 503, 0)" "''a''" "DockerStatus 204 []" 0]
  by (simp add: default_vllm_params_def)

subsection \<open>Docker's requests\<close>

text \<open>
  \<open>urllib.parse.quote(s, safe="")\<close>: letters, digits and \<open>_.-~\<close> stay, every other character becomes
  the bytes of its UTF-8 encoding as \<open>%XX\<close>.
\<close>

definition url_safe :: "char \<Rightarrow> bool" where
  "url_safe c \<longleftrightarrow> (let n = of_char c :: nat in
     (48 \<le> n \<and> n \<le> 57) \<or> (65 \<le> n \<and> n \<le> 90) \<or> (97 \<le> n \<and> n \<le> 122) \<or> n \<in> {95, 46, 45, 126})"

definition upper_hex :: "nat \<Rightarrow> char" where
  "upper_hex n = char_of (if n < 10 then 48 + n else 55 + n)"

definition percent :: "nat \<Rightarrow> string" where
  "percent n = [CHR ''%'', upper_hex (n div 16), upper_hex (n mod 16)]"

definition quote_char :: "char \<Rightarrow> string" where
  "quote_char c = (let n = of_char c :: nat in
     if url_safe c then [c]
     else if n < 128 then percent n
     else percent (192 + n div 64) @ percent (128 + n mod 64))"

definition url_quote :: "string \<Rightarrow> string" where
  "url_quote s = concat (map quote_char s)"

text \<open>The path \<open>_docker_post\<close> posts to, and the parameters of the stop.\<close>

definition docker_path :: "vllm_params \<Rightarrow> string \<Rightarrow> string" where
  "docker_path p action =
     ''/containers/'' @ url_quote (case vp_container_name p of None \<Rightarrow> [] | Some s \<Rightarrow> s) @ ''/'' @ action"

definition stop_params :: "vllm_params \<Rightarrow> (string \<times> int) list" where
  "stop_params p = [(''t'', (if vp_stop_timeout_seconds p < 0 then \<lceil>vp_stop_timeout_seconds p\<rceil>
     else \<lfloor>vp_stop_timeout_seconds p\<rfloor>))]"

lemma upper_hex_nat: "n < 16 \<Longrightarrow> of_char (upper_hex n) = (if n < 10 then 48 + n else 55 + n :: nat)"
  by (simp add: upper_hex_def)

lemma upper_hex_safe: "n < 16 \<Longrightarrow> url_safe (upper_hex n)"
proof -
  assume n: "n < 16"
  show "url_safe (upper_hex n)"
    unfolding url_safe_def Let_def upper_hex_nat [OF n] using n by (cases "n < 10") simp_all
qed

lemma upper_hex_eq: "m < 16 \<Longrightarrow> n < 16 \<Longrightarrow> upper_hex m = upper_hex n \<longleftrightarrow> m = n"
proof
  assume "m < 16" "n < 16" "upper_hex m = upper_hex n"
  then have "(if m < 10 then 48 + m else 55 + m) = (if n < 10 then 48 + n else 55 + n)"
    using upper_hex_nat by metis
  then show "m = n" by (cases "m < 10"; cases "n < 10") simp_all
qed simp

lemma percent_set: "n < 256 \<Longrightarrow> x \<in> set (percent n) \<Longrightarrow> url_safe x \<or> x = CHR ''%''"
  using upper_hex_safe [of "n div 16"] upper_hex_safe [of "n mod 16"] less_mult_imp_div_less [of n 16 16]
  by (auto simp: percent_def)

lemma percent_eq:
  assumes "m < 256" and "n < 256"
  shows "percent m = percent n \<longleftrightarrow> m = n"
proof -
  have "m div 16 < 16" "n div 16 < 16" using assms by (simp_all add: less_mult_imp_div_less)
  then have "percent m = percent n \<longleftrightarrow> m div 16 = n div 16 \<and> m mod 16 = n mod 16"
    by (simp add: percent_def upper_hex_eq)
  then show ?thesis by (metis div_mult_mod_eq)
qed

lemma length_percent [simp]: "length (percent n) = 3"
  by (simp add: percent_def)

lemma char_nat_less: "of_char c < (256 :: nat)"
  by (metis of_char_of nat_of_char_less_256)

lemma quote_char_set: "x \<in> set (quote_char c) \<Longrightarrow> url_safe x \<or> x = CHR ''%''"
proof -
  let ?n = "of_char c :: nat"
  have "?n < 256" by (rule char_nat_less)
  then have "?n div 64 < 4" by (simp add: less_mult_imp_div_less)
  moreover have "?n mod 64 < 64" by simp
  ultimately have "192 + ?n div 64 < 256" "128 + ?n mod 64 < 256" by linarith+
  then show "x \<in> set (quote_char c) \<Longrightarrow> url_safe x \<or> x = CHR ''%''"
    using percent_set [of ?n x] percent_set [of "192 + ?n div 64" x] percent_set [of "128 + ?n mod 64" x] \<open>?n < 256\<close>
    by (auto simp: quote_char_def Let_def split: if_splits)
qed

text \<open>The code is prefix-free, so quoting loses nothing.\<close>

lemma quote_char_prefix:
  assumes "quote_char c @ xs = quote_char d @ ys"
  shows "c = d \<and> xs = ys"
proof -
  let ?m = "of_char c :: nat" and ?n = "of_char d :: nat"
  have m: "?m < 256" "?m div 64 < 4" "?m mod 64 < 64" and n: "?n < 256" "?n div 64 < 4" "?n mod 64 < 64"
    using char_nat_less [of c] char_nat_less [of d] by (simp_all add: less_mult_imp_div_less)
  have split: "\<exists>b bs. quote_char e = percent b @ bs \<and> b = (if of_char e < (128::nat) then of_char e else 192 + of_char e div 64)
      \<and> b < 256 \<and> bs = (if of_char e < (128::nat) then [] else percent (128 + of_char e mod 64))"
    if "\<not> url_safe e" for e
    using that char_nat_less [of e] less_mult_imp_div_less [of "of_char e" 4 64]
    by (cases "of_char e < (128::nat)") (simp_all add: quote_char_def Let_def)
  have safe: "quote_char e = [e]" "e \<noteq> CHR ''%''" if "url_safe e" for e
    using that by (auto simp: quote_char_def Let_def url_safe_def)
  consider "url_safe c" "url_safe d" | "url_safe c" "\<not> url_safe d" | "\<not> url_safe c" "url_safe d"
    | "\<not> url_safe c" "\<not> url_safe d" by blast
  then show ?thesis
  proof cases
    case 1
    then show ?thesis using assms safe by simp
  next
    case 2
    then show ?thesis using assms safe [of c] split [of d] by (auto simp: percent_def)
  next
    case 3
    then show ?thesis using assms safe [of d] split [of c] by (auto simp: percent_def)
  next
    case 4
    obtain b bs where b: "quote_char c = percent b @ bs" "b = (if ?m < 128 then ?m else 192 + ?m div 64)" "b < 256"
      "bs = (if ?m < 128 then [] else percent (128 + ?m mod 64))" using split [OF 4(1)] by blast
    obtain b' bs' where b': "quote_char d = percent b' @ bs'" "b' = (if ?n < 128 then ?n else 192 + ?n div 64)" "b' < 256"
      "bs' = (if ?n < 128 then [] else percent (128 + ?n mod 64))" using split [OF 4(2)] by blast
    have "percent b = percent b'" and rest: "bs @ xs = bs' @ ys"
      using assms b(1) b'(1) by (simp_all add: append_eq_append_conv)
    then have eq: "b = b'" using percent_eq b(3) b'(3) by blast
    then have half: "?m < 128 \<longleftrightarrow> ?n < 128" using b(2) b'(2) by (auto split: if_splits)
    have "?m = ?n \<and> xs = ys"
    proof (cases "?m < 128")
      case True
      then show ?thesis using half eq b b' rest by simp
    next
      case False
      then have "?m div 64 = ?n div 64" using half eq b(2) b'(2) by simp
      moreover have "percent (128 + ?m mod 64) @ xs = percent (128 + ?n mod 64) @ ys"
        using False half b(4) b'(4) rest by simp
      then have "percent (128 + ?m mod 64) = percent (128 + ?n mod 64)" "xs = ys"
        by (simp_all add: append_eq_append_conv)
      moreover have "?m mod 64 = ?n mod 64" using calculation(2) percent_eq m n by simp
      ultimately show ?thesis by (metis div_mult_mod_eq)
    qed
    then show ?thesis by (metis char_of_char)
  qed
qed

lemma quote_char_nonempty: "quote_char c \<noteq> []"
  by (simp add: quote_char_def Let_def percent_def)

lemma url_quote_inject: "url_quote s = url_quote t \<longleftrightarrow> s = t"
proof
  show "url_quote s = url_quote t \<Longrightarrow> s = t"
  proof (induction s arbitrary: t)
    case Nil
    then show ?case using quote_char_nonempty by (cases t) (auto simp: url_quote_def)
  next
    case (Cons c s)
    then obtain d t' where t: "t = d # t'"
      using quote_char_nonempty by (cases t) (auto simp: url_quote_def)
    have "quote_char c @ url_quote s = quote_char d @ url_quote t'" using Cons.prems t by (simp add: url_quote_def)
    from quote_char_prefix [OF this] Cons.IH t show ?case by simp
  qed
qed simp


text \<open>
  What \<open>stop\<close> cannot tell: if Docker is unreachable and the server goes on answering, the wait times
  out and \<open>stop\<close> returns all the same, and the engine goes on to load the next model.
\<close>

theorem stop_returns_over_a_live_server:
  assumes "vp_manage_lifecycle p" and "0 < vp_ready_poll_seconds p" and "0 \<le> vp_stop_timeout_seconds p"
    and "\<forall>k. fst (probe k) \<and> 0 \<le> snd (probe k)"
  shows "\<exists>t. vllm_stop p (DockerDown why) probe now = Some t \<and> now + vp_stop_timeout_seconds p \<le> t"
proof -
  have pos: "\<forall>k. 0 \<le> snd (probe k)" using assms(4) by blast
  obtain n where n: "last_probe probe False (now + vp_stop_timeout_seconds p) (vp_ready_poll_seconds p) now n"
    using last_probe_exists [OF assms(2) pos] by blast
  from await_health_last [OF n] n assms(1,4) show ?thesis by (auto simp: vllm_stop_def last_probe_def)
qed

theorem stop_returns_over_a_live_server_witness:
  "\<exists>t. vllm_stop (default_vllm_params\<lparr>vp_manage_lifecycle := True\<rparr>) (DockerDown ''refused'') (\<lambda>_. (True, 0)) 0 = Some t
     \<and> 0 + vp_stop_timeout_seconds default_vllm_params \<le> t"
  using stop_returns_over_a_live_server [of "default_vllm_params\<lparr>vp_manage_lifecycle := True\<rparr>" "\<lambda>_. (True, 0)" "''refused''" 0]
  by (simp add: default_vllm_params_def)

end
