(* ===== verification/Sir_Stream.thy ===== *)
theory Sir_Stream
  imports Sir_App Sir_Vllm Sir_Json
begin

text \<open>
  The path of one request through the parts: the client's body to the upstream request of a vLLM
  backend, the backend's response through the engine's pump to the client's channel, and the
  stream the router writes read back by a backend of another router.
\<close>

subsection \<open>The body\<close>



subsection \<open>Through the pump\<close>

text \<open>What \<open>_serve\<close> sees of a backend's stream: the chunks, and how it ended.\<close>

fun end_outcome :: "stream_end \<Rightarrow> serve_outcome" where
  "end_outcome (EndsWith reason u) = YieldEnd reason u"
| "end_outcome (RaisesBackend msg) = RaiseBackend msg"
| "end_outcome (RaisesOther err) = RaiseOther [] []"

definition outcomes :: "(string \<times> nat) list \<times> stream_end \<Rightarrow> serve_outcome list" where
  "outcomes s = map (\<lambda>(t, i). YieldChunk t i) (fst s) @ [end_outcome (snd s)]"

definition serve_all :: "rid \<Rightarrow> serve_outcome list \<Rightarrow> engine \<Rightarrow> engine" where
  "serve_all r outs e = fold (serve r) outs e"

fun terminator :: "stream_end \<Rightarrow> stream_event" where
  "terminator (EndsWith reason u) = StreamEnd reason u"
| "terminator (RaisesBackend msg) = StreamError msg 503"
| "terminator (RaisesOther err) = StreamError ''internal error: '' 500"

lemma serve_chunks:
  assumes "eng_store e r = Some q" and "\<not> qr_cancelled q"
  shows "fold (serve r) (map (\<lambda>(t, i). YieldChunk t i) cs) e =
    e\<lparr>eng_store := (eng_store e)(r \<mapsto> q\<lparr>qr_events := qr_events q @ map chunk_event cs\<rparr>)\<rparr>"
  using assms
proof (induction cs arbitrary: e q)
  case Nil
  then show ?case by (simp add: fun_upd_idem)
next
  case (Cons c cs)
  obtain t i where c: "c = (t, i)" by (cases c)
  let ?q = "put_event (Chunk t i) q"
  have s: "serve r (YieldChunk t i) e = e\<lparr>eng_store := (eng_store e)(r \<mapsto> ?q)\<rparr>"
    using Cons.prems by (simp add: serve_def map_req_def upd_req_def)
  have nc: "\<not> qr_cancelled ?q" using Cons.prems(2) by (simp add: put_event_def)
  have p: "eng_store (e\<lparr>eng_store := (eng_store e)(r \<mapsto> ?q)\<rparr>) r = Some ?q" by simp
  from Cons.IH [OF p nc] have "fold (serve r) (map (\<lambda>(t, i). YieldChunk t i) cs) (e\<lparr>eng_store := (eng_store e)(r \<mapsto> ?q)\<rparr>) =
      e\<lparr>eng_store := (eng_store e)(r \<mapsto> ?q\<lparr>qr_events := qr_events ?q @ map chunk_event cs\<rparr>)\<rparr>"
    by (simp del: fun_upd_apply)
  moreover have "?q\<lparr>qr_events := qr_events ?q @ map chunk_event cs\<rparr> = q\<lparr>qr_events := qr_events q @ map chunk_event (c # cs)\<rparr>"
    by (simp add: put_event_def c chunk_event_def)
  ultimately show ?case by (simp add: c s fun_upd_def)
qed

lemma observe_store [simp]: "eng_store (observe_duration r e) = eng_store e"
  "eng_failed (observe_duration r e) = eng_failed e"
  by (simp_all add: observe_duration_def Let_def split: option.split)

lemma serve_finally_store:
  "eng_store (serve_finally r e) = eng_store (map_req r (\<lambda>q. q\<lparr>qr_finished_at := Some (eng_now e)\<rparr>) e)"
  "eng_failed (serve_finally r e) = eng_failed e"
  by (simp_all add: serve_finally_def map_task_def map_req_def)

lemma stream_pumped:
  assumes "eng_store e r = Some q" and "\<not> qr_cancelled q"
  shows "\<exists>q'. eng_store (serve_all r (outcomes (cs, ending)) e) r = Some q'
    \<and> qr_events q' = qr_events q @ map chunk_event cs @ [terminator ending]
    \<and> qr_state q' = (case ending of EndsWith _ _ \<Rightarrow> DONE | _ \<Rightarrow> FAILED)
    \<and> qr_finished_at q' = Some (eng_now e)
    \<and> set (eng_failed (serve_all r (outcomes (cs, ending)) e)) =
        set (eng_failed e) \<union> (case ending of RaisesBackend _ \<Rightarrow> {qr_model q} | _ \<Rightarrow> {})"
proof -
  let ?q = "q\<lparr>qr_events := qr_events q @ map chunk_event cs\<rparr>"
  let ?e = "e\<lparr>eng_store := (eng_store e)(r \<mapsto> ?q)\<rparr>"
  have all: "serve_all r (outcomes (cs, ending)) e = serve r (end_outcome ending) ?e"
    using serve_chunks [OF assms(1,2), of cs] by (simp add: serve_all_def outcomes_def)
  show ?thesis
    using assms(2) unfolding all
    by (cases ending) (simp_all add: serve_def serve_end_def serve_finally_store map_req_def upd_req_def
        put_event_def emit_def qr_model_def)
qed

text \<open>
  From the backend's socket to the client's channel: for a request whose client is there, the
  pump puts exactly the chunks the backend's stream yields, in order, and then one terminator that
  says how the stream ended; the model is reported as crashed exactly when the backend raised.
\<close>

theorem stream_reaches_the_client:
  assumes "eng_store e r = Some q" and "\<not> qr_cancelled q"
  shows "\<exists>q'. eng_store (serve_all r (outcomes (cs, ending)) e) r = Some q'
    \<and> qr_events q' = qr_events q @ map chunk_event cs @ [terminator ending]
    \<and> qr_state q' = (case ending of EndsWith _ _ \<Rightarrow> DONE | _ \<Rightarrow> FAILED)
    \<and> qr_finished_at q' = Some (eng_now e)
    \<and> set (eng_failed (serve_all r (outcomes (cs, ending)) e)) =
        set (eng_failed e) \<union> (case ending of RaisesBackend _ \<Rightarrow> {qr_model q} | _ \<Rightarrow> {})"
  by (rule stream_pumped [OF assms])

theorem stream_reaches_the_client_witness:
  "\<exists>q'. eng_store (serve_all ''1'' [YieldChunk ''hi'' 0, RaiseBackend ''gone''] (after serving_run)) ''1'' = Some q'
     \<and> qr_events q' = [Chunk ''hi'' 0, StreamError ''gone'' 503]"
proof -
  have "(case eng_store (after serving_run) ''1'' of Some q \<Rightarrow> \<not> qr_cancelled q \<and> qr_events q = [] | None \<Rightarrow> False)"
    by code_simp
  then obtain q where q: "eng_store (after serving_run) ''1'' = Some q" "\<not> qr_cancelled q" "qr_events q = []"
    by (auto split: option.splits)
  from stream_reaches_the_client [OF q(1,2), where cs = "[(''hi'', 0)]" and ending = "RaisesBackend ''gone''"] q(3)
  show ?thesis by (auto simp: outcomes_def chunk_event_def)
qed

text \<open>
  A request the backend rejects is treated as a crash of the backend. The server answers, with a
  status of its choice for a body it does not accept; the stream raises a BackendError, and the
  whole model is reported as failed.
\<close>

theorem rejected_body_takes_the_model_down:
  assumes "eng_store e r = Some q" and "\<not> qr_cancelled q" and "status \<noteq> 200"
    and "upstream_payload request = Inr payload"
  shows "qr_model q \<in> set (eng_failed (serve_all r
    (outcomes (vllm_stream name loads pstr request (HttpAnswer status body lines ending))) e))"
  using stream_pumped [OF assms(1,2), where cs = "[]" and ending = "RaisesBackend (''vllm rejected generation for ''
      @ py_repr name @ '': HTTP '' @ show_int status @ '' '' @ take 400 body)"] assms(3,4)
  by (auto simp: vllm_stream_def)

subsection \<open>One router behind another\<close>

text \<open>
  The lines of the frames the router writes. How a JSON value is written is the library's: \<open>dumps\<close>
  is an argument, with \<open>created\<close> the time pydantic fills in.
\<close>

definition opt_json :: "string option \<Rightarrow> json" where
  "opt_json s = (case s of None \<Rightarrow> JNull | Some t \<Rightarrow> JStr t)"

definition chunk_json :: "int \<Rightarrow> chat_chunk \<Rightarrow> (string \<times> json) list" where
  "chunk_json created ch =
     [(''id'', JStr (cc_id ch)), (''object'', JStr ''chat.completion.chunk''), (''created'', JInt created),
      (''model'', JStr (cc_model ch)),
      (''choices'', JList [JObj [(''index'', JInt 0),
         (''delta'', JObj [(''role'', opt_json (cd_role (cc_delta ch))), (''content'', opt_json (cd_content (cc_delta ch)))]),
         (''finish_reason'', opt_json (cc_finish_reason ch))]])]"

definition error_json :: "error_info \<Rightarrow> (string \<times> json) list" where
  "error_json err = [(''error'', JObj [(''message'', JStr (er_message err)), (''type'', JStr (er_type err)),
     (''param'', JNull), (''code'', opt_json (er_code err))])]"

fun frame_lines :: "(json \<Rightarrow> string) \<Rightarrow> int \<Rightarrow> sse_frame \<Rightarrow> string list" where
  "frame_lines dumps created (DataFrame ch) = [''data: '' @ dumps (JObj (chunk_json created ch)), []]"
| "frame_lines dumps created (ErrorFrame err) = [''data: '' @ dumps (JObj (error_json err)), []]"
| "frame_lines dumps created DoneFrame = [''data: [DONE]'', []]"

fun frame_object :: "int \<Rightarrow> sse_frame \<Rightarrow> (string \<times> json) list option" where
  "frame_object created (DataFrame ch) = Some (chunk_json created ch)"
| "frame_object created (ErrorFrame err) = Some (error_json err)"
| "frame_object created DoneFrame = None"

text \<open>What is assumed of the library, for the objects of the given frames: they parse back, and are written in braces.\<close>

definition json_codec :: "(json \<Rightarrow> string) \<Rightarrow> (string \<Rightarrow> json option) \<Rightarrow> int \<Rightarrow> sse_frame list \<Rightarrow> bool" where
  "json_codec dumps loads created frames \<longleftrightarrow>
     (\<forall>f \<in> set frames. \<forall>kvs. frame_object created f = Some kvs \<longrightarrow>
        loads (dumps (JObj kvs)) = Some (JObj kvs) \<and> (\<exists>mid. dumps (JObj kvs) = CHR ''{'' # mid @ ''}''))"

lemma strip_braces:
  "py_strip (CHR ''{'' # mid @ ''}'') = CHR ''{'' # mid @ ''}''"
  "py_strip (''data: '' @ CHR ''{'' # mid @ ''}'') = ''data: '' @ CHR ''{'' # mid @ ''}''"
  "py_strip (CHR '' '' # CHR ''{'' # mid @ ''}'') = CHR ''{'' # mid @ ''}''"
  by (simp_all add: py_strip_def py_lstrip_def py_space_def Let_def)

lemma parse_done: "parse_sse loads ''data: [DONE]'' = DoneMark" and parse_blank: "parse_sse loads [] = NoEvent"
  by (simp_all add: parse_sse_def py_strip_def py_lstrip_def py_space_def Let_def)

lemma parse_object:
  assumes "loads (dumps (JObj kvs)) = Some (JObj kvs)" and "dumps (JObj kvs) = CHR ''{'' # mid @ ''}''"
  shows "parse_sse loads (''data: '' @ dumps (JObj kvs)) = EventLine kvs"
  using assms(1) unfolding parse_sse_def assms(2) Let_def strip_braces
  by (simp add: strip_braces)

text \<open>The chunks that carry text, numbered from \<open>k\<close>.\<close>

fun numbered :: "nat \<Rightarrow> (string \<times> nat) list \<Rightarrow> (string \<times> nat) list" where
  "numbered k [] = []"
| "numbered k ((t, i) # cs) = (if t = [] then numbered k cs else (t, k) # numbered (Suc k) cs)"

lemma numbered_text: "concat (map fst (numbered k cs)) = concat (map fst cs)"
  by (induction k cs rule: numbered.induct) auto

lemma read_content:
  "read_event pstr (chunk_json created \<lparr>cc_id = a, cc_model = m, cc_delta = \<lparr>cd_role = None, cd_content = Some t\<rparr>,
       cc_finish_reason = None\<rparr>) s =
     Inr (if t = [] then (None, s) else (Some (t, vs_index s), s\<lparr>vs_index := Suc (vs_index s)\<rparr>))"
  by (simp add: read_event_def chunk_json_def payload_get_def read_choice_def opt_json_def Let_def)

lemma read_role:
  "read_event pstr (chunk_json created \<lparr>cc_id = a, cc_model = m, cc_delta = \<lparr>cd_role = Some x, cd_content = None\<rparr>,
       cc_finish_reason = None\<rparr>) s = Inr (None, s)"
  by (simp add: read_event_def chunk_json_def payload_get_def read_choice_def opt_json_def Let_def)

lemma read_finish:
  "read_event pstr (chunk_json created \<lparr>cc_id = a, cc_model = m, cc_delta = \<lparr>cd_role = None, cd_content = None\<rparr>,
       cc_finish_reason = Some reason\<rparr>) s = Inr (None, if reason = [] then s else s\<lparr>vs_finish_reason := reason\<rparr>)"
  by (simp add: read_event_def chunk_json_def payload_get_def read_choice_def opt_json_def Let_def)

lemma read_error: "read_event pstr (error_json err) s = Inr (None, s)"
  by (simp add: read_event_def error_json_def payload_get_def Let_def)

lemma read_frame:
  assumes "json_codec dumps loads created (f # fs)" and "frame_object created f = Some kvs"
  shows "read_lines name loads pstr ending (frame_lines dumps created f @ ls) s =
    (case read_event pstr kvs s of
       Inl err \<Rightarrow> ([], RaisesOther err)
     | Inr (chunk, s') \<Rightarrow> (let (cs, end) = read_lines name loads pstr ending ls s'
         in (case chunk of None \<Rightarrow> cs | Some c \<Rightarrow> c # cs, end)))"
proof -
  obtain mid where "loads (dumps (JObj kvs)) = Some (JObj kvs)" "dumps (JObj kvs) = CHR ''{'' # mid @ ''}''"
    using assms unfolding json_codec_def by (metis list.set_intros(1))
  from parse_object [where loads = loads and dumps = dumps, OF this] have p: "parse_sse loads (''data: '' @ dumps (JObj kvs)) = EventLine kvs" .
  have "frame_lines dumps created f = [''data: '' @ dumps (JObj kvs), []]"
    using assms(2) by (cases f) auto
  then show ?thesis using p by (simp add: parse_blank split: sum.split prod.split option.split)
qed

lemma codec_tail: "json_codec dumps loads created (f # fs) \<Longrightarrow> json_codec dumps loads created fs"
  by (simp add: json_codec_def)

lemma frame_object_sse [simp]:
  "frame_object created (sse_chunk r m d fin) = Some (chunk_json created
     \<lparr>cc_id = completion_id r, cc_model = m, cc_delta = d, cc_finish_reason = fin\<rparr>)"
  by (simp add: sse_chunk_def)

lemma read_frame_silent:
  assumes "json_codec dumps loads created (f # fs)" and "frame_object created f = Some kvs"
    and "read_event pstr kvs s = Inr (None, s')"
  shows "read_lines name loads pstr ending (frame_lines dumps created f @ ls) s
    = read_lines name loads pstr ending ls s'"
  using read_frame [OF assms(1,2)] assms(3) by (simp split: prod.split)

lemma read_chunks:
  assumes "json_codec dumps loads created
      (map (\<lambda>c. sse_chunk r m \<lparr>cd_role = None, cd_content = Some (fst c)\<rparr> None) cs @ fs)"
  shows "read_lines name loads pstr ending
      (concat (map (frame_lines dumps created)
         (map (\<lambda>c. sse_chunk r m \<lparr>cd_role = None, cd_content = Some (fst c)\<rparr> None) cs)) @ ls) s =
    (let (xs, end) = read_lines name loads pstr ending ls
           (s\<lparr>vs_index := vs_index s + length (numbered (vs_index s) cs)\<rparr>)
     in (numbered (vs_index s) cs @ xs, end))"
  using assms
proof (induction cs arbitrary: s)
  case Nil
  then show ?case by (simp split: prod.split)
next
  case (Cons c cs)
  obtain t i where c: "c = (t, i)" by (cases c)
  let ?f = "sse_chunk r m \<lparr>cd_role = None, cd_content = Some t\<rparr> None"
  have codec: "json_codec dumps loads created (?f #
      (map (\<lambda>c. sse_chunk r m \<lparr>cd_role = None, cd_content = Some (fst c)\<rparr> None) cs @ fs))"
    using Cons.prems c by simp
  note IH = Cons.IH [OF codec_tail [OF codec]]
  show ?case
    using read_frame [OF codec frame_object_sse, where name = name and pstr = pstr and ending = ending and s = s] IH
    by (auto simp: c read_content split: prod.split)
qed

lemma read_end:
  assumes "json_codec dumps loads created [f, DoneFrame]" and "frame_object created f = Some kvs"
    and "read_event pstr kvs s = Inr (None, s')"
  shows "read_lines name loads pstr ending (concat (map (frame_lines dumps created) [f, DoneFrame])) s
    = ([], EndsWith (vs_finish_reason s') (vs_usage s'))"
  using read_frame_silent [OF assms, where name = name and ending = ending and ls = "[''data: [DONE]'', []]"] by (simp add: parse_done)

lemma sse_read_back:
  assumes evs: "evs = map chunk_event cs @ ev # rest"
    and ev: "sse_events r m (ev # rest) = [f, DoneFrame]" "frame_object created f = Some kvs"
      "\<And>s. read_event pstr kvs s = Inr (None, s\<lparr>vs_finish_reason := fin (vs_finish_reason s)\<rparr>)"
    and codec: "json_codec dumps loads created (sse r m evs)"
  shows "read_lines name loads pstr ending (concat (map (frame_lines dumps created) (sse r m evs))) init_stream
    = (numbered 0 cs, EndsWith (fin ''stop'') None)"
proof -
  let ?cs = "map (\<lambda>c. sse_chunk r m \<lparr>cd_role = None, cd_content = Some (fst c)\<rparr> None) cs"
  let ?role = "sse_chunk r m \<lparr>cd_role = Some ''assistant'', cd_content = None\<rparr> None"
  have frames: "sse r m evs = ?role # ?cs @ [f, DoneFrame]" unfolding sse_def evs sse_chunks ev(1) ..
  have c1: "json_codec dumps loads created (?role # ?cs @ [f, DoneFrame])" using codec unfolding frames .
  have c2: "json_codec dumps loads created (?cs @ [f, DoneFrame])" by (rule codec_tail [OF c1])
  then have c3: "json_codec dumps loads created [f, DoneFrame]" by (simp add: json_codec_def)
  have "concat (map (frame_lines dumps created) (sse r m evs)) = frame_lines dumps created ?role
      @ concat (map (frame_lines dumps created) ?cs) @ concat (map (frame_lines dumps created) [f, DoneFrame])"
    unfolding frames by simp
  then have "read_lines name loads pstr ending (concat (map (frame_lines dumps created) (sse r m evs))) init_stream
    = read_lines name loads pstr ending (concat (map (frame_lines dumps created) ?cs)
        @ concat (map (frame_lines dumps created) [f, DoneFrame])) init_stream"
    using read_frame_silent [OF c1 frame_object_sse read_role] by simp
  also have "\<dots> = (numbered 0 cs, EndsWith (fin ''stop'') None)"
    unfolding read_chunks [OF c2] read_end [OF c3 ev(2,3)] by (simp add: init_stream_def)
  finally show ?thesis .
qed


text \<open>The library's own \<open>json.dumps\<close> and \<open>json.loads\<close> are a codec, for the frames of any stream.\<close>

lemma python_codec: "json_codec json_dumps json_loads created fs"
  unfolding json_codec_def
proof (intro ballI allI impI)
  fix f kvs assume "frame_object created f = Some kvs"
  then have "json_plain (JObj kvs)"
    by (cases f) (auto simp: chunk_json_def error_json_def opt_json_def split: option.split)
  then show "json_loads (json_dumps (JObj kvs)) = Some (JObj kvs) \<and> (\<exists>mid. json_dumps (JObj kvs) = CHR ''{'' # mid @ ''}'')"
    using json_reads_back json_object_braces by blast
qed


text \<open>
  An error inside a stream is not seen. Once the headers are sent, the router can report an error
  only in-band; a vLLM backend that reads such a line takes the stream for complete, and the cut
  response ends as \<open>stop\<close>.
\<close>

theorem in_band_error_ends_as_stop:
  assumes "json_codec dumps loads created (sse r m (map chunk_event cs @ StreamError msg status # rest))"
  shows "read_lines name loads pstr ending (concat (map (frame_lines dumps created)
      (sse r m (map chunk_event cs @ StreamError msg status # rest)))) init_stream
    = (numbered 0 cs, EndsWith ''stop'' None)"
  by (rule sse_read_back [OF refl _ _ _ assms, where fin = "\<lambda>s. s" and f = "ErrorFrame (error_body msg ''server_error'' None)" and kvs = "error_json (error_body msg ''server_error'' None)"])
    (simp_all add: read_error)

end
