(* ===== verification/Sir_Mock.thy ===== *)
theory Sir_Mock
  imports Sir_Config
begin

text \<open>
  The simulated backend of \<open>src/src/sir/backends/mock.py\<close>. Its methods are cut at their awaits,
  which are all sleeps: what runs after a sleep is a function of its own. A generation is a
  \<open>generator\<close> on the state all generations of the backend share; \<open>mock_next\<close> is what runs from one
  resumption of the generator to its next yield.
\<close>

subsection \<open>State\<close>

record mock =
  mk_loaded :: bool
  mk_crashed :: bool
  mk_load_attempts :: nat
  mk_requests_started :: nat
  mk_requests_completed :: nat

definition init_mock :: mock where
  "init_mock = \<lparr>mk_loaded = False, mk_crashed = False, mk_load_attempts = 0,
     mk_requests_started = 0, mk_requests_completed = 0\<rparr>"

subsection \<open>Lifecycle\<close>

text \<open>\<open>start\<close> up to the load sleep, and what runs when it is over: the error raised, if any.\<close>

definition mock_start_begin :: "mock \<Rightarrow> mock" where
  "mock_start_begin b = b\<lparr>mk_load_attempts := Suc (mk_load_attempts b)\<rparr>"

definition load_failure :: "string \<Rightarrow> nat \<Rightarrow> string" where
  "load_failure name n = ''mock backend for '' @ py_repr name @ '' failed to load (injected failure on attempt ''
     @ show_nat n @ '')''"

definition mock_start_end :: "string \<Rightarrow> mock_params \<Rightarrow> mock \<Rightarrow> string option \<times> mock" where
  "mock_start_end name p b =
     (let every = mp_fail_on_load_every_n p in
      if every \<noteq> 0 \<and> int (mk_load_attempts b) mod every = 0
      then (Some (load_failure name (mk_load_attempts b)), b)
      else (None, b\<lparr>mk_loaded := True, mk_crashed := False, mk_requests_started := 0\<rparr>))"

definition mock_stop_seconds :: "mock_params \<Rightarrow> mock \<Rightarrow> seconds" where
  "mock_stop_seconds p b = (if mk_loaded b \<or> mk_crashed b then mp_unload_seconds p else 0)"

definition mock_stop_end :: "mock \<Rightarrow> mock" where
  "mock_stop_end b = b\<lparr>mk_loaded := False, mk_crashed := False\<rparr>"

definition mock_health :: "mock \<Rightarrow> bool" where
  "mock_health b \<longleftrightarrow> mk_loaded b \<and> \<not> mk_crashed b"

subsection \<open>Generation\<close>

definition vocab :: "string list" where
  "vocab = [''the'', ''quick'', ''brown'', ''fox'', ''jumps'', ''over'', ''the'', ''lazy'', ''dog'', ''while'',
     ''the'', ''router'', ''decides'', ''which'', ''model'', ''deserves'', ''the'', ''gpu'', ''right'', ''now'']"

definition mock_token :: "string \<Rightarrow> nat \<Rightarrow> string" where
  "mock_token m index = (if index = 0 then ''['' @ m @ '']'' else '' '' @ vocab ! ((index - 1) mod length vocab))"

record generator =
  gn_tag :: string
  gn_budget :: int
  gn_crash_at :: "nat option"
  gn_index :: nat

text \<open>
  \<open>stream\<close> up to the first-token sleep: the checks, the counter, and the generator. \<open>pstr\<close> is \<open>str\<close>
  on a \<open>model\<close> field that is not a string.
\<close>

definition generator_tag :: "(json \<Rightarrow> string) \<Rightarrow> string \<Rightarrow> generation_request \<Rightarrow> string" where
  "generator_tag pstr name request =
     (case payload_get (gr_payload request) ''model'' of
        JStr s \<Rightarrow> if s = [] then name else s
      | v \<Rightarrow> if truthy v then pstr v else name)"

definition mock_stream_begin ::
    "(json \<Rightarrow> string) \<Rightarrow> string \<Rightarrow> mock_params \<Rightarrow> generation_request \<Rightarrow> mock \<Rightarrow> (string + py_error + generator) \<times> mock" where
  "mock_stream_begin pstr name p request b =
     (if mk_crashed b then (Inl (''backend for '' @ py_repr name @ '' has crashed''), b)
      else if \<not> mk_loaded b then (Inl (''backend for '' @ py_repr name @ '' is not loaded''), b)
      else
        let b = b\<lparr>mk_requests_started := Suc (mk_requests_started b)\<rparr>;
            crash_after = mp_crash_after_n_requests p;
            should_crash = (crash_after \<noteq> 0 \<and> crash_after < int (mk_requests_started b))
        in (Inr (case gr_max_tokens request of
              Inl err \<Rightarrow> Inl err
            | Inr n \<Rightarrow> Inr \<lparr>gn_tag = generator_tag pstr name request,
                gn_budget = (case n of Some k \<Rightarrow> if k = 0 then mp_default_max_tokens p else k | None \<Rightarrow> mp_default_max_tokens p),
                gn_crash_at = (if should_crash then Some 2 else None), gn_index = 0\<rparr>), b))"

datatype mock_step = Token string nat | MockDone | MockCrash string

definition crash_message :: "string \<Rightarrow> mock_params \<Rightarrow> string" where
  "crash_message name p = ''backend for '' @ py_repr name @ '' died mid-generation (injected crash after ''
     @ show_int (mp_crash_after_n_requests p) @ '' request(s))''"

definition mock_next :: "string \<Rightarrow> mock_params \<Rightarrow> generator \<Rightarrow> mock \<Rightarrow> mock_step \<times> generator \<times> mock" where
  "mock_next name p g b =
     (if gn_budget g \<le> int (gn_index g)
      then (MockDone, g, b\<lparr>mk_requests_completed := Suc (mk_requests_completed b)\<rparr>)
      else case gn_crash_at g of
        Some k \<Rightarrow>
          if k \<le> gn_index g then (MockCrash (crash_message name p), g, b\<lparr>mk_crashed := True, mk_loaded := False\<rparr>)
          else (Token (mock_token (gn_tag g) (gn_index g)) (gn_index g), g\<lparr>gn_index := Suc (gn_index g)\<rparr>, b)
      | None \<Rightarrow> (Token (mock_token (gn_tag g) (gn_index g)) (gn_index g), g\<lparr>gn_index := Suc (gn_index g)\<rparr>, b))"

text \<open>A generation run to its end, with nothing else going on: its tokens and whether it crashed.\<close>

function mock_generate :: "string \<Rightarrow> mock_params \<Rightarrow> generator \<Rightarrow> mock \<Rightarrow> (string \<times> nat) list \<times> bool \<times> mock" where
  "mock_generate name p g b =
     (case mock_next name p g b of
        (Token t i, g', b') \<Rightarrow> (case mock_generate name p g' b' of (ts, crashed, b'') \<Rightarrow> ((t, i) # ts, crashed, b''))
      | (MockDone, _, b') \<Rightarrow> ([], False, b')
      | (MockCrash _, _, b') \<Rightarrow> ([], True, b'))"
  by pat_completeness auto

termination
  by (relation "measure (\<lambda>(_, _, g, _). nat (gn_budget g - int (gn_index g)))")
    (auto simp: mock_next_def split: if_splits option.splits)

declare mock_generate.simps [simp del]

lemma mock_generate_from:
  assumes "gn_crash_at g = (if crash then Some 2 else None)" and "crash \<longrightarrow> gn_index g \<le> 2"
  shows "mock_generate name p g b =
    (let n = (if crash then min 2 (nat (gn_budget g)) else nat (gn_budget g));
         dies = (crash \<and> 2 < gn_budget g)
     in (map (\<lambda>i. (mock_token (gn_tag g) i, i)) [gn_index g..<n], dies,
         if dies then b\<lparr>mk_crashed := True, mk_loaded := False\<rparr>
         else b\<lparr>mk_requests_completed := Suc (mk_requests_completed b)\<rparr>))"
  using assms
proof (induction "nat (gn_budget g - int (gn_index g))" arbitrary: g b)
  case 0
  then have le: "gn_budget g \<le> int (gn_index g)" by simp
  then have nx: "mock_next name p g b = (MockDone, g, b\<lparr>mk_requests_completed := Suc (mk_requests_completed b)\<rparr>)"
    by (simp add: mock_next_def)
  have "\<not> (crash \<and> 2 < gn_budget g)" "[gn_index g..<if crash then min 2 (nat (gn_budget g)) else nat (gn_budget g)] = []"
    using le 0(3) by auto
  then show ?case by (subst mock_generate.simps) (cases crash; simp add: nx)
next
  case (Suc d)
  then have lt: "int (gn_index g) < gn_budget g" by simp
  show ?case
  proof (cases "crash \<and> 2 \<le> gn_index g")
    case True
    with lt Suc.prems show ?thesis by (subst mock_generate.simps) (auto simp: mock_next_def Let_def)
  next
    case False
    let ?g = "g\<lparr>gn_index := Suc (gn_index g)\<rparr>"
    have nx: "mock_next name p g b = (Token (mock_token (gn_tag g) (gn_index g)) (gn_index g), ?g, b)"
      using lt False Suc.prems by (auto simp: mock_next_def)
    have IH: "mock_generate name p ?g b =
      (let n = (if crash then min 2 (nat (gn_budget g)) else nat (gn_budget g));
         dies = (crash \<and> 2 < gn_budget g)
       in (map (\<lambda>i. (mock_token (gn_tag g) i, i)) [Suc (gn_index g)..<n], dies,
         if dies then b\<lparr>mk_crashed := True, mk_loaded := False\<rparr>
         else b\<lparr>mk_requests_completed := Suc (mk_requests_completed b)\<rparr>))"
    proof -
      have "d = nat (gn_budget ?g - int (gn_index ?g))" "gn_crash_at ?g = (if crash then Some 2 else None)"
        "crash \<longrightarrow> gn_index ?g \<le> 2"
        using Suc.hyps(2) Suc.prems False by auto
      from Suc.hyps(1) [OF this] show ?thesis by (cases crash; simp add: Let_def)
    qed
    have "[gn_index g..<n] = gn_index g # [Suc (gn_index g)..<n]" if "gn_index g < n" for n
      using that by (simp add: upt_conv_Cons)
    moreover have "crash \<Longrightarrow> gn_index g < min 2 (nat (gn_budget g))" "gn_index g < nat (gn_budget g)"
      using lt False by auto
    ultimately show ?thesis
      using False lt by (subst mock_generate.simps) (auto simp: nx IH Let_def)
  qed
qed

text \<open>A backend is never loaded and crashed at once.\<close>

definition mock_ok :: "mock \<Rightarrow> bool" where
  "mock_ok b \<longleftrightarrow> \<not> (mk_loaded b \<and> mk_crashed b)"

lemma mock_ok_kept:
  "mock_ok init_mock"
  "mock_ok b \<Longrightarrow> mock_ok (mock_start_begin b)"
  "mock_ok b \<Longrightarrow> mock_ok (snd (mock_start_end name p b))"
  "mock_ok (mock_stop_end b)"
  "mock_ok b \<Longrightarrow> mock_ok (snd (mock_stream_begin pstr name p request b))"
  "mock_ok b \<Longrightarrow> mock_ok (snd (snd (mock_next name p g b)))"
  by (auto simp: mock_ok_def init_mock_def mock_start_begin_def mock_start_end_def mock_stop_end_def
      mock_stream_begin_def mock_next_def Let_def split: option.split)

text \<open>
  The simulated backend generates what it is asked for, and dies on cue. A generation that has
  begun yields its tokens in order, numbered from 0, as many as the request's budget, and counts as
  completed; unless the request is past the configured number of requests and its budget is more
  than two: then it yields exactly two tokens and leaves the backend crashed.
\<close>

lemma mock_generation:
  assumes "mock_stream_begin pstr name p request b = (Inr (Inr g), b')"
  shows "mock_generate name p g b' =
    (let dies = (mp_crash_after_n_requests p \<noteq> 0 \<and> mp_crash_after_n_requests p < int (mk_requests_started b')
           \<and> 2 < gn_budget g);
         n = (if dies then 2 else nat (gn_budget g))
     in (map (\<lambda>i. (mock_token (gn_tag g) i, i)) [0..<n], dies,
         if dies then b'\<lparr>mk_crashed := True, mk_loaded := False\<rparr>
         else b'\<lparr>mk_requests_completed := Suc (mk_requests_completed b')\<rparr>))"
proof -
  let ?crash = "mp_crash_after_n_requests p \<noteq> 0 \<and> mp_crash_after_n_requests p < int (mk_requests_started b')"
  have g: "gn_crash_at g = (if ?crash then Some 2 else None)" "gn_index g = 0"
    using assms by (auto simp: mock_stream_begin_def Let_def split: if_splits sum.splits)
  have n: "(if ?crash then min 2 (nat (gn_budget g)) else nat (gn_budget g))
      = (if ?crash \<and> 2 < gn_budget g then 2 else nat (gn_budget g))"
    by (auto simp: min_def)
  show ?thesis
    using mock_generate_from [of g ?crash name p b', unfolded n] g by (simp add: Let_def)
qed

definition sample_mock :: mock where
  "sample_mock = init_mock\<lparr>mk_loaded := True, mk_requests_started := 1\<rparr>"

definition sample_generation :: generation_request where
  "sample_generation = \<lparr>gr_model = ''chat'', gr_served_model = ''A'',
     gr_payload = [(''model'', JStr ''A''), (''max_tokens'', JInt 3)], gr_request_id = ''1''\<rparr>"

text \<open>
  A backend that is past its number of requests does not die under a request for one or two
  tokens: the crash is checked before a token beyond the second.
\<close>

theorem short_requests_never_crash:
  assumes "mock_stream_begin pstr name p request b = (Inr (Inr g), b')" and "gn_budget g \<le> 2"
  shows "fst (snd (mock_generate name p g b')) = False"
proof -
  let ?crash = "mp_crash_after_n_requests p \<noteq> 0 \<and> mp_crash_after_n_requests p < int (mk_requests_started b')"
  have "gn_crash_at g = (if ?crash then Some 2 else None)" "gn_index g = 0"
    using assms(1) by (auto simp: mock_stream_begin_def Let_def split: if_splits sum.splits)
  then show ?thesis using mock_generate_from [of g ?crash name p b'] assms(2) by (simp add: Let_def)
qed

end
