(* ===== verification/Sir_Backend.thy ===== *)
theory Sir_Backend
  imports Sir_Stream Sir_Mock
begin

text \<open>
  The boundary of \<open>src/src/sir/backend.py\<close>: what the engine relies on in a backend's \<open>stream\<close>, as a
  locale. A backend yields chunks numbered from 0 and then ends or raises; everything above the
  boundary is proved from that, once, and holds for the simulated backend and for vLLM.
\<close>

subsection \<open>The contract\<close>

text \<open>What a client that waits for its response is told about an ending.\<close>

fun waiting_reply :: "chat_request \<Rightarrow> rid \<Rightarrow> string list \<Rightarrow> stream_end \<Rightarrow> collected" where
  "waiting_reply body r texts (EndsWith reason u) = Completion (build_response body texts reason (completion_id r) u)"
| "waiting_reply body r texts (RaisesBackend msg) = CollectFailed 503 (error_body msg ''server_error'' None)"
| "waiting_reply body r texts (RaisesOther err) = CollectFailed 500 (error_body ''internal error: '' ''server_error'' None)"

lemma collect_terminated:
  "collect body r parts (map chunk_event cs @ terminator ending # evs) gone = waiting_reply body r (parts @ map fst cs) ending"
  by (cases ending) (simp_all add: collect_chunks)

locale token_stream =
  fixes yields :: "'i \<Rightarrow> (string \<times> nat) list \<times> stream_end"
  assumes numbered: "map snd (fst (yields i)) = [0..<length (fst (yields i))]"
begin

lemma index: "k < length (fst (yields i)) \<Longrightarrow> snd (fst (yields i) ! k) = k"
  using arg_cong [OF numbered [of i], of "\<lambda>xs. xs ! k"] by simp

text \<open>A client that waits gets the texts in order, numbered by their position in the channel.\<close>

lemma answered:
  assumes "eng_store e r = Some q" and "\<not> qr_cancelled q" and "qr_events q = []"
  shows "\<exists>q'. eng_store (serve_all r (outcomes (yields i)) e) r = Some q'
    \<and> (\<forall>k < length (fst (yields i)). qr_events q' ! k = Chunk (fst (fst (yields i) ! k)) k)
    \<and> collect body r [] (qr_events q') gone = waiting_reply body r (map fst (fst (yields i))) (snd (yields i))"
proof -
  obtain q' where q': "eng_store (serve_all r (outcomes (yields i)) e) r = Some q'"
    "qr_events q' = map chunk_event (fst (yields i)) @ [terminator (snd (yields i))]"
    using stream_pumped [OF assms(1,2), of "fst (yields i)" "snd (yields i)"] assms(3) by auto
  have "qr_events q' ! k = Chunk (fst (fst (yields i) ! k)) k" if "k < length (fst (yields i))" for k
    using that index [OF that] by (simp add: q'(2) nth_append chunk_event_def)
  moreover have "collect body r [] (qr_events q') gone = waiting_reply body r (map fst (fst (yields i))) (snd (yields i))"
    unfolding q'(2) by (simp add: collect_terminated)
  ultimately show ?thesis using q'(1) by blast
qed

end

subsection \<open>vLLM\<close>

lemma read_choice_index:
  "read_choice pstr choice s = Inr (c, s') \<Longrightarrow>
   (case c of None \<Rightarrow> vs_index s' = vs_index s | Some (t, k) \<Rightarrow> k = vs_index s \<and> vs_index s' = Suc (vs_index s))"
  by (auto simp: read_choice_def Let_def split: sum.splits if_splits option.splits)

lemma read_event_index:
  "read_event pstr event s = Inr (c, s') \<Longrightarrow>
   (case c of None \<Rightarrow> vs_index s' = vs_index s | Some (t, k) \<Rightarrow> k = vs_index s \<and> vs_index s' = Suc (vs_index s))"
  by (auto simp: read_event_def Let_def dest!: read_choice_index split: sum.splits if_splits option.splits)

lemma read_lines_numbered:
  "map snd (fst (read_lines name loads pstr ending ls s)) =
   [vs_index s..<vs_index s + length (fst (read_lines name loads pstr ending ls s))]"
proof (induction ls arbitrary: s)
  case Nil
  then show ?case by simp
next
  case (Cons l ls)
  show ?case
  proof (cases "parse_sse loads l")
    case (EventLine event)
    show ?thesis
    proof (cases "read_event pstr event s")
      case (Inr cs)
      obtain c s' where cs: "cs = (c, s')" by fastforce
      obtain chunks ending' where r: "read_lines name loads pstr ending ls s' = (chunks, ending')" by fastforce
      have up: "[k..<k + Suc n] = k # [Suc k..<Suc k + n]" for k n :: nat
        by (simp add: upt_conv_Cons del: upt_Suc)
      have IH: "map snd chunks = [vs_index s'..<vs_index s' + length chunks]"
        using Cons.IH [of s'] r by simp
      show ?thesis
      proof (cases c)
        case None
        then show ?thesis using IH read_event_index [of pstr event s c s'] EventLine Inr r cs by simp
      next
        case (Some tk)
        obtain t k where tk: "tk = (t, k)" by fastforce
        have "k = vs_index s" "vs_index s' = Suc (vs_index s)"
          using read_event_index [of pstr event s c s'] Inr cs Some tk by simp_all
        then show ?thesis using IH EventLine Inr r cs Some tk up [of "vs_index s" "length chunks"]
          by (simp del: upt_Suc)
      qed
    qed (simp add: EventLine)
  qed (use Cons.IH [of s] in simp_all)
qed

interpretation vllm_backend:
  token_stream "\<lambda>(name, loads, pstr, request, answer). vllm_stream name loads pstr request answer"
proof (unfold_locales, clarify)
  fix name and loads :: "string \<Rightarrow> json option" and pstr :: "json \<Rightarrow> string" and request answer
  show "map snd (fst (vllm_stream name loads pstr request answer))
      = [0..<length (fst (vllm_stream name loads pstr request answer))]"
    using read_lines_numbered [of name loads pstr _ _ init_stream]
    by (auto simp: vllm_stream_def init_stream_def split: sum.split http_answer.split)
qed



subsection \<open>The simulated backend\<close>

text \<open>
  A generation that runs through, as the engine sees it; the engine ends the stream of a backend
  that yields nothing but chunks as \<open>stop\<close>.
\<close>

definition mock_stream ::
    "string \<Rightarrow> mock_params \<Rightarrow> (json \<Rightarrow> string) \<Rightarrow> generation_request \<Rightarrow> mock \<Rightarrow> (string \<times> nat) list \<times> stream_end" where
  "mock_stream name p pstr request b =
     (case mock_stream_begin pstr name p request b of
        (Inl msg, _) \<Rightarrow> ([], RaisesBackend msg)
      | (Inr (Inl err), _) \<Rightarrow> ([], RaisesOther err)
      | (Inr (Inr g), b') \<Rightarrow>
          (case mock_generate name p g b' of
             (tokens, crashed, _) \<Rightarrow>
               (tokens, if crashed then RaisesBackend (crash_message name p) else EndsWith ''stop'' None)))"

interpretation mock_backend: token_stream "\<lambda>(name, p, pstr, request, b). mock_stream name p pstr request b"
  by unfold_locales
    (auto simp: mock_stream_def mock_generation Let_def o_def split: prod.split sum.split)

text \<open>
  The simulated backend stands in for a real one: a request to a loaded backend is answered with
  as many tokens as its budget, the first of which names the model, ended as \<open>stop\<close>; but if the
  request is past the number after which the backend is to crash and its budget is more than two,
  the client is told that the backend died.
\<close>

theorem mock_request_is_answered:
  assumes "eng_store e r = Some q" and "\<not> qr_cancelled q" and "qr_events q = []"
    and "mock_stream_begin pstr name p request b = (Inr (Inr g), b')"
  shows "\<exists>q'. eng_store (serve_all r (outcomes (mock_stream name p pstr request b)) e) r = Some q'
    \<and> collect body r [] (qr_events q') gone =
       (if mp_crash_after_n_requests p \<noteq> 0 \<and> mp_crash_after_n_requests p < int (mk_requests_started b')
           \<and> 2 < gn_budget g
        then CollectFailed 503 (error_body (crash_message name p) ''server_error'' None)
        else Completion (build_response body (map (mock_token (gn_tag g)) [0..<nat (gn_budget g)]) ''stop''
               (completion_id r) None))"
  using mock_backend.answered [OF assms(1-3), of "(name, p, pstr, request, b)" body gone] assms(4)
  by (auto simp: mock_stream_def mock_generation [OF assms(4)] Let_def o_def)

theorem mock_request_is_answered_witness:
  "\<exists>q'. eng_store (serve_all ''1'' (outcomes (mock_stream ''chat'' (default_mock_params\<lparr>mp_crash_after_n_requests := 1\<rparr>)
       (\<lambda>_. []) sample_generation sample_mock)) (after serving_run)) ''1'' = Some q'
     \<and> collect sample_body ''1'' [] (qr_events q') False = CollectFailed 503
       (error_body (crash_message ''chat'' (default_mock_params\<lparr>mp_crash_after_n_requests := 1\<rparr>)) ''server_error'' None)"
proof -
  let ?p = "default_mock_params\<lparr>mp_crash_after_n_requests := 1\<rparr>"
  have "(case eng_store (after serving_run) ''1'' of Some q \<Rightarrow> \<not> qr_cancelled q \<and> qr_events q = [] | None \<Rightarrow> False)"
    by code_simp
  then obtain q where q: "eng_store (after serving_run) ''1'' = Some q" "\<not> qr_cancelled q" "qr_events q = []"
    by (auto split: option.splits)
  have "case mock_stream_begin (\<lambda>_. []) ''chat'' ?p sample_generation sample_mock of
      (Inr (Inr g), b') \<Rightarrow> gn_budget g = 3 \<and> mk_requests_started b' = 2
    | _ \<Rightarrow> False" by code_simp
  then obtain g b' where b: "mock_stream_begin (\<lambda>_. []) ''chat'' ?p sample_generation sample_mock = (Inr (Inr g), b')"
    "gn_budget g = 3" "mk_requests_started b' = 2"
    by (auto split: prod.splits sum.splits)
  from mock_request_is_answered [OF q b(1), where body = sample_body and gone = False] b(2,3) show ?thesis by auto
qed

end
