(* ===== verification/Sir_Client.thy ===== *)
theory Sir_Client
  imports Sir_Types "HOL-Library.Multiset" "HOL-Library.List_Lexorder" "HOL-Library.Char_ord"
begin

text \<open>
  The Python client of \<open>src/clients/python/src/sir_client\<close>: the registry of endpoints, the
  submission of a request, and the polling of its job. HTTP is httpx's: the answers to the client's
  requests are arguments. Documents are JSON objects; \<open>pstr\<close> is \<open>str\<close> on JSON values that are not
  strings. The clock of the client (\<open>time.monotonic\<close>) is an argument, and so is what each round of
  polling takes beyond the sleep that was asked for.
\<close>

subsection \<open>Errors\<close>

datatype client_error =
  ModelNotRouted string "string list"
| TransportError int json
| JobLost string
| JobFailed string json
| JobCancelled string
| RequestTimeout string seconds
| ClientValueError string
| ClientKeyError string
| HttpError string

subsection \<open>The registry\<close>

record registry =
  rg_endpoints :: "(string \<times> string) list"
  rg_default :: "string option"

definition rstrip_slash :: "string \<Rightarrow> string" where
  "rstrip_slash url = rev (dropWhile (\<lambda>c. c = CHR ''/'') (rev url))"

definition make_registry :: "(string \<times> string) list \<Rightarrow> string option \<Rightarrow> registry" where
  "make_registry endpoints dflt =
     \<lparr>rg_endpoints = map (\<lambda>(m, url). (m, rstrip_slash url)) endpoints,
      rg_default = (case dflt of None \<Rightarrow> None | Some d \<Rightarrow> if d = [] then None else Some (rstrip_slash d))\<rparr>"

text \<open>\<open>pair.partition("=")\<close>.\<close>

fun partition_at :: "char \<Rightarrow> string \<Rightarrow> string \<times> string" where
  "partition_at c [] = ([], [])"
| "partition_at c (x # xs) = (if x = c then ([], xs) else (case partition_at c xs of (a, b) \<Rightarrow> (x # a, b)))"

fun parse_pairs :: "string list \<Rightarrow> (string \<times> string) list \<Rightarrow> client_error + (string \<times> string) list" where
  "parse_pairs [] endpoints = Inr endpoints"
| "parse_pairs (raw # pairs) endpoints =
     (let pair = py_strip raw in
      if pair = [] then parse_pairs pairs endpoints
      else let (m, url) = partition_at (CHR ''='') pair; m = py_strip m; url = py_strip url in
        if m = [] \<or> url = []
        then Inl (ClientValueError (''malformed SIR_ENDPOINTS entry '' @ py_repr pair @ ''; expected '' @ py_repr ''model=url''))
        else parse_pairs pairs (AList.update m url endpoints))"

definition from_env :: "(string \<Rightarrow> string option) \<Rightarrow> client_error + registry" where
  "from_env env =
     (case parse_pairs (py_split (CHR '','') (case env ''SIR_ENDPOINTS'' of None \<Rightarrow> [] | Some s \<Rightarrow> s)) [] of
        Inl err \<Rightarrow> Inl err
      | Inr endpoints \<Rightarrow> Inr (make_registry endpoints (env ''SIR_BASE_URL'')))"

text \<open>The registry a client is made with: the one given, else one of the given endpoints, else the environment's.\<close>

definition client_registry ::
    "registry option \<Rightarrow> (string \<times> string) list \<Rightarrow> string option \<Rightarrow> (string \<Rightarrow> string option) \<Rightarrow> client_error + registry" where
  "client_registry given endpoints base_url env =
     (case given of
        Some g \<Rightarrow> Inr g
      | None \<Rightarrow>
          if endpoints \<noteq> [] \<or> base_url \<notin> {None, Some []} then Inr (make_registry endpoints base_url) else from_env env)"

definition register :: "string \<Rightarrow> string \<Rightarrow> registry \<Rightarrow> registry" where
  "register m url g = g\<lparr>rg_endpoints := AList.update m (rstrip_slash url) (rg_endpoints g)\<rparr>"

definition registry_models :: "registry \<Rightarrow> string list" where
  "registry_models g = sort (map fst (rg_endpoints g))"

text \<open>An empty URL is falsy, so the default applies to it too.\<close>

definition resolve :: "string \<Rightarrow> registry \<Rightarrow> client_error + string" where
  "resolve m g =
     (case (case map_of (rg_endpoints g) m of Some url \<Rightarrow> if url = [] then rg_default g else Some url
            | None \<Rightarrow> rg_default g) of
        Some url \<Rightarrow> Inr url
      | None \<Rightarrow> Inl (ModelNotRouted m (registry_models g)))"

text \<open>
  \<open>discover\<close>: for each host its URL, the status and text of the answer, and the \<open>id\<close> of each card
  it lists (\<open>None\<close> if it has none). An error leaves what was entered before it.
\<close>

definition host_conflict :: "string \<Rightarrow> string \<Rightarrow> string \<Rightarrow> client_error" where
  "host_conflict tag claimed base =
     ClientValueError (''model '' @ py_repr tag @ '' is served by both '' @ claimed @ '' and '' @ base
       @ ''; routing would depend on discovery order'')"

fun enter_cards :: "string \<Rightarrow> string option list \<Rightarrow> registry \<Rightarrow> client_error option \<times> registry" where
  "enter_cards base [] g = (None, g)"
| "enter_cards base (tag # tags) g =
     (case tag of
        None \<Rightarrow> enter_cards base tags g
      | Some t \<Rightarrow>
          if t = [] then enter_cards base tags g
          else (case map_of (rg_endpoints g) t of
             Some claimed \<Rightarrow>
               if claimed \<noteq> base then (Some (host_conflict t claimed base), g)
               else enter_cards base tags (g\<lparr>rg_endpoints := AList.update t base (rg_endpoints g)\<rparr>)
           | None \<Rightarrow> enter_cards base tags (g\<lparr>rg_endpoints := AList.update t base (rg_endpoints g)\<rparr>)))"

record host_answer =
  ha_url :: string
  ha_status :: int
  ha_text :: string
  ha_cards :: "string option list"

fun discover :: "host_answer list \<Rightarrow> registry \<Rightarrow> client_error option \<times> registry" where
  "discover [] g = (None, g)"
| "discover (h # hs) g =
     (if ha_status h \<noteq> 200 then (Some (TransportError (ha_status h) (JStr (ha_text h))), g)
      else case enter_cards (rstrip_slash (ha_url h)) (ha_cards h) g of
        (Some err, g) \<Rightarrow> (Some err, g)
      | (None, g) \<Rightarrow> discover hs g)"

subsection \<open>Submission\<close>

record client_job =
  cj_id :: string
  cj_model :: string
  cj_base_url :: string
  cj_document :: "(string \<times> json) list"
  cj_completion :: "json option"

definition submit_body :: "string \<Rightarrow> (string \<times> json) list \<Rightarrow> (string \<times> json) list" where
  "submit_body m body = AList.update ''model'' (JStr m) body"

definition submit_headers :: "string option \<Rightarrow> (string \<times> string) list" where
  "submit_headers key = (''prefer'', ''respond-async'')
     # (case key of None \<Rightarrow> [] | Some k \<Rightarrow> if k = [] then [] else [(''idempotency-key'', k)])"

text \<open>What the answer to a submission makes: a completed job, a job to poll, or an error.\<close>

definition submitted :: "string \<Rightarrow> string \<Rightarrow> int \<Rightarrow> json \<Rightarrow> client_error + client_job" where
  "submitted m base status answer =
     (if status = 200
      then Inr \<lparr>cj_id = [], cj_model = m, cj_base_url = base, cj_document = [], cj_completion = Some answer\<rparr>
      else if status \<noteq> 202 then Inl (TransportError status answer)
      else case answer of
        JObj document \<Rightarrow>
          (case map_of document ''id'' of
             Some (JStr i) \<Rightarrow>
               Inr \<lparr>cj_id = i, cj_model = m, cj_base_url = base, cj_document = document, cj_completion = None\<rparr>
           | _ \<Rightarrow> Inl (ClientKeyError ''id''))
      | _ \<Rightarrow> Inl (ClientKeyError ''id''))"

fun py_text :: "(json \<Rightarrow> string) \<Rightarrow> json \<Rightarrow> string" where
  "py_text pstr (JStr s) = s"
| "py_text pstr v = pstr v"

definition document_status :: "(json \<Rightarrow> string) \<Rightarrow> (string \<times> json) list \<Rightarrow> string" where
  "document_status pstr d = (case map_of d ''status'' of None \<Rightarrow> ''queued'' | Some v \<Rightarrow> py_text pstr v)"

definition client_status :: "(json \<Rightarrow> string) \<Rightarrow> client_job \<Rightarrow> string" where
  "client_status pstr j = (if cj_completion j \<noteq> None then ''done'' else document_status pstr (cj_document j))"

subsection \<open>Polling\<close>

definition min_poll_seconds :: seconds where "min_poll_seconds = 1 / 20"
definition max_poll_seconds :: seconds where "max_poll_seconds = 10"
definition max_attempts :: nat where "max_attempts = 2"

fun number_of :: "json \<Rightarrow> seconds option" where
  "number_of (JInt i) = Some (of_int i)"
| "number_of (JFloat x) = Some x"
| "number_of (JBool b) = Some (if b then 1 else 0)"
| "number_of _ = None"

definition client_delay :: "seconds \<Rightarrow> (string \<times> json) list \<Rightarrow> seconds option \<Rightarrow> seconds" where
  "client_delay limit document remaining =
     (let delay = (case number_of (payload_get document ''retry_after'') of Some x \<Rightarrow> x | None \<Rightarrow> 1);
          delay = min limit (max min_poll_seconds delay)
      in case remaining of None \<Rightarrow> delay | Some left \<Rightarrow> min delay (max min_poll_seconds left))"

text \<open>\<open>_fetch\<close>.\<close>

definition fetched :: "string \<Rightarrow> int \<Rightarrow> json \<Rightarrow> client_error + json" where
  "fetched i status answer =
     (if status = 404 then Inl (JobLost i) else if status \<noteq> 200 then Inl (TransportError status answer) else Inr answer)"

text \<open>
  What comes back for a request: an answer, an exception of httpx, or the cancellation of the task
  that waits. A round of polling is what the environment makes of it with the time it took: beyond
  the sleep asked for, or since the round began when the caller is cancelled in it.
\<close>

datatype http_result = Answered int json | NoAnswer string | CallerCancelled

datatype client_outcome = Answer json | Raised client_error | Unwound

definition finished_outcome :: "(json \<Rightarrow> string) \<Rightarrow> string \<Rightarrow> (string \<times> json) list \<Rightarrow> client_outcome option" where
  "finished_outcome pstr i document =
     (let status = document_status pstr document in
      if status = ''done'' then Some (case map_of document ''response'' of Some r \<Rightarrow> Answer r
          | None \<Rightarrow> Raised (ClientKeyError ''response''))
      else if status = ''failed'' then Some (Raised (JobFailed i (payload_get document ''error'')))
      else if status = ''cancelled'' then Some (Raised (JobCancelled i))
      else None)"

text \<open>
  The loop of \<open>_await_job\<close>: the outcome, whether the job was cancelled at the router on the way
  out, and when. Without a deadline it may poll for ever. A document that is not an object is kept
  as an empty one.
\<close>

definition object_of :: "json \<Rightarrow> (string \<times> json) list" where
  "object_of v = (case v of JObj d \<Rightarrow> d | _ \<Rightarrow> [])"

partial_function (option) await_loop ::
    "(json \<Rightarrow> string) \<Rightarrow> seconds \<Rightarrow> seconds \<Rightarrow> (nat \<Rightarrow> seconds \<times> http_result) \<Rightarrow> string \<Rightarrow> seconds option
     \<Rightarrow> nat \<Rightarrow> seconds \<Rightarrow> (string \<times> json) list \<Rightarrow> (client_outcome \<times> bool \<times> seconds) option" where
  "await_loop pstr limit timeout polls i deadline k now document =
     (case finished_outcome pstr i document of
        Some out \<Rightarrow> Some (out, False, now)
      | None \<Rightarrow>
          if (case deadline of None \<Rightarrow> False | Some d \<Rightarrow> d - now \<le> 0)
          then Some (Raised (RequestTimeout i timeout), True, now)
          else
            let woken = now + client_delay limit document (map_option (\<lambda>d. d - now) deadline) + fst (polls k) in
            (case snd (polls k) of
               CallerCancelled \<Rightarrow> Some (Unwound, True, now + fst (polls k))
             | NoAnswer what \<Rightarrow> Some (Raised (HttpError what), False, woken)
             | Answered status answer \<Rightarrow>
                 (case fetched i status answer of
                    Inl err \<Rightarrow> Some (Raised err, False, woken)
                  | Inr d \<Rightarrow> await_loop pstr limit timeout polls i deadline (Suc k) woken (object_of d))))"

declare await_loop.simps [code]

text \<open>\<open>_await_job\<close>, with the timeout of the call, of the client, or the deadline \<open>run\<close> has fixed.\<close>

definition await_job ::
    "(json \<Rightarrow> string) \<Rightarrow> seconds \<Rightarrow> seconds option \<Rightarrow> (nat \<Rightarrow> seconds \<times> http_result) \<Rightarrow> client_job
     \<Rightarrow> seconds option \<Rightarrow> seconds option \<Rightarrow> seconds \<Rightarrow> (client_outcome \<times> bool \<times> seconds) option" where
  "await_job pstr limit own_timeout polls j timeout deadline now =
     (case cj_completion j of
        Some answer \<Rightarrow> Some (Answer answer, False, now)
      | None \<Rightarrow>
          let deadline = (case deadline of
                Some d \<Rightarrow> Some d
              | None \<Rightarrow> map_option (\<lambda>t. now + t) (if timeout = None then own_timeout else timeout))
          in await_loop pstr limit (case timeout of Some t \<Rightarrow> t | None \<Rightarrow> 0) polls (cj_id j) deadline 0 now
               (cj_document j))"

text \<open>
  The handle \<open>submit\<close> returns: \<open>refresh\<close>, \<open>result\<close> and \<open>cancel\<close>, given what comes back for the
  request they send; a completed job sends none.
\<close>

definition job_refresh :: "http_result \<Rightarrow> client_job \<Rightarrow> client_outcome option \<times> client_job" where
  "job_refresh result j =
     (if cj_completion j \<noteq> None then (None, j)
      else case result of
        CallerCancelled \<Rightarrow> (Some Unwound, j)
      | NoAnswer what \<Rightarrow> (Some (Raised (HttpError what)), j)
      | Answered status answer \<Rightarrow>
          (case fetched (cj_id j) status answer of
             Inl err \<Rightarrow> (Some (Raised err), j)
           | Inr d \<Rightarrow> (None, j\<lparr>cj_document := object_of d\<rparr>)))"

definition job_result ::
    "(json \<Rightarrow> string) \<Rightarrow> seconds \<Rightarrow> seconds option \<Rightarrow> (nat \<Rightarrow> seconds \<times> http_result) \<Rightarrow> client_job
     \<Rightarrow> seconds option \<Rightarrow> seconds \<Rightarrow> (client_outcome \<times> bool \<times> seconds) option" where
  "job_result pstr limit own_timeout polls j timeout now = await_job pstr limit own_timeout polls j timeout None now"

definition job_cancel :: "http_result \<Rightarrow> client_job \<Rightarrow> client_outcome option" where
  "job_cancel result j =
     (if cj_completion j \<noteq> None then None
      else case result of
        CallerCancelled \<Rightarrow> Some Unwound
      | NoAnswer what \<Rightarrow> Some (Raised (HttpError what))
      | Answered status answer \<Rightarrow>
          if status \<in> {200, 404} then None else Some (Raised (TransportError status answer)))"

text \<open>
  \<open>run\<close>: a lost job is submitted again at most once, and only under an idempotency key. An attempt
  is what its submission took, what came back for it, and the rounds of polling after it; the result
  tells also how many submissions were sent. The last case is the unreachable end of the loop.
\<close>

definition attempts_of :: "bool \<Rightarrow> string option \<Rightarrow> nat" where
  "attempts_of resubmit_on_loss key =
     (if resubmit_on_loss \<and> key \<notin> {None, Some []} then max_attempts else 1)"

record attempt =
  at_took :: seconds
  at_submission :: http_result
  at_polls :: "nat \<Rightarrow> seconds \<times> http_result"

fun is_lost :: "client_outcome \<Rightarrow> bool" where
  "is_lost (Raised (JobLost _)) = True"
| "is_lost _ = False"

fun run_attempts ::
    "(json \<Rightarrow> string) \<Rightarrow> seconds \<Rightarrow> seconds option \<Rightarrow> registry \<Rightarrow> string \<Rightarrow> seconds option \<Rightarrow> seconds option
     \<Rightarrow> nat \<Rightarrow> attempt list \<Rightarrow> nat \<Rightarrow> seconds \<Rightarrow> (client_outcome \<times> bool \<times> seconds \<times> nat) option" where
  "run_attempts pstr limit own g m timeout deadline (Suc left) (a # as) sent now =
     (case resolve m g of
        Inl err \<Rightarrow> Some (Raised err, False, now, sent)
      | Inr base \<Rightarrow>
          let now = now + at_took a; sent = Suc sent in
          (case at_submission a of
             CallerCancelled \<Rightarrow> Some (Unwound, False, now, sent)
           | NoAnswer what \<Rightarrow> Some (Raised (HttpError what), False, now, sent)
           | Answered status answer \<Rightarrow>
               (case submitted m base status answer of
                  Inl err \<Rightarrow> Some (Raised err, False, now, sent)
                | Inr j \<Rightarrow>
                    (case await_job pstr limit own (at_polls a) j timeout deadline now of
                       None \<Rightarrow> None
                     | Some (out, cancelled, now) \<Rightarrow>
                         if is_lost out \<and> left \<noteq> 0
                         then run_attempts pstr limit own g m timeout deadline left as sent now
                         else Some (out, cancelled, now, sent)))))"
| "run_attempts pstr limit own g m timeout deadline left as sent now = None"

definition client_run ::
    "(json \<Rightarrow> string) \<Rightarrow> seconds \<Rightarrow> seconds option \<Rightarrow> registry \<Rightarrow> string \<Rightarrow> seconds option \<Rightarrow> string option
     \<Rightarrow> bool \<Rightarrow> attempt list \<Rightarrow> seconds \<Rightarrow> (client_outcome \<times> bool \<times> seconds \<times> nat) option" where
  "client_run pstr limit own g m timeout key resubmit_on_loss as now =
     run_attempts pstr limit own g m timeout (map_option (\<lambda>t. now + t) timeout)
       (attempts_of resubmit_on_loss key) as 0 now"

subsection \<open>Delays\<close>

lemma client_delay_bounds:
  assumes "1 / 20 \<le> limit"
  shows "1 / 20 \<le> client_delay limit document remaining" and "client_delay limit document remaining \<le> limit"
    and "client_delay limit document (Some left) \<le> max (1 / 20) left"
  using assms by (auto simp: client_delay_def Let_def min_poll_seconds_def split: option.splits)

lemma client_delay_advice:
  assumes "number_of (payload_get document ''retry_after'') = Some advice"
  shows "client_delay limit document remaining \<le> max (1 / 20) advice"
  using assms by (auto simp: client_delay_def Let_def min_poll_seconds_def split: option.splits)

lemma finished_outcome_plain:
  "finished_outcome pstr i document = Some out \<Longrightarrow> out \<noteq> Raised (RequestTimeout i timeout) \<and> out \<noteq> Unwound"
  by (auto simp: finished_outcome_def Let_def split: if_splits option.splits)

lemma fetched_plain: "fetched i status answer = Inl err \<Longrightarrow> err \<noteq> RequestTimeout i timeout"
  by (auto simp: fetched_def split: if_splits)

subsection \<open>Waiting under a deadline\<close>

lemma await_loop_until:
  assumes "1 / 20 \<le> limit" and "\<And>k. 0 \<le> fst (polls k)" and "\<And>k. fst (polls k) \<le> extra"
    and "d - now \<le> of_nat n / 20"
  shows "\<exists>out cancelled t. await_loop pstr limit timeout polls i (Some d) k now document = Some (out, cancelled, t)
    \<and> now \<le> t \<and> t \<le> max now (d + 1 / 20 + extra)
    \<and> (cancelled \<longleftrightarrow> out = Raised (RequestTimeout i timeout) \<or> out = Unwound)"
  using assms(4)
proof (induction n arbitrary: k now document)
  case 0
  then show ?case
    using finished_outcome_plain [of pstr i document _ timeout]
    by (subst await_loop.simps) (auto split: option.splits)
next
  case (Suc n)
  show ?case
  proof (cases "finished_outcome pstr i document")
    case (Some out)
    then show ?thesis
      using finished_outcome_plain [OF Some, of timeout] by (subst await_loop.simps) auto
  next
    case None
    show ?thesis
    proof (cases "d \<le> now")
      case True
      then show ?thesis using None by (subst await_loop.simps) auto
    next
      case False
      let ?w = "now + client_delay limit document (Some (d - now)) + fst (polls k)"
      note lo = client_delay_bounds(1) [OF assms(1), of document "Some (d - now)"]
        and hi = client_delay_bounds(3) [OF assms(1), of document "d - now"]
        and e = assms(2,3) [of k]
      have w: "now \<le> ?w" "?w \<le> d + 1 / 20 + extra" "d - ?w \<le> of_nat n / 20"
        using lo hi e False Suc.prems by (auto simp: field_simps max_def split: if_splits)
      have go: "await_loop pstr limit timeout polls i (Some d) k now document =
        (case snd (polls k) of CallerCancelled \<Rightarrow> Some (Unwound, True, now + fst (polls k))
         | NoAnswer what \<Rightarrow> Some (Raised (HttpError what), False, ?w)
         | Answered status answer \<Rightarrow> (case fetched i status answer of Inl err \<Rightarrow> Some (Raised err, False, ?w)
            | Inr d' \<Rightarrow> await_loop pstr limit timeout polls i (Some d) (Suc k) ?w (object_of d')))"
        using None False by (subst await_loop.simps) (simp add: Let_def)
      show ?thesis
      proof (cases "snd (polls k)")
        case (Answered status answer)
        show ?thesis
        proof (cases "fetched i status answer")
          case (Inl err)
          then show ?thesis using go Answered w fetched_plain [OF Inl] by auto
        next
          case (Inr d')
          obtain out c t where "await_loop pstr limit timeout polls i (Some d) (Suc k) ?w (object_of d') = Some (out, c, t)"
            "?w \<le> t" "t \<le> max ?w (d + 1 / 20 + extra)" "c \<longleftrightarrow> out = Raised (RequestTimeout i timeout) \<or> out = Unwound"
            using Suc.IH [OF w(3)] by blast
          then show ?thesis using go Answered Inr w by auto
        qed
      qed (use go w e False in auto)
    qed
  qed
qed


definition sample_job :: client_job where
  "sample_job = \<lparr>cj_id = ''req_1'', cj_model = ''A'', cj_base_url = ''http://sir'',
     cj_document = [(''status'', JStr ''queued''), (''retry_after'', JInt 2)], cj_completion = None\<rparr>"

definition still_queued :: "nat \<Rightarrow> seconds \<times> http_result" where
  "still_queued k = (1 / 10, Answered 200 (JObj (cj_document sample_job)))"


text \<open>A document that says so ends the wait at once, deadline or not.\<close>

lemma await_loop_finished:
  "finished_outcome pstr i document = Some out \<Longrightarrow>
   await_loop pstr limit timeout polls i deadline k now document = Some (out, False, now)"
  by (subst await_loop.simps) simp

text \<open>One more round of polling, with no deadline in the way.\<close>

lemma await_loop_polls:
  assumes "finished_outcome pstr i document = None" and "\<And>d. deadline = Some d \<Longrightarrow> now < d"
    and "snd (polls k) = Answered 200 (JObj document')"
  shows "await_loop pstr limit timeout polls i deadline k now document =
    await_loop pstr limit timeout polls i deadline (Suc k)
      (now + client_delay limit document (map_option (\<lambda>d. d - now) deadline) + fst (polls k)) document'"
  using assms by (subst await_loop.simps) (auto simp: Let_def fetched_def object_of_def split: option.splits)

subsection \<open>Submitting again\<close>

lemma run_attempts_count:
  assumes "run_attempts pstr limit own g m timeout deadline left as sent now = Some (out, c, t, n)"
  shows "n \<le> sent + left"
  using assms
proof (induction left arbitrary: as sent now)
  case 0
  then show ?case by simp
next
  case (Suc left)
  then show ?case
    by (cases as) (fastforce split: sum.splits http_result.splits option.splits if_splits prod.splits simp: Let_def)+
qed

definition lost_at_first :: "registry \<Rightarrow> string \<Rightarrow> attempt \<Rightarrow> bool" where
  "lost_at_first g m a \<longleftrightarrow> (\<exists>base status answer j k. resolve m g = Inr base
     \<and> at_submission a = Answered status answer \<and> submitted m base status answer = Inr j
     \<and> cj_completion j = None \<and> (\<exists>answer. snd (at_polls a k) = Answered 404 answer))"

lemma await_loop_lost:
  assumes "await_loop pstr limit timeout polls i deadline k now document = Some res" and "is_lost (fst res)"
  shows "\<exists>k answer. snd (polls k) = Answered 404 answer"
proof -
  have "is_lost (fst res) \<longrightarrow> (\<exists>k answer. snd (polls k) = Answered 404 answer)"
    by (rule await_loop.raw_induct
          [where P = "\<lambda>pstr limit timeout polls i deadline k now document res.
             is_lost (fst res) \<longrightarrow> (\<exists>k answer. snd (polls k) = Answered 404 answer)", OF _ assms(1)])
      (auto simp: Let_def finished_outcome_def fetched_def
        split: option.splits if_splits http_result.splits sum.splits)
  then show ?thesis using assms(2) by simp
qed

lemma await_job_timeout_returns:
  assumes "deadline = Some d" and "1 / 20 \<le> limit" and "\<And>k. 0 \<le> fst (polls k)" and "\<And>k. fst (polls k) \<le> extra"
  shows "\<exists>out c t. await_job pstr limit own polls j timeout deadline now = Some (out, c, t)"
proof (cases "cj_completion j")
  case None
  obtain n :: nat where "(d - now) * 20 \<le> of_nat n" using real_arch_simple [of "(d - now) * 20"] by blast
  then have n: "d - now \<le> of_nat n / 20" by simp
  obtain out c t where
    "await_loop pstr limit (case timeout of Some t \<Rightarrow> t | None \<Rightarrow> 0) polls (cj_id j) (Some d) 0 now (cj_document j) = Some (out, c, t)"
    using await_loop_until [where polls = polls, OF assms(2-4) n] by blast
  with None assms(1) show ?thesis by (simp add: await_job_def)
next
  case (Some answer)
  then show ?thesis by (auto simp: await_job_def)
qed

lemma run_attempts_returns:
  assumes "0 < left" and "left \<le> length as" and "1 / 20 \<le> limit"
    and "\<forall>a \<in> set as. \<forall>k. 0 \<le> fst (at_polls a k) \<and> fst (at_polls a k) \<le> extra"
  shows "\<exists>out c t n. run_attempts pstr limit own g m timeout (Some d) left as sent now = Some (out, c, t, n)"
  using assms
proof (induction left arbitrary: as sent now)
  case 0
  then show ?case by simp
next
  case (Suc left)
  obtain a as' where as: "as = a # as'" using Suc.prems(2) by (cases as) auto
  have polls: "0 \<le> fst (at_polls a k)" "fst (at_polls a k) \<le> extra" for k using Suc.prems(4) as by auto
  have aw: "\<exists>out c t. await_job pstr limit own (at_polls a) j timeout (Some d) now = Some (out, c, t)" for j now
    by (rule await_job_timeout_returns [OF refl Suc.prems(3)]) (use polls in auto)
  have IH: "left \<noteq> 0 \<Longrightarrow> \<exists>out c t n. run_attempts pstr limit own g m timeout (Some d) left as' sent now = Some (out, c, t, n)" for sent now
    using Suc.IH [of as' sent now] Suc.prems as by auto
  have fin: "\<exists>out c t n. (case await_job pstr limit own (at_polls a) j timeout (Some d) now of
       None \<Rightarrow> None
     | Some (out, cancelled, now) \<Rightarrow>
         if is_lost out \<and> left \<noteq> 0 then run_attempts pstr limit own g m timeout (Some d) left as' sent now
         else Some (out, cancelled, now, sent)) = Some (out, c, t, n)" for j sent now
  proof -
    obtain out c t where "await_job pstr limit own (at_polls a) j timeout (Some d) now = Some (out, c, t)"
      using aw by blast
    with IH show ?thesis by (cases "is_lost out \<and> left \<noteq> 0") auto
  qed
  show ?case
    unfolding as run_attempts.simps Let_def
    using fin by (auto split: sum.split http_result.split)
qed

lemma run_attempts_again:
  assumes "run_attempts pstr limit own g m timeout deadline left (a # as) sent now = Some (out, c, t, n)"
    and "Suc sent < n"
  shows "lost_at_first g m a"
proof -
  from assms obtain left' base status answer j out' c' t' where
    l: "left = Suc left'" "resolve m g = Inr base" "at_submission a = Answered status answer"
      "submitted m base status answer = Inr j"
      "await_job pstr limit own (at_polls a) j timeout deadline (now + at_took a) = Some (out', c', t')" "is_lost out'"
    by (cases left) (auto simp: Let_def split: sum.splits http_result.splits option.splits prod.splits if_splits)
  then have "cj_completion j = None" by (cases "cj_completion j") (auto simp: await_job_def)
  moreover from l(5,6) this have "\<exists>k answer. snd (at_polls a k) = Answered 404 answer"
    by (auto simp: await_job_def Let_def dest: await_loop_lost split: option.splits)
  ultimately show ?thesis using l(2-4) unfolding lost_at_first_def by blast
qed

text \<open>
  C17. A call with a timeout returns, and a lost job is not silently run again. \<open>run\<close> has an outcome
  after at most two submissions; it submits a second time only when the caller asked for that, gave
  a non-empty idempotency key, and the router answered 404 for the job of the first submission.
\<close>

theorem client_run_returns:
  assumes "timeout = Some T" and "2 \<le> length as" and "1 / 20 \<le> limit"
    and "\<forall>a \<in> set as. \<forall>k. 0 \<le> fst (at_polls a k) \<and> fst (at_polls a k) \<le> extra"
  shows "\<exists>out c t n. client_run pstr limit own g m timeout key resubmit_on_loss as now = Some (out, c, t, n)
    \<and> n \<le> 2 \<and> (n = 2 \<longrightarrow> resubmit_on_loss \<and> key \<noteq> None \<and> key \<noteq> Some [] \<and> lost_at_first g m (hd as))"
proof -
  let ?n = "attempts_of resubmit_on_loss key"
  have n: "0 < ?n" "?n \<le> 2" "?n = 2 \<Longrightarrow> resubmit_on_loss \<and> key \<noteq> None \<and> key \<noteq> Some []"
    by (auto simp: attempts_of_def max_attempts_def split: if_splits)
  obtain a as' where as: "as = a # as'" using assms(2) by (cases as) auto
  obtain out c t k where r: "run_attempts pstr limit own g m timeout (Some (now + T)) ?n as 0 now = Some (out, c, t, k)"
    using run_attempts_returns [OF n(1) _ assms(3,4)] n(2) assms(2) by fastforce
  have "k \<le> ?n" using run_attempts_count [OF r] by simp
  moreover have "k = 2 \<Longrightarrow> lost_at_first g m a" using run_attempts_again r as by simp
  ultimately show ?thesis using r n assms(1) as by (auto simp: client_run_def)
qed

definition sample_registry :: registry where
  "sample_registry = make_registry [(''A'', ''http://sir/'')] None"

definition lost_attempt :: attempt where
  "lost_attempt = \<lparr>at_took = 1, at_submission = Answered 202 (JObj [(''id'', JStr ''req_1''), (''status'', JStr ''queued'')]),
     at_polls = (\<lambda>k. (0, Answered 404 JNull))\<rparr>"

theorem client_run_returns_witness:
  "\<exists>out c t n. client_run (\<lambda>_. []) 10 None sample_registry ''A'' (Some 5) (Some ''k'') True [lost_attempt, lost_attempt] 0
      = Some (out, c, t, n)
    \<and> n \<le> 2 \<and> (n = 2 \<longrightarrow> lost_at_first sample_registry ''A'' lost_attempt)"
proof -
  have "\<forall>a \<in> set [lost_attempt, lost_attempt]. \<forall>k. 0 \<le> fst (at_polls a k) \<and> fst (at_polls a k) \<le> 0"
    by (simp add: lost_attempt_def)
  from client_run_returns [OF refl _ _ this, of 10 "\<lambda>_. []" None sample_registry "''A''" 5 "Some ''k''" True 0]
  show ?thesis by auto
qed

subsection \<open>Discovery\<close>

text \<open>What the hosts claim, and what the registry holds, as relations between tags and base URLs.\<close>

definition tags_of :: "string option list \<Rightarrow> string set" where
  "tags_of cards = {t. t \<noteq> [] \<and> Some t \<in> set cards}"

definition claims :: "host_answer list \<Rightarrow> (string \<times> string) set" where
  "claims hs = (\<Union>h \<in> set hs. tags_of (ha_cards h) \<times> {rstrip_slash (ha_url h)})"

definition table :: "registry \<Rightarrow> (string \<times> string) set" where
  "table g = Map.graph (map_of (rg_endpoints g))"

lemma single_valued_table: "single_valued (table g)"
  by (auto simp: table_def single_valued_def Map.graph_def)

lemma table_enter:
  assumes "map_of (rg_endpoints g) t \<in> {None, Some base}"
  shows "table (g\<lparr>rg_endpoints := AList.update t base (rg_endpoints g)\<rparr>) = insert (t, base) (table g)"
  using assms by (auto simp: table_def Map.graph_def update_conv' split: if_splits)

lemma tags_of_Cons:
  "tags_of (tag # tags) = (case tag of None \<Rightarrow> tags_of tags | Some t \<Rightarrow> if t = [] then tags_of tags else insert t (tags_of tags))"
  by (auto simp: tags_of_def split: option.splits)

lemma enter_cards_spec:
  "(fst (enter_cards base tags g) = None
      \<longleftrightarrow> (\<forall>t \<in> tags_of tags. map_of (rg_endpoints g) t \<in> {None, Some base}))
   \<and> (fst (enter_cards base tags g) = None \<longrightarrow>
        table (snd (enter_cards base tags g)) = table g \<union> tags_of tags \<times> {base}
        \<and> rg_default (snd (enter_cards base tags g)) = rg_default g)
   \<and> (distinct (map fst (rg_endpoints g)) \<longrightarrow> distinct (map fst (rg_endpoints (snd (enter_cards base tags g)))))"
proof (induction tags arbitrary: g)
  case Nil
  then show ?case by (simp add: tags_of_def)
next
  case (Cons tag tags)
  show ?case
  proof (cases "tag = None \<or> tag = Some []")
    case True
    then have "tags_of (tag # tags) = tags_of tags" "enter_cards base (tag # tags) g = enter_cards base tags g"
      by (auto simp: tags_of_Cons)
    then show ?thesis using Cons.IH [of g] by simp
  next
    case False
    then obtain t where t: "tag = Some t" "t \<noteq> []" by auto
    then have tags: "tags_of (tag # tags) = insert t (tags_of tags)" by (simp add: tags_of_Cons)
    let ?g = "g\<lparr>rg_endpoints := AList.update t base (rg_endpoints g)\<rparr>"
    show ?thesis
    proof (cases "map_of (rg_endpoints g) t \<in> {None, Some base}")
      case ok: True
      have go: "enter_cards base (tag # tags) g = enter_cards base tags ?g" using t ok by auto
      have look: "map_of (rg_endpoints ?g) u \<in> {None, Some base} \<longleftrightarrow> map_of (rg_endpoints g) u \<in> {None, Some base}" for u
        using ok by (auto simp: update_conv')
      show ?thesis
        unfolding go tags using Cons.IH [of ?g, unfolded look] ok table_enter [OF ok] distinct_update [of "rg_endpoints g" t base]
        by (simp add: insert_Times_insert Un_insert_left)
    next
      case bad: False
      then have "fst (enter_cards base (tag # tags) g) = Some (host_conflict t (the (map_of (rg_endpoints g) t)) base)"
        "snd (enter_cards base (tag # tags) g) = g"
        using t by auto
      then show ?thesis using tags bad by simp
    qed
  qed
qed

lemma discover_spec:
  "(fst (discover hs g) = None \<longleftrightarrow> (\<forall>h \<in> set hs. ha_status h = 200) \<and> single_valued (table g \<union> claims hs))
   \<and> (fst (discover hs g) = None \<longrightarrow> table (snd (discover hs g)) = table g \<union> claims hs
        \<and> rg_default (snd (discover hs g)) = rg_default g)
   \<and> (distinct (map fst (rg_endpoints g)) \<longrightarrow> distinct (map fst (rg_endpoints (snd (discover hs g)))))"
proof (induction hs arbitrary: g)
  case Nil
  then show ?case by (simp add: claims_def single_valued_table)
next
  case (Cons h hs)
  let ?base = "rstrip_slash (ha_url h)"
  let ?new = "tags_of (ha_cards h) \<times> {?base}"
  obtain r g' where e: "enter_cards ?base (ha_cards h) g = (r, g')" by fastforce
  have cl: "claims (h # hs) = ?new \<union> claims hs" by (simp add: claims_def)
  note sp = enter_cards_spec [of ?base "ha_cards h" g, unfolded e fst_conv snd_conv]
  show ?case
  proof (cases "ha_status h = 200 \<and> r = None")
    case True
    then have go: "discover (h # hs) g = discover hs g'" using e by simp
    from sp True have "table g' = table g \<union> ?new" "rg_default g' = rg_default g" by auto
    then show ?thesis unfolding go cl using Cons.IH [of g'] sp True by (simp add: Un_assoc)
  next
    case False
    have "\<not> single_valued (table g \<union> claims (h # hs))" if r: "r \<noteq> None"
    proof -
      from sp r obtain t u where "t \<in> tags_of (ha_cards h)" "map_of (rg_endpoints g) t = Some u" "u \<noteq> ?base"
        by auto
      then have "(t, u) \<in> table g" "(t, ?base) \<in> claims (h # hs)" "u \<noteq> ?base"
        by (auto simp: table_def Map.graph_def cl)
      then show ?thesis unfolding single_valued_def by blast
    qed
    with False e show ?thesis using sp by (cases r) auto
  qed
qed

lemma resolve_table:
  assumes "table g = table g'" and "rg_default g = rg_default g'"
    and "distinct (map fst (rg_endpoints g))" and "distinct (map fst (rg_endpoints g'))"
  shows "resolve m g = resolve m g'"
proof -
  have same: "map_of (rg_endpoints g) = map_of (rg_endpoints g')"
  proof
    fix t
    have "map_of (rg_endpoints g) t = Some u \<longleftrightarrow> map_of (rg_endpoints g') t = Some u" for u
      using assms(1) by (auto simp: table_def Map.graph_def set_eq_iff)
    then show "map_of (rg_endpoints g) t = map_of (rg_endpoints g') t"
      by (metis not_None_eq)
  qed
  have "set (map fst (rg_endpoints g)) = set (map fst (rg_endpoints g'))"
    using dom_map_of_conv_image_fst [of "rg_endpoints g"] dom_map_of_conv_image_fst [of "rg_endpoints g'"] same by simp
  then have "sort (map fst (rg_endpoints g)) = sort (map fst (rg_endpoints g'))"
    using assms(3,4) by (simp add: sorted_distinct_set_unique)
  then show ?thesis using same assms(2) by (simp add: resolve_def registry_models_def split: option.split)
qed

text \<open>
  C25. Routing does not depend on discovery order. Discovery succeeds exactly when every host answers
  200 and no tag has two base URLs, counting what was registered before; and whatever order the
  hosts are listed in, it succeeds or fails alike and, when it succeeds, routes every model alike.
\<close>

theorem discovery_order_is_irrelevant:
  assumes "mset hs = mset hs'" and "distinct (map fst (rg_endpoints g))"
  shows "(fst (discover hs g) = None \<longleftrightarrow> (\<forall>h \<in> set hs. ha_status h = 200) \<and> single_valued (table g \<union> claims hs))
    \<and> (fst (discover hs' g) = None \<longleftrightarrow> fst (discover hs g) = None)
    \<and> (fst (discover hs g) = None \<longrightarrow> resolve m (snd (discover hs g)) = resolve m (snd (discover hs' g)))"
proof -
  have s: "set hs' = set hs" using mset_eq_setD [OF assms(1)] by simp
  then have "claims hs' = claims hs" by (simp add: claims_def)
  with s discover_spec [of hs g] discover_spec [of hs' g] assms(2) show ?thesis
    by (auto intro: resolve_table)
qed

definition sample_hosts :: "host_answer list" where
  "sample_hosts =
     [\<lparr>ha_url = ''http://a/'', ha_status = 200, ha_text = [], ha_cards = [Some ''A'', None]\<rparr>,
      \<lparr>ha_url = ''http://b'', ha_status = 200, ha_text = [], ha_cards = [Some ''B'']\<rparr>]"

theorem discovery_order_is_irrelevant_witness:
  "resolve ''A'' (snd (discover (rev sample_hosts) (make_registry [] None))) = Inr ''http://a''"
proof -
  have "fst (discover sample_hosts (make_registry [] None)) = None"
    "resolve ''A'' (snd (discover sample_hosts (make_registry [] None))) = Inr ''http://a''" by code_simp+
  with discovery_order_is_irrelevant [of sample_hosts "rev sample_hosts" "make_registry [] None" "''A''"]
  show ?thesis by (simp add: make_registry_def)
qed

subsection \<open>Where the client is not exact\<close>

text \<open>
  A poll can sleep past the deadline: with less than the minimal interval left, the client sleeps
  the whole interval.
\<close>

theorem sleep_can_pass_the_deadline:
  assumes "0 < left" and "left < 1 / 20" and "1 / 20 \<le> limit"
  shows "left < client_delay limit document (Some left)"
  using client_delay_bounds(1) [OF assms(3), of document "Some left"] assms(2) by simp

text \<open>A timeout that is the client's own default is reported as one of zero seconds.\<close>

theorem default_timeout_reported_as_zero:
  "await_job (\<lambda>_. []) 10 (Some 3) still_queued sample_job None None 0
     = Some (Raised (RequestTimeout ''req_1'' 0), True, 31 / 10)"
  by code_simp

end
