(* ===== verification/Sir_Client_App.thy ===== *)
theory Sir_Client_App
  imports Sir_Stream Sir_Client
begin

text \<open>
  The Python client against the router. The job documents of \<open>schemas.py\<close> are rendered as pydantic
  renders them, field by field (\<open>created\<close> is the time of rendering), and read by the client's
  polling loop: what a call returns is what the router made of the request, and the cadence of the
  client keeps the lease of its job.
\<close>

subsection \<open>Documents on the wire\<close>

definition usage_json :: "usage_counts \<Rightarrow> json" where
  "usage_json u = JObj [(''prompt_tokens'', JInt (us_prompt_tokens u)),
     (''completion_tokens'', JInt (us_completion_tokens u)), (''total_tokens'', JInt (us_total_tokens u))]"

definition response_json :: "int \<Rightarrow> chat_response \<Rightarrow> json" where
  "response_json created r =
     JObj [(''id'', JStr (rp_id r)), (''object'', JStr ''chat.completion''), (''created'', JInt created),
       (''model'', JStr (rp_model r)),
       (''choices'', JList [JObj [(''index'', JInt 0),
          (''message'', JObj [(''role'', JStr ''assistant''), (''content'', JStr (rp_content r))]),
          (''finish_reason'', JStr (rp_finish_reason r))]]),
       (''usage'', usage_json (rp_usage r))]"

definition wait_json :: "wait_info \<Rightarrow> json" where
  "wait_json w =
     JObj [(''position'', JInt (int (wi_position w))), (''resident'', JBool (wi_resident w)),
       (''needs_swap'', JBool (wi_needs_swap w)), (''load_seconds'', JFloat (wi_load_seconds w)),
       (''dispatch_within_seconds'', (case wi_dispatch_within_seconds w of None \<Rightarrow> JNull | Some s \<Rightarrow> JFloat s)),
       (''estimated_seconds'', JFloat (wi_estimated_seconds w))]"

text \<open>The inner object of the error envelope.\<close>

definition error_inner :: "error_info \<Rightarrow> json" where
  "error_inner err = payload_get (error_json err) ''error''"

definition document_json :: "int \<Rightarrow> job_document \<Rightarrow> (string \<times> json) list" where
  "document_json created d =
     [(''id'', JStr (jd_id d)), (''object'', JStr ''sir.job''), (''status'', JStr (jd_status d)),
      (''model'', JStr (jd_model d)), (''created'', JInt created),
      (''wait'', (case jd_wait d of None \<Rightarrow> JNull | Some w \<Rightarrow> wait_json w)),
      (''retry_after'', JFloat (jd_retry_after d)),
      (''response'', (case jd_response d of None \<Rightarrow> JNull | Some r \<Rightarrow> response_json created r)),
      (''error'', (case jd_error d of None \<Rightarrow> JNull | Some err \<Rightarrow> error_inner err))]"

lemma document_json_lookup:
  "map_of (document_json created d) ''status'' = Some (JStr (jd_status d))"
  "map_of (document_json created d) ''response'' = Some (case jd_response d of None \<Rightarrow> JNull | Some r \<Rightarrow> response_json created r)"
  "payload_get (document_json created d) ''error'' = (case jd_error d of None \<Rightarrow> JNull | Some err \<Rightarrow> error_inner err)"
  "payload_get (document_json created d) ''retry_after'' = JFloat (jd_retry_after d)"
  by (simp_all add: document_json_def payload_get_def)

lemma document_json_status: "document_status pstr (document_json created d) = jd_status d"
  by (simp add: document_status_def document_json_lookup)

text \<open>What a call of the client returns for a final document.\<close>

definition router_outcome :: "int \<Rightarrow> job_document \<Rightarrow> client_outcome" where
  "router_outcome created d =
     (case jd_response d of
        Some r \<Rightarrow> Answer (response_json created r)
      | None \<Rightarrow>
          if jd_status d = ''cancelled'' then Raised (JobCancelled (jd_id d))
          else Raised (JobFailed (jd_id d) (case jd_error d of None \<Rightarrow> JNull | Some err \<Rightarrow> error_inner err)))"

definition final_document :: "job_document \<Rightarrow> bool" where
  "final_document d \<longleftrightarrow> jd_status d \<in> {''done'', ''failed'', ''cancelled''}"

subsection \<open>Reading the router's documents\<close>

lemma got_document:
  assumes "app_reachable c t0 a" and "api_get_job i a = Inr (ReplyDocument d, a')"
  obtains j where "map_of (js_jobs (ap_jobs a)) i = Some j"
    and "document (ap_engine a) (poll (eng_now (ap_engine a)) (eng_store (ap_engine a)) j) (ac_jobs c) = Inr d"
    and "jb_id j = i"
proof -
  have inv: "app_inv c a" by (rule app_reachable_inv [OF assms(1)])
  then have cfg: "jobs_settings a = ac_jobs c" by (auto simp: app_inv_def engine_inv_def inv_at_def)
  from assms(2) obtain j where j: "map_of (js_jobs (ap_jobs a)) i = Some j"
    "document (ap_engine a) (poll (eng_now (ap_engine a)) (eng_store (ap_engine a)) j) (ac_jobs c) = Inr d"
    using cfg by (auto simp: api_get_job_def get_job_def job_reply_def split: prod.splits option.splits sum.splits)
  have "job_ok (eng_store (ap_engine a)) i j"
    using inv jobs_invD(2) map_of_SomeD [OF j(1)] by (auto simp: app_inv_def)
  then show thesis using that j job_ok_id by blast
qed

lemma got_document_shape:
  assumes "app_reachable c t0 a" and "api_get_job i a = Inr (ReplyDocument d, a')"
  shows "jd_id d = i" and "jd_response d \<noteq> None \<longleftrightarrow> jd_status d = ''done''"
proof -
  from got_document [OF assms] obtain j where j: "jb_id j = i"
    "document (ap_engine a) (poll (eng_now (ap_engine a)) (eng_store (ap_engine a)) j) (ac_jobs c) = Inr d" by blast
  let ?p = "poll (eng_now (ap_engine a)) (eng_store (ap_engine a)) j"
  have d: "jd_id d = jb_id ?p" "jd_status d = request_state_value (job_state (eng_store (ap_engine a)) ?p)"
    "jd_response d = job_response (eng_store (ap_engine a)) ?p"
    using j(2) by (auto simp: document_def split: sum.splits if_splits)
  show "jd_id d = i" using d(1) j(1) by (simp add: poll_def Let_def)
  show "jd_response d \<noteq> None \<longleftrightarrow> jd_status d = ''done''"
    unfolding d(2,3) job_response_def by (cases "job_state (eng_store (ap_engine a)) ?p") auto
qed

lemma client_reads:
  assumes "app_reachable c t0 a" and "api_get_job i a = Inr (ReplyDocument d, a')"
  shows "finished_outcome pstr i (document_json created d) =
    (if final_document d then Some (router_outcome created d) else None)"
  using got_document_shape [OF assms]
  by (cases "jd_response d")
    (auto simp: finished_outcome_def Let_def document_json_status document_json_lookup final_document_def router_outcome_def)



text \<open>
  C15. The client's cadence keeps its lease. The client waits between polls as the document advises,
  but never less than a twentieth of a second; with a lease of at least a tenth, a sweep before the
  next poll leaves the unfinished job and its request alone.
\<close>

theorem client_cadence_keeps_the_lease:
  assumes "app_reachable c t0 a" and "api_get_job i a = Inr (ReplyDocument d, a1)"
    and "app_reachable c t0 a2" and "map_of (js_jobs (ap_jobs a2)) i = Some j"
    and "eng_now (ap_engine a) \<le> jb_last_polled_at j"
    and "eng_now (ap_engine a2) \<le> eng_now (ap_engine a) + client_delay limit (document_json created d) remaining"
    and "\<not> is_terminal (eng_store (ap_engine a2)) j" and "1 / 10 \<le> jc_lease_seconds (ac_jobs c)"
  shows "map_of (js_jobs (ap_jobs (sweep_app a2))) i = Some j
    \<and> eng_store (ap_engine (sweep_app a2)) i = eng_store (ap_engine a2) i"
proof (rule polled_recently_kept [OF assms(3-6) _ assms(7)])
  have "client_delay limit (document_json created d) remaining \<le> max (1 / 20) (jd_retry_after d)"
    by (rule client_delay_advice) (simp add: document_json_lookup)
  with advice_within_lease [OF assms(1,2)] assms(8)
  show "jc_lease_seconds (ac_jobs c) = 0
      \<or> client_delay limit (document_json created d) remaining \<le> jc_lease_seconds (ac_jobs c) / 2"
    by (auto simp: max_def split: if_splits)
qed

theorem client_cadence_keeps_the_lease_witness:
  "\<exists>a2 j. map_of (js_jobs (ap_jobs a2)) ''1'' = Some j \<and> eng_now (ap_engine a2) = 2
     \<and> map_of (js_jobs (ap_jobs (sweep_app a2))) ''1'' = Some j"
proof -
  let ?a = "app_after waiting_run" and ?a2 = "app_after (waiting_run @ [Get_job ''1'', Engine_moves [Pass 2]])"
  have "(case (api_get_job ''1'' ?a, map_of (js_jobs (ap_jobs ?a2)) ''1'') of
      (Inr (ReplyDocument d, _), Some j) \<Rightarrow> eng_now (ap_engine ?a) \<le> jb_last_polled_at j
        \<and> eng_now (ap_engine ?a2) = 2 \<and> 2 \<le> eng_now (ap_engine ?a) + client_delay 10 (document_json 0 d) None
        \<and> \<not> is_terminal (eng_store (ap_engine ?a2)) j \<and> 1 / 10 \<le> jc_lease_seconds (ac_jobs example_config)
    | _ \<Rightarrow> False)" by code_simp
  then obtain d a1 j where "api_get_job ''1'' ?a = Inr (ReplyDocument d, a1)" "map_of (js_jobs (ap_jobs ?a2)) ''1'' = Some j"
    "eng_now (ap_engine ?a) \<le> jb_last_polled_at j" "eng_now (ap_engine ?a2) = 2"
    "2 \<le> eng_now (ap_engine ?a) + client_delay 10 (document_json 0 d) None"
    "\<not> is_terminal (eng_store (ap_engine ?a2)) j" "1 / 10 \<le> jc_lease_seconds (ac_jobs example_config)"
    by (auto split: option.splits sum.splits prod.splits reply.splits)
  with client_cadence_keeps_the_lease [OF app_after_reachable this(1) app_after_reachable this(2), where limit = 10 and created = 0 and remaining = None]
  show ?thesis by auto
qed

end
