(* ===== verification/Sir_Session.thy ===== *)
theory Sir_Session
  imports Sir_Client
begin

text \<open>
  The client object of \<open>sir_client/client.py\<close>: how it is made and closed, what \<open>submit\<close> sends and
  returns, and the shared client behind the module functions of \<open>sir_client/__init__.py\<close>. What the
  environment variables hold is an argument of every call that may read them.
\<close>

subsection \<open>The client object\<close>

record async_client =
  as_registry :: registry
  as_timeout :: "seconds option"
  as_max_poll :: seconds
  as_owns_http :: bool
  as_http_open :: bool

definition make_client ::
    "registry option \<Rightarrow> (string \<times> string) list \<Rightarrow> string option \<Rightarrow> bool \<Rightarrow> seconds option \<Rightarrow> seconds
     \<Rightarrow> (string \<Rightarrow> string option) \<Rightarrow> client_error + async_client" where
  "make_client given endpoints url http_given timeout limit env =
     (case client_registry given endpoints url env of
        Inl err \<Rightarrow> Inl err
      | Inr g \<Rightarrow> Inr \<lparr>as_registry = g, as_timeout = timeout, as_max_poll = limit,
          as_owns_http = (\<not> http_given), as_http_open = True\<rparr>)"

definition client_aclose :: "async_client \<Rightarrow> async_client" where
  "client_aclose c = (if as_owns_http c then c\<lparr>as_http_open := False\<rparr> else c)"

text \<open>\<open>Job.wait\<close>: the router's account of the wait, \<open>None\<close> where the document has none.\<close>

definition job_wait :: "client_job \<Rightarrow> json" where
  "job_wait j = payload_get (cj_document j) ''wait''"

text \<open>\<open>async with client\<close>: the client is closed whatever the body comes to.\<close>

definition with_client :: "(async_client \<Rightarrow> 'a) \<Rightarrow> async_client \<Rightarrow> 'a \<times> async_client" where
  "with_client body c = (body c, client_aclose c)"

subsection \<open>Submitting\<close>

definition submit_url :: "string \<Rightarrow> string" where
  "submit_url base = base @ ''/v1/chat/completions''"

definition job_url :: "string \<Rightarrow> string \<Rightarrow> string" where
  "job_url base i = base @ ''/v1/jobs/'' @ i"

text \<open>What \<open>submit\<close> sends, once the model has a host: the URL, the body and the headers.\<close>

definition submission ::
    "registry \<Rightarrow> string \<Rightarrow> (string \<times> json) list \<Rightarrow> string option
     \<Rightarrow> client_error + string \<times> (string \<times> json) list \<times> (string \<times> string) list" where
  "submission g m body key =
     (case resolve m g of
        Inl err \<Rightarrow> Inl err
      | Inr base \<Rightarrow> Inr (submit_url base, submit_body m body, submit_headers key))"

text \<open>And what it makes of what comes back. A closed HTTP client sends nothing.\<close>

definition http_exchange :: "async_client \<Rightarrow> http_result \<Rightarrow> http_result" where
  "http_exchange c result = (if as_http_open c then result else NoAnswer ''client has been closed'')"

definition client_submit :: "async_client \<Rightarrow> string \<Rightarrow> http_result \<Rightarrow> client_outcome + client_job" where
  "client_submit c m result =
     (case resolve m (as_registry c) of
        Inl err \<Rightarrow> Inl (Raised err)
      | Inr base \<Rightarrow>
          (case http_exchange c result of
             CallerCancelled \<Rightarrow> Inl Unwound
           | NoAnswer what \<Rightarrow> Inl (Raised (HttpError what))
           | Answered status answer \<Rightarrow>
               (case submitted m base status answer of Inl err \<Rightarrow> Inl (Raised err) | Inr j \<Rightarrow> Inr j)))"

definition over_http :: "async_client \<Rightarrow> attempt \<Rightarrow> attempt" where
  "over_http c a = a\<lparr>at_submission := http_exchange c (at_submission a),
     at_polls := (\<lambda>k. (fst (at_polls a k), http_exchange c (snd (at_polls a k))))\<rparr>"

definition session_run ::
    "(json \<Rightarrow> string) \<Rightarrow> async_client \<Rightarrow> string \<Rightarrow> seconds option \<Rightarrow> string option \<Rightarrow> bool \<Rightarrow> attempt list \<Rightarrow> seconds
     \<Rightarrow> (client_outcome \<times> bool \<times> seconds \<times> nat) option" where
  "session_run pstr c m timeout key resubmit_on_loss as now =
     client_run pstr (as_max_poll c) (as_timeout c) (as_registry c) m timeout key resubmit_on_loss
       (map (over_http c) as) now"

text \<open>\<open>run\<close> is \<open>submit\<close> and the wait for the job: an attempt whose submission fails ends there.\<close>

lemma session_run_submits:
  assumes "client_submit c m (at_submission a) = Inl out" and "resolve m (as_registry c) = Inr base"
  shows "session_run pstr c m timeout key False (a # as) now = Some (out, False, now + at_took a, 1)"
  using assms
  by (auto simp: session_run_def client_run_def attempts_of_def client_submit_def over_http_def
      split: sum.splits http_result.splits)

lemma session_run_waits:
  assumes "client_submit c m (at_submission a) = Inr j" and "as_http_open c"
    and "await_job pstr (as_max_poll c) (as_timeout c) (at_polls a) j timeout (map_option (\<lambda>t. now + t) timeout)
           (now + at_took a) = Some (out, cancelled, t)"
  shows "session_run pstr c m timeout key False (a # as) now = Some (out, cancelled, t, 1)"
  using assms
  by (auto simp: session_run_def client_run_def attempts_of_def client_submit_def over_http_def http_exchange_def
      split: sum.splits http_result.splits)

text \<open>
  A client that opened its own HTTP connection closes it, once, and one that was given it leaves it
  open; after that nothing is sent any more.
\<close>

theorem session_closes_what_it_opened:
  assumes "make_client given endpoints url http_given timeout limit env = Inr c"
  shows "as_http_open (snd (with_client body c)) = http_given
    \<and> (\<forall>m result base. resolve m (as_registry c) = Inr base \<longrightarrow> \<not> http_given \<longrightarrow>
        client_submit (snd (with_client body c)) m result = Inl (Raised (HttpError ''client has been closed'')))"
  using assms
  by (auto simp: make_client_def with_client_def client_aclose_def client_submit_def http_exchange_def split: sum.splits)

theorem session_closes_what_it_opened_witness:
  "\<exists>c. make_client None [(''a'', ''http://h'')] None False None 10 (\<lambda>_. None) = Inr c
     \<and> \<not> as_http_open (snd (with_client (\<lambda>_. ()) c))"
proof -
  have "case make_client None [(''a'', ''http://h'')] None False None 10 (\<lambda>_. None) of Inr c \<Rightarrow> True | Inl _ \<Rightarrow> False"
    by code_simp
  then obtain c where c: "make_client None [(''a'', ''http://h'')] None False None 10 (\<lambda>_. None) = Inr c"
    by (auto split: sum.splits)
  with session_closes_what_it_opened [OF c] show ?thesis by blast
qed

subsection \<open>Cancelling\<close>

text \<open>
  \<open>_cancel\<close>: what comes of the DELETE. On the way out of a wait it is sent quietly: \<open>_swallow\<close> takes
  every exception, and the shield around it also the cancellation.
\<close>

fun delete_outcome :: "http_result \<Rightarrow> client_outcome option" where
  "delete_outcome CallerCancelled = Some Unwound"
| "delete_outcome (NoAnswer what) = Some (Raised (HttpError what))"
| "delete_outcome (Answered status answer) =
     (if status \<in> {200, 404} then None else Some (Raised (TransportError status answer)))"

definition swallow :: "client_outcome option \<Rightarrow> client_outcome option" where
  "swallow out = (case out of Some (Raised err) \<Rightarrow> None | _ \<Rightarrow> out)"

definition cancel_quietly :: "http_result \<Rightarrow> client_outcome option" where
  "cancel_quietly result = (case swallow (delete_outcome result) of Some Unwound \<Rightarrow> None | out \<Rightarrow> out)"

lemma cancel_quietly_None: "cancel_quietly result = None"
  by (cases result) (auto simp: cancel_quietly_def swallow_def)

lemma job_cancel_deletes: "job_cancel result j = (if cj_completion j \<noteq> None then None else delete_outcome result)"
  by (cases result) (simp_all add: job_cancel_def)

subsection \<open>The shared client\<close>

text \<open>\<open>_default\<close>, built by the first call that finds the environment in order.\<close>

definition default_client ::
    "(string \<Rightarrow> string option) \<Rightarrow> async_client option \<Rightarrow> (client_error + async_client) \<times> async_client option" where
  "default_client env d =
     (case d of
        Some c \<Rightarrow> (Inr c, d)
      | None \<Rightarrow>
          (case make_client None [] None False None max_poll_seconds env of
             Inl err \<Rightarrow> (Inl err, None)
           | Inr c \<Rightarrow> (Inr c, Some c)))"

text \<open>\<open>close_default_client\<close>: the client it closed, if there was one, and the new value.\<close>

definition close_default_client :: "async_client option \<Rightarrow> async_client option \<times> async_client option" where
  "close_default_client d = (map_option client_aclose d, None)"

definition run_llm ::
    "(json \<Rightarrow> string) \<Rightarrow> (string \<Rightarrow> string option) \<Rightarrow> async_client option \<Rightarrow> string \<Rightarrow> seconds option \<Rightarrow> string option
     \<Rightarrow> bool \<Rightarrow> attempt list \<Rightarrow> seconds \<Rightarrow> (client_outcome \<times> bool \<times> seconds \<times> nat) option \<times> async_client option" where
  "run_llm pstr env d m timeout key resubmit_on_loss as now =
     (case default_client env d of
        (Inl err, d) \<Rightarrow> (Some (Raised err, False, now, 0), d)
      | (Inr c, d) \<Rightarrow> (session_run pstr c m timeout key resubmit_on_loss as now, d))"

definition submit_llm ::
    "(string \<Rightarrow> string option) \<Rightarrow> async_client option \<Rightarrow> string \<Rightarrow> http_result
     \<Rightarrow> (client_outcome + client_job) \<times> async_client option" where
  "submit_llm env d m result =
     (case default_client env d of
        (Inl err, d) \<Rightarrow> (Inl (Raised err), d)
      | (Inr c, d) \<Rightarrow> (client_submit c m result, d))"

text \<open>A script: calls in the environments of their times, and closes.\<close>

datatype script_call = UseDefault "string \<Rightarrow> string option" | CloseDefault

fun script :: "script_call list \<Rightarrow> async_client option \<Rightarrow> (client_error + async_client) list \<times> async_client option" where
  "script [] d = ([], d)"
| "script (UseDefault env # cs) d =
     (case default_client env d of (r, d) \<Rightarrow> case script cs d of (rs, d) \<Rightarrow> (r # rs, d))"
| "script (CloseDefault # cs) d = script cs (snd (close_default_client d))"

lemma script_shared: "script (map UseDefault envs) (Some c) = (replicate (length envs) (Inr c), Some c)"
  by (induction envs) (simp_all add: default_client_def)

lemma script_append: "script (as @ bs) d =
   (case script as d of (rs, d) \<Rightarrow> case script bs d of (ss, d) \<Rightarrow> (rs @ ss, d))"
  by (induction as d rule: script.induct) (auto split: prod.split)

text \<open>
  The shared client is built once: the first call that finds the environment in order fixes the
  endpoints, and every later call uses the same open client whatever the variables say by then,
  until it is closed; the call after that reads the environment anew.
\<close>

theorem default_client_is_built_once:
  assumes "from_env env = Inr g" and "from_env env' = Inr g'"
  shows "\<exists>c c'. fst (script (UseDefault env # map UseDefault envs @ [CloseDefault, UseDefault env']) None)
      = replicate (Suc (length envs)) (Inr c) @ [Inr c']
    \<and> as_registry c = g \<and> as_http_open c \<and> as_registry c' = g' \<and> as_http_open c'"
proof -
  have built: "\<exists>c. default_client x None = (Inr c, Some c) \<and> as_registry c = h \<and> as_http_open c"
    if "from_env x = Inr h" for x h
    using that by (simp add: default_client_def make_client_def client_registry_def)
  from built [OF assms(1)] built [OF assms(2)] show ?thesis
    by (auto simp: script_append script_shared close_default_client_def)
qed

theorem default_client_is_built_once_witness:
  "\<exists>c c'. fst (script (UseDefault (\<lambda>_. Some ''a=http://h'') # map UseDefault [\<lambda>_. None]
       @ [CloseDefault, UseDefault (\<lambda>_. None)]) None) = [Inr c, Inr c, Inr c'] \<and> rg_endpoints (as_registry c) \<noteq> []
     \<and> rg_endpoints (as_registry c') = []"
proof -
  have "case from_env (\<lambda>_. Some ''a=http://h'') of Inr g \<Rightarrow> rg_endpoints g \<noteq> [] | Inl _ \<Rightarrow> False"
    "case from_env (\<lambda>_. None) of Inr g \<Rightarrow> rg_endpoints g = [] | Inl _ \<Rightarrow> False" by code_simp+
  then obtain g g' where g: "from_env (\<lambda>_. Some ''a=http://h'') = Inr g" "rg_endpoints g \<noteq> []"
    "from_env (\<lambda>_. None) = Inr g'" "rg_endpoints g' = []" by (auto split: sum.splits)
  from default_client_is_built_once [OF g(1,3), of "[\<lambda>_. None]"] g(2,4) show ?thesis by auto
qed

end
