(* ===== verification/Sir_Clock.thy ===== *)
theory Sir_Clock
  imports Sir_Prelude "HOL-Library.Product_Lexorder"
begin

text \<open>
  The virtual clock of \<open>src/src/sir/clock.py\<close>. Sleepers are (deadline, sequence number) pairs; the
  heap is kept as the sorted list it stands for, so \<open>heappush\<close> inserts and \<open>heappop\<close> takes the
  head. What the tasks do while the clock lets them run (\<open>settle\<close>) is a list of actions that may
  depend on everything the clock shows: sleeping, and leaving a sleep by cancellation. A wakeup is
  logged with the time it happened and the deadline it was for. \<open>vc_done\<close> are the sleepers whose
  futures are done before the clock fires them: cancelled, and not yet discarded.
\<close>

subsection \<open>State\<close>

record vclock =
  vc_now :: seconds
  vc_sleepers :: "(seconds \<times> nat) list"
  vc_seq :: nat
  vc_done :: "nat list"
  vc_woken :: "(seconds \<times> seconds \<times> nat) list"

definition init_clock :: "seconds \<Rightarrow> vclock" where
  "init_clock start = \<lparr>vc_now = start, vc_sleepers = [], vc_seq = 0, vc_done = [], vc_woken = []\<rparr>"

text \<open>\<open>sleep\<close> up to its await; without a positive duration it only yields.\<close>

definition clock_sleep :: "seconds \<Rightarrow> vclock \<Rightarrow> vclock" where
  "clock_sleep s c =
     (if s \<le> 0 then c
      else c\<lparr>vc_sleepers := insort (vc_now c + s, vc_seq c) (vc_sleepers c), vc_seq := Suc (vc_seq c)\<rparr>)"

text \<open>A cancelled sleeper: its future is done at once, its entry goes when its task runs.\<close>

definition cancel_sleeper :: "nat \<Rightarrow> vclock \<Rightarrow> vclock" where
  "cancel_sleeper n c = c\<lparr>vc_done := n # vc_done c\<rparr>"

definition discard_sleeper :: "nat \<Rightarrow> vclock \<Rightarrow> vclock" where
  "discard_sleeper n c = c\<lparr>vc_sleepers := filter (\<lambda>e. snd e \<noteq> n) (vc_sleepers c)\<rparr>"

datatype action = Sleep seconds | Cancel nat | Discard nat

fun act :: "action \<Rightarrow> vclock \<Rightarrow> vclock" where
  "act (Sleep s) c = clock_sleep s c"
| "act (Cancel n) c = cancel_sleeper n c"
| "act (Discard n) c = (if n \<in> set (vc_done c) then discard_sleeper n c else c)"

definition settle :: "(vclock \<Rightarrow> action list) \<Rightarrow> vclock \<Rightarrow> vclock" where
  "settle tasks c = fold act (tasks c) c"

subsection \<open>Advancing\<close>

text \<open>Everything due at the present instant wakes, in the order of deadline and registration.\<close>

fun fire_due :: "seconds \<Rightarrow> nat list \<Rightarrow> (seconds \<times> nat) list \<Rightarrow> (seconds \<times> seconds \<times> nat) list \<times> (seconds \<times> nat) list" where
  "fire_due now gone [] = ([], [])"
| "fire_due now gone ((d, n) # es) =
     (if d \<le> now
      then (case fire_due now gone es of (woken, rest) \<Rightarrow> (if n \<in> set gone then woken else (now, d, n) # woken, rest))
      else ([], (d, n) # es))"

definition fire :: "vclock \<Rightarrow> vclock" where
  "fire c =
     (let now = max (vc_now c) (fst (hd (vc_sleepers c)))
      in case fire_due now (vc_done c) (vc_sleepers c) of
        (woken, rest) \<Rightarrow> c\<lparr>vc_now := now, vc_sleepers := rest, vc_woken := vc_woken c @ woken\<rparr>)"

partial_function (option) advance_loop :: "(vclock \<Rightarrow> action list) \<Rightarrow> seconds \<Rightarrow> vclock \<Rightarrow> vclock option" where
  "advance_loop tasks target c =
     (if vc_sleepers c \<noteq> [] \<and> fst (hd (vc_sleepers c)) \<le> target
      then advance_loop tasks target (settle tasks (fire c))
      else Some (settle tasks (c\<lparr>vc_now := max (vc_now c) target\<rparr>)))"

declare advance_loop.simps [code]

definition advance_to :: "(vclock \<Rightarrow> action list) \<Rightarrow> seconds \<Rightarrow> vclock \<Rightarrow> vclock option" where
  "advance_to tasks target c = advance_loop tasks target (settle tasks c)"

definition advance :: "(vclock \<Rightarrow> action list) \<Rightarrow> seconds \<Rightarrow> vclock \<Rightarrow> vclock option" where
  "advance tasks s c = advance_to tasks (vc_now c + s) c"

text \<open>The new time is \<open>None\<close> when no sleeper is left to wake.\<close>

definition advance_to_next :: "(vclock \<Rightarrow> action list) \<Rightarrow> vclock \<Rightarrow> (seconds option \<times> vclock) option" where
  "advance_to_next tasks c =
     (let c = settle tasks c in
      if vc_sleepers c = [] then Some (None, c)
      else map_option (\<lambda>c. (Some (vc_now c), c)) (advance_to tasks (fst (hd (vc_sleepers c))) c))"

definition pending_wakeups :: "vclock \<Rightarrow> nat" where
  "pending_wakeups c = length (vc_sleepers c)"

subsection \<open>The invariant\<close>

definition clock_ok :: "vclock \<Rightarrow> bool" where
  "clock_ok c \<longleftrightarrow> sorted (vc_sleepers c) \<and> (\<forall>e \<in> set (vc_sleepers c). vc_now c < fst e)
     \<and> sorted (map fst (vc_woken c)) \<and> (\<forall>(t, d, n) \<in> set (vc_woken c). t = d \<and> t \<le> vc_now c)"

lemma act_ok: "clock_ok c \<Longrightarrow> clock_ok (act a c)"
  by (cases a) (auto simp: clock_ok_def clock_sleep_def cancel_sleeper_def discard_sleeper_def sorted_insort
      set_insort_key sorted_wrt_filter)

lemma act_now [simp]: "vc_now (act a c) = vc_now c"
  by (cases a) (auto simp: clock_sleep_def cancel_sleeper_def discard_sleeper_def)

lemma act_woken [simp]: "vc_woken (act a c) = vc_woken c"
  by (cases a) (auto simp: clock_sleep_def cancel_sleeper_def discard_sleeper_def)

lemma settle_ok: "clock_ok c \<Longrightarrow> clock_ok (settle tasks c)"
proof -
  have "clock_ok c \<Longrightarrow> clock_ok (fold act as c)" for as c
    by (induction as arbitrary: c) (simp_all add: act_ok)
  then show "clock_ok c \<Longrightarrow> clock_ok (settle tasks c)" by (simp add: settle_def)
qed

lemma settle_same [simp]: "vc_now (settle tasks c) = vc_now c" "vc_woken (settle tasks c) = vc_woken c"
proof -
  have "vc_now (fold act as c) = vc_now c \<and> vc_woken (fold act as c) = vc_woken c" for as c
    by (induction as arbitrary: c) simp_all
  then show "vc_now (settle tasks c) = vc_now c" "vc_woken (settle tasks c) = vc_woken c"
    by (simp_all add: settle_def)
qed

lemma sorted_deadlines: "sorted ((d, n) # es) \<Longrightarrow> e \<in> set es \<Longrightarrow> d \<le> fst e"
  by (cases e) (auto simp: less_eq_prod_def)

lemma fire_due_sorted:
  assumes "sorted es"
  shows "fire_due now gone es =
    (map (\<lambda>e. (now, e)) (filter (\<lambda>e. fst e \<le> now \<and> snd e \<notin> set gone) es), filter (\<lambda>e. now < fst e) es)"
  using assms
proof (induction es)
  case Nil
  then show ?case by simp
next
  case (Cons e es)
  obtain d n where e: "e = (d, n)" by fastforce
  show ?case
  proof (cases "d \<le> now")
    case True
    then show ?thesis using Cons e by simp
  next
    case False
    then have "\<forall>x \<in> set es. now < fst x" using sorted_deadlines Cons.prems unfolding e by force
    then have "filter (\<lambda>x. now < fst x) es = es" "filter (\<lambda>x. fst x \<le> now \<and> snd x \<notin> set gone) es = []"
      by (auto simp: filter_empty_conv)
    then show ?thesis using False e by simp
  qed
qed

text \<open>What one round of \<open>advance_to\<close> fires: everyone with the earliest deadline, at that time.\<close>

lemma fire_at_deadline:
  assumes "clock_ok c" and "vc_sleepers c = (d, n) # es"
  shows "vc_now (fire c) = d" and "vc_sleepers (fire c) = filter (\<lambda>e. d < fst e) es"
    and "vc_woken (fire c) = vc_woken c
      @ map (\<lambda>e. (d, e)) (filter (\<lambda>e. fst e = d \<and> snd e \<notin> set (vc_done c)) (vc_sleepers c))"
    and "vc_now c < d"
proof -
  have s: "sorted ((d, n) # es)" and d: "vc_now c < d"
    using assms by (auto simp: clock_ok_def)
  have "fst e \<le> d \<longleftrightarrow> fst e = d" if "e \<in> set ((d, n) # es)" for e
    using sorted_deadlines [OF s] that by fastforce
  then have eq: "filter (\<lambda>e. fst e \<le> d \<and> snd e \<notin> set (vc_done c)) ((d, n) # es)
      = filter (\<lambda>e. fst e = d \<and> snd e \<notin> set (vc_done c)) ((d, n) # es)"
    by (intro filter_cong) auto
  have m: "max (vc_now c) d = d" using d by simp
  note f = fire_due_sorted [OF s, of d "vc_done c", unfolded eq]
  show "vc_now (fire c) = d" "vc_sleepers (fire c) = filter (\<lambda>e. d < fst e) es"
    "vc_woken (fire c) = vc_woken c
      @ map (\<lambda>e. (d, e)) (filter (\<lambda>e. fst e = d \<and> snd e \<notin> set (vc_done c)) (vc_sleepers c))"
    using f by (simp_all add: fire_def assms(2) m Let_def)
  show "vc_now c < d" by (rule d)
qed

lemma fire_ok:
  assumes "clock_ok c" and "vc_sleepers c \<noteq> []"
  shows "clock_ok (fire c)" and "vc_now c < vc_now (fire c)" and "vc_now (fire c) = fst (hd (vc_sleepers c))"
    and "length (vc_sleepers (fire c)) < length (vc_sleepers c)"
    and "set (vc_sleepers (fire c)) \<subseteq> set (vc_sleepers c)"
proof -
  obtain d n es where s: "vc_sleepers c = (d, n) # es" using assms(2) by (cases "vc_sleepers c") auto
  note f = fire_at_deadline [OF assms(1) s]
  have "sorted es" using assms(1) s by (simp add: clock_ok_def)
  moreover have "sorted (map fst (vc_woken c) @ map (\<lambda>e. d) xs)" for xs :: "(seconds \<times> nat) list"
    using assms(1) f(4) by (induction xs rule: rev_induct) (fastforce simp: clock_ok_def sorted_append simp flip: append_assoc)+
  moreover have "\<forall>(t, d', n) \<in> set (vc_woken c). t = d' \<and> t \<le> d"
    using assms(1) f(4) by (fastforce simp: clock_ok_def)
  ultimately show "clock_ok (fire c)"
    using f by (auto simp: clock_ok_def sorted_wrt_filter o_def)
  show "vc_now c < vc_now (fire c)" "vc_now (fire c) = fst (hd (vc_sleepers c))"
    "length (vc_sleepers (fire c)) < length (vc_sleepers c)"
    using f s by (simp_all add: less_Suc_eq_le)
  show "set (vc_sleepers (fire c)) \<subseteq> set (vc_sleepers c)" using f(2) s by auto
qed

subsection \<open>Nobody is lost\<close>

text \<open>Each sleeper of \<open>c\<close> still sleeps in \<open>c'\<close>, has woken at its deadline, or was cancelled.\<close>

definition accounted :: "vclock \<Rightarrow> vclock \<Rightarrow> bool" where
  "accounted c c' \<longleftrightarrow> set (vc_done c) \<subseteq> set (vc_done c') \<and> set (vc_woken c) \<subseteq> set (vc_woken c')
     \<and> (\<forall>e \<in> set (vc_sleepers c). e \<in> set (vc_sleepers c') \<or> (fst e, e) \<in> set (vc_woken c') \<or> snd e \<in> set (vc_done c'))"

lemma accounted_refl: "accounted c c"
  by (simp add: accounted_def)

lemma accounted_trans: "accounted c c' \<Longrightarrow> accounted c' c'' \<Longrightarrow> accounted c c''"
  unfolding accounted_def by blast

lemma accounted_act: "accounted c (act a c)"
  by (cases a) (auto simp: accounted_def clock_sleep_def cancel_sleeper_def discard_sleeper_def set_insort_key)

lemma accounted_settle: "accounted c (settle tasks c)"
proof -
  have "accounted c (fold act as c)" for as
  proof (induction as arbitrary: c)
    case (Cons a as)
    then show ?case using accounted_trans [OF accounted_act [of c a] Cons [of "act a c"]] by simp
  qed (simp add: accounted_refl)
  then show ?thesis by (simp add: settle_def)
qed

lemma accounted_fire:
  assumes "clock_ok c" and "vc_sleepers c \<noteq> []"
  shows "accounted c (fire c)"
proof -
  obtain d n es where s: "vc_sleepers c = (d, n) # es" using assms(2) by (cases "vc_sleepers c") auto
  note f = fire_at_deadline [OF assms(1) s]
  have "vc_done (fire c) = vc_done c" by (simp add: fire_def Let_def split: prod.split)
  moreover have sorted: "sorted ((d, n) # es)" using assms(1) s by (simp add: clock_ok_def)
  have "fst e = d \<or> d < fst e" if "e \<in> set (vc_sleepers c)" for e
    using sorted_deadlines [OF sorted, of e] that s by (cases "e \<in> set es") auto
  moreover have "e \<in> set (vc_sleepers (fire c))" if "e \<in> set (vc_sleepers c)" "d < fst e" for e
    using f(2) s that by auto
  moreover have "(fst e, e) \<in> set (vc_woken (fire c))" if "e \<in> set (vc_sleepers c)" "fst e = d" "snd e \<notin> set (vc_done c)" for e
    using f(3) that by auto
  moreover have "set (vc_woken c) \<subseteq> set (vc_woken (fire c))" using f(3) by auto
  ultimately show ?thesis unfolding accounted_def by (intro conjI ballI) (simp, simp, metis)
qed

lemma advance_loop_spec:
  assumes "advance_loop tasks target c = Some c'" and "clock_ok c"
  shows "clock_ok c' \<and> vc_now c' = max (vc_now c) target \<and> accounted c c'"
proof -
  have "clock_ok c \<longrightarrow> clock_ok c' \<and> vc_now c' = max (vc_now c) target \<and> accounted c c'"
  proof (rule advance_loop.raw_induct [where P = "\<lambda>tasks target c c'.
      clock_ok c \<longrightarrow> clock_ok c' \<and> vc_now c' = max (vc_now c) target \<and> accounted c c'", OF _ assms(1)])
    fix loop :: "(vclock \<Rightarrow> action list) \<Rightarrow> seconds \<Rightarrow> vclock \<Rightarrow> vclock option"
      and tasks :: "vclock \<Rightarrow> action list" and target c c'
    assume IH: "\<And>tasks target c c'. loop tasks target c = Some c' \<Longrightarrow>
        clock_ok c \<longrightarrow> clock_ok c' \<and> vc_now c' = max (vc_now c) target \<and> accounted c c'"
      and eq: "(if vc_sleepers c \<noteq> [] \<and> fst (hd (vc_sleepers c)) \<le> target then loop tasks target (settle tasks (fire c))
        else Some (settle tasks (c\<lparr>vc_now := max (vc_now c) target\<rparr>))) = Some c'"
    show "clock_ok c \<longrightarrow> clock_ok c' \<and> vc_now c' = max (vc_now c) target \<and> accounted c c'"
    proof
      assume ok: "clock_ok c"
      show "clock_ok c' \<and> vc_now c' = max (vc_now c) target \<and> accounted c c'"
      proof (cases "vc_sleepers c \<noteq> [] \<and> fst (hd (vc_sleepers c)) \<le> target")
        case True
        then have ne: "vc_sleepers c \<noteq> []" and hd: "fst (hd (vc_sleepers c)) \<le> target" by auto
        note f = fire_ok [OF ok ne]
        have r: "clock_ok c' \<and> vc_now c' = max (vc_now (fire c)) target \<and> accounted (settle tasks (fire c)) c'"
          using IH eq True settle_ok [OF f(1), of tasks] by simp
        then have "accounted c c'"
          using accounted_trans [OF accounted_trans [OF accounted_fire [OF ok ne] accounted_settle]] by blast
        moreover have "max (vc_now (fire c)) target = max (vc_now c) target" using f(2,3) hd by simp
        ultimately show ?thesis using r by simp
      next
        case False
        let ?c = "c\<lparr>vc_now := max (vc_now c) target\<rparr>"
        have "vc_now ?c < fst e" if e: "e \<in> set (vc_sleepers c)" for e
        proof -
          obtain d n es where s: "vc_sleepers c = (d, n) # es" using e by (cases "vc_sleepers c") auto
          with ok have "sorted ((d, n) # es)" "vc_now c < d" by (auto simp: clock_ok_def)
          moreover have "target < d" using False s by simp
          ultimately show ?thesis using e s sorted_deadlines [of d n es e] by force
        qed
        then have "clock_ok ?c" using ok by (fastforce simp: clock_ok_def)
        moreover have "accounted c ?c" by (simp add: accounted_def)
        ultimately show ?thesis
          using False eq settle_ok [of ?c tasks] accounted_trans accounted_settle by auto
      qed
    qed
  qed
  then show ?thesis using assms(2) by simp
qed

subsection \<open>Reachable clocks\<close>

inductive clock_reachable :: "vclock \<Rightarrow> bool" where
  init: "clock_reachable (init_clock t)"
| act: "clock_reachable c \<Longrightarrow> clock_reachable (act a c)"
| advance: "clock_reachable c \<Longrightarrow> advance_to tasks target c = Some c' \<Longrightarrow> clock_reachable c'"

lemma clock_reachable_ok: "clock_reachable c \<Longrightarrow> clock_ok c"
proof (induction rule: clock_reachable.induct)
  case (init t)
  then show ?case by (simp add: clock_ok_def init_clock_def)
next
  case (act c a)
  then show ?case by (simp add: act_ok)
next
  case (advance c tasks target c')
  then show ?case using advance_loop_spec settle_ok unfolding advance_to_def by blast
qed

text \<open>
  C36. Virtual time keeps causality. Whatever the tasks do when they run, when an advance returns the
  clock shows the target (or the later time it already showed); every wakeup so far happened exactly
  at its deadline, in the order of the deadlines; whoever slept when the advance began and was due
  by the target has woken, unless cancelled; and whoever still sleeps is due later than now.
\<close>

theorem virtual_time_keeps_causality:
  assumes "clock_reachable c" and "advance_to tasks target c = Some c'"
  shows "vc_now c' = max (vc_now c) target
    \<and> sorted (map fst (vc_woken c')) \<and> (\<forall>(t, d, n) \<in> set (vc_woken c'). t = d)
    \<and> (\<forall>e \<in> set (vc_sleepers c). fst e \<le> target \<longrightarrow> (fst e, e) \<in> set (vc_woken c') \<or> snd e \<in> set (vc_done c'))
    \<and> (\<forall>e \<in> set (vc_sleepers c'). vc_now c' < fst e)"
proof -
  have ok: "clock_ok (settle tasks c)" using settle_ok [OF clock_reachable_ok [OF assms(1)]] .
  note sp = advance_loop_spec [OF assms(2) [unfolded advance_to_def] ok]
  have acc: "accounted c c'" using sp accounted_trans [OF accounted_settle] by blast
  have ok': "clock_ok c'" and now: "vc_now c' = max (vc_now c) target" using sp by auto
  have "(fst e, e) \<in> set (vc_woken c') \<or> snd e \<in> set (vc_done c')" if "e \<in> set (vc_sleepers c)" "fst e \<le> target" for e
    using acc ok' now that by (fastforce simp: accounted_def clock_ok_def)
  with ok' now show ?thesis by (auto simp: clock_ok_def)
qed

definition two_sleepers :: vclock where
  "two_sleepers = clock_sleep 3 (clock_sleep 5 (init_clock 0))"

theorem virtual_time_keeps_causality_witness:
  "\<exists>c'. advance_to (\<lambda>_. []) 4 two_sleepers = Some c' \<and> vc_now c' = 4 \<and> (3, 3, 1) \<in> set (vc_woken c')"
proof -
  have r: "clock_reachable two_sleepers"
    unfolding two_sleepers_def
    using clock_reachable.act [OF clock_reachable.act [OF clock_reachable.init, of "Sleep 5"], of "Sleep 3"] by simp
  have "case advance_to (\<lambda>_. []) 4 two_sleepers of Some c' \<Rightarrow> vc_done c' = [] | None \<Rightarrow> False" by code_simp
  then obtain c' where c': "advance_to (\<lambda>_. []) 4 two_sleepers = Some c'" "vc_done c' = []"
    by (auto split: option.splits)
  have "(3, 1) \<in> set (vc_sleepers two_sleepers)" "vc_now two_sleepers = 0" by code_simp+
  with virtual_time_keeps_causality [OF r c'(1)] c' show ?thesis by fastforce
qed

subsection \<open>Advancing returns\<close>

text \<open>Tasks that sleep at least \<open>s\<close> whenever they sleep.\<close>

definition sleeps_at_least :: "seconds \<Rightarrow> (vclock \<Rightarrow> action list) \<Rightarrow> bool" where
  "sleeps_at_least s tasks \<longleftrightarrow> (\<forall>c x. Sleep x \<in> set (tasks c) \<longrightarrow> x \<le> 0 \<or> s \<le> x)"

definition due_before :: "seconds \<Rightarrow> vclock \<Rightarrow> nat" where
  "due_before b c = length (filter (\<lambda>e. fst e < b) (vc_sleepers c))"

lemma due_before_insort:
  "\<not> fst x < b \<Longrightarrow> length (filter (\<lambda>e. fst e < b) (insort x es)) = length (filter (\<lambda>e. fst e < b) es)"
  by (induction es) auto

lemma due_before_settle:
  assumes "sleeps_at_least s tasks" and "b \<le> vc_now c + s"
  shows "due_before b (settle tasks c) \<le> due_before b c"
proof -
  have "due_before b (fold act as c) \<le> due_before b c"
    if "\<forall>x. Sleep x \<in> set as \<longrightarrow> x \<le> 0 \<or> s \<le> x" "b \<le> vc_now c + s" for as c
    using that
  proof (induction as arbitrary: c)
    case Nil
    then show ?case by simp
  next
    case (Cons a as)
    have "due_before b (act a c) \<le> due_before b c"
    proof (cases a)
      case (Sleep x)
      then have "x \<le> 0 \<or> s \<le> x" using Cons.prems(1) by simp
      with Sleep Cons.prems(2) show ?thesis
        by (auto simp: clock_sleep_def due_before_def due_before_insort)
    next
      case (Discard n)
      have "length (filter P (filter Q es)) \<le> length (filter P es)" for P Q and es :: "(seconds \<times> nat) list"
        by (induction es) auto
      with Discard show ?thesis by (simp add: discard_sleeper_def due_before_def del: filter_filter)
    qed (simp add: cancel_sleeper_def due_before_def)
    then show ?case using Cons.IH [of "act a c"] Cons.prems by simp
  qed
  then show ?thesis using assms by (simp add: settle_def sleeps_at_least_def)
qed

lemma due_before_fire:
  assumes "clock_ok c" and "vc_sleepers c \<noteq> []" and "fst (hd (vc_sleepers c)) < b"
  shows "due_before b (fire c) < due_before b c"
proof -
  obtain d n es where s: "vc_sleepers c = (d, n) # es" using assms(2) by (cases "vc_sleepers c") auto
  have "length (filter P (filter Q es)) \<le> length (filter P es)" for P Q
    by (induction es) auto
  then show ?thesis
    using fire_at_deadline(2) [OF assms(1) s] assms(3) s
    by (simp add: due_before_def less_Suc_eq_le del: filter_filter)
qed

lemma advance_loop_returns:
  assumes tasks: "sleeps_at_least s tasks" and "0 < s"
    and "clock_ok c" and "target - vc_now c \<le> of_nat n * s"
  shows "\<exists>c'. advance_loop tasks target c = Some c'"
  using assms(3,4)
proof (induction n arbitrary: c)
  case 0
  then have "\<not> (vc_sleepers c \<noteq> [] \<and> fst (hd (vc_sleepers c)) \<le> target)"
    using fire_ok(2,3) [OF 0(1)] by fastforce
  then show ?case by (subst advance_loop.simps) auto
next
  case (Suc n)
  let ?b = "vc_now c + s"
  have "\<exists>c'. advance_loop tasks target x = Some c'" if "clock_ok x" "vc_now c \<le> vc_now x" "due_before ?b x = m" for x m
    using that
  proof (induction m arbitrary: x rule: less_induct)
    case (less m)
    show ?case
    proof (cases "vc_sleepers x \<noteq> [] \<and> fst (hd (vc_sleepers x)) \<le> target")
      case False
      then show ?thesis by (subst advance_loop.simps) auto
    next
      case True
      then have ne: "vc_sleepers x \<noteq> []" by simp
      note f = fire_ok [OF less.prems(1) ne]
      let ?y = "settle tasks (fire x)"
      have y: "clock_ok ?y" by (rule settle_ok [OF f(1)])
      have "\<exists>c'. advance_loop tasks target ?y = Some c'"
      proof (cases "fst (hd (vc_sleepers x)) < ?b")
        case False
        then have "target - vc_now ?y \<le> of_nat n * s"
          using f(3) Suc.prems(2) by (simp add: algebra_simps)
        then show ?thesis by (rule Suc.IH [OF y])
      next
        case soon: True
        have "due_before ?b ?y \<le> due_before ?b (fire x)"
          by (rule due_before_settle [OF tasks]) (use less.prems(2) f(2) in simp)
        with due_before_fire [OF less.prems(1) ne soon] have "due_before ?b ?y < m" using less.prems(3) by simp
        then show ?thesis using less.IH [of "due_before ?b ?y" ?y] y less.prems(2) f(2) by simp
      qed
      then show ?thesis using True by (subst advance_loop.simps) simp
    qed
  qed
  then show ?case using Suc.prems(1) by blast
qed

text \<open>
  Advancing the virtual clock returns: if tasks that go to sleep do so for at least some \<open>s > 0\<close>
  each time, then \<open>advance\<close> reaches its target after finitely many wakeups, however many tasks wake
  and go back to sleep on the way.
\<close>

theorem advance_returns:
  assumes "clock_reachable c" and "sleeps_at_least s tasks" and "0 < s"
  shows "\<exists>c'. advance tasks t c = Some c' \<and> vc_now c' = max (vc_now c) (vc_now c + t)"
proof -
  have ok: "clock_ok (settle tasks c)" using settle_ok [OF clock_reachable_ok [OF assms(1)]] .
  obtain n :: nat where "t / s \<le> of_nat n" using real_arch_simple [of "t / s"] by blast
  then have "vc_now c + t - vc_now (settle tasks c) \<le> of_nat n * s" using assms(3) by (simp add: field_simps)
  from advance_loop_returns [OF assms(2,3) ok this] obtain c' where
    "advance_loop tasks (vc_now c + t) (settle tasks c) = Some c'" by blast
  with advance_loop_spec [OF this ok] show ?thesis by (simp add: advance_def advance_to_def)
qed

text \<open>A task that ticks every second for as long as the clock runs.\<close>

theorem advance_returns_witness:
  "\<exists>c'. advance (\<lambda>_. [Sleep 1]) 120 (init_clock 0) = Some c' \<and> vc_now c' = 120"
  using advance_returns [OF clock_reachable.init, of 1 "\<lambda>_. [Sleep 1]" 120 0]
  by (simp add: sleeps_at_least_def init_clock_def)

subsection \<open>Driving an awaitable to its end\<close>

text \<open>
  \<open>drive\<close>: \<open>finished\<close> says whether the awaited task is done, which it can only become while tasks
  run. The result tells whether it was, or whether nothing was left that could wake it (the
  RuntimeError); \<open>None\<close> is driving for ever.
\<close>

partial_function (option) drive ::
    "(vclock \<Rightarrow> action list) \<Rightarrow> (vclock \<Rightarrow> bool) \<Rightarrow> vclock \<Rightarrow> (bool \<times> vclock) option" where
  "drive tasks finished c =
     (if finished c then Some (True, c)
      else if finished (settle tasks c) then Some (True, settle tasks c)
      else Option.bind (advance_to_next tasks (settle tasks c))
        (\<lambda>(t, c). if t = None then Some (False, c) else drive tasks finished c))"

declare drive.simps [code]

text \<open>The real clock: what \<open>sleep\<close> asks the event loop for.\<close>

definition real_sleep :: "seconds \<Rightarrow> seconds" where
  "real_sleep s = (if 0 < s then s else 0)"

text \<open>The sleepers due before \<open>b\<close>; none is added by tasks that sleep long enough.\<close>

definition soon :: "seconds \<Rightarrow> vclock \<Rightarrow> (seconds \<times> nat) set" where
  "soon b c = {e \<in> set (vc_sleepers c). fst e < b}"

lemma finite_soon: "finite (soon b c)"
  by (simp add: soon_def)

lemma soon_settle:
  assumes "sleeps_at_least s tasks" and "b \<le> vc_now c + s"
  shows "soon b (settle tasks c) \<subseteq> soon b c"
proof -
  have "soon b (fold act as c) \<subseteq> soon b c"
    if "\<forall>x. Sleep x \<in> set as \<longrightarrow> x \<le> 0 \<or> s \<le> x" "b \<le> vc_now c + s" for as c
    using that
  proof (induction as arbitrary: c)
    case (Cons a as)
    have "soon b (act a c) \<subseteq> soon b c"
    proof (cases a)
      case (Sleep x)
      then have "x \<le> 0 \<or> s \<le> x" using Cons.prems(1) by simp
      with Sleep Cons.prems(2) show ?thesis by (auto simp: clock_sleep_def soon_def set_insort_key)
    qed (auto simp: cancel_sleeper_def discard_sleeper_def soon_def)
    moreover have "soon b (fold act as (act a c)) \<subseteq> soon b (act a c)" using Cons.IH [of "act a c"] Cons.prems by simp
    ultimately show ?case by auto
  qed simp
  then show ?thesis using assms by (simp add: settle_def sleeps_at_least_def)
qed

lemma soon_advance_loop:
  assumes "advance_loop tasks target c = Some c'" and "clock_ok c" and "sleeps_at_least s tasks" and "b \<le> vc_now c + s"
  shows "soon b c' \<subseteq> soon b c"
proof -
  have "clock_ok c \<and> sleeps_at_least s tasks \<and> b \<le> vc_now c + s \<longrightarrow> soon b c' \<subseteq> soon b c"
  proof (rule advance_loop.raw_induct [where P = "\<lambda>tasks target c c'.
      clock_ok c \<and> sleeps_at_least s tasks \<and> b \<le> vc_now c + s \<longrightarrow> soon b c' \<subseteq> soon b c", OF _ assms(1)])
    fix loop :: "(vclock \<Rightarrow> action list) \<Rightarrow> seconds \<Rightarrow> vclock \<Rightarrow> vclock option"
      and tasks :: "vclock \<Rightarrow> action list" and target c c'
    assume IH: "\<And>tasks target c c'. loop tasks target c = Some c' \<Longrightarrow>
        clock_ok c \<and> sleeps_at_least s tasks \<and> b \<le> vc_now c + s \<longrightarrow> soon b c' \<subseteq> soon b c"
      and eq: "(if vc_sleepers c \<noteq> [] \<and> fst (hd (vc_sleepers c)) \<le> target then loop tasks target (settle tasks (fire c))
        else Some (settle tasks (c\<lparr>vc_now := max (vc_now c) target\<rparr>))) = Some c'"
    show "clock_ok c \<and> sleeps_at_least s tasks \<and> b \<le> vc_now c + s \<longrightarrow> soon b c' \<subseteq> soon b c"
    proof (intro impI, elim conjE)
      assume ok: "clock_ok c" and tasks: "sleeps_at_least s tasks" and b: "b \<le> vc_now c + s"
      show "soon b c' \<subseteq> soon b c"
      proof (cases "vc_sleepers c \<noteq> [] \<and> fst (hd (vc_sleepers c)) \<le> target")
        case True
        then have ne: "vc_sleepers c \<noteq> []" by simp
        note f = fire_ok [OF ok ne]
        have "soon b (settle tasks (fire c)) \<subseteq> soon b (fire c)"
          by (rule soon_settle [OF tasks]) (use f(2) b in simp)
        moreover have "soon b (fire c) \<subseteq> soon b c" using f(5) by (auto simp: soon_def)
        moreover have "soon b c' \<subseteq> soon b (settle tasks (fire c))"
          using IH eq True settle_ok [OF f(1), of tasks] tasks f(2) b by (simp add: order.strict_implies_order order_trans)
        ultimately show ?thesis by auto
      next
        case False
        let ?c = "c\<lparr>vc_now := max (vc_now c) target\<rparr>"
        have "soon b (settle tasks ?c) \<subseteq> soon b ?c"
          by (rule soon_settle [OF tasks]) (use b in \<open>simp add: max_def\<close>)
        moreover have "soon b ?c = soon b c" by (simp add: soon_def)
        ultimately show ?thesis using False eq by auto
      qed
    qed
  qed
  then show ?thesis using assms by simp
qed

text \<open>A jump to the next wakeup: it returns, moves the clock, and leaves one sleeper fewer to come.\<close>

lemma advance_loop_terminates:
  assumes "sleeps_at_least s tasks" and "0 < s" and "clock_ok c"
  shows "\<exists>c'. advance_loop tasks target c = Some c'"
proof -
  obtain n :: nat where "(target - vc_now c) / s \<le> of_nat n" using real_arch_simple by blast
  then have "target - vc_now c \<le> of_nat n * s" using assms(2) by (simp add: field_simps)
  then show ?thesis using advance_loop_returns [OF assms] by blast
qed

lemma advance_to_next_spec:
  assumes "sleeps_at_least s tasks" and "0 < s" and ok: "clock_ok c"
  obtains c' where "advance_to_next tasks c = Some (None, c')"
  | c' where "advance_to_next tasks c = Some (Some (vc_now c'), c')" "clock_ok c'" "vc_now c < vc_now c'"
      "\<And>b. b \<le> vc_now c + s \<Longrightarrow> vc_now c' < b \<Longrightarrow> card (soon b c') < card (soon b c)"
proof (cases "vc_sleepers (settle tasks c)")
  case Nil
  then show thesis using that(1) by (simp add: advance_to_next_def Let_def)
next
  case (Cons e es)
  let ?c = "settle tasks c"
  have ok1: "clock_ok ?c" by (rule settle_ok [OF ok])
  have ok2: "clock_ok (settle tasks ?c)" by (rule settle_ok [OF ok1])
  obtain c' where c': "advance_loop tasks (fst e) (settle tasks ?c) = Some c'"
    using advance_loop_terminates [OF assms(1,2) ok2] by blast
  have e: "vc_now c < fst e" using ok1 Cons by (simp add: clock_ok_def)
  note sp = advance_loop_spec [OF c' ok2]
  then have now: "vc_now c' = fst e" and ok': "clock_ok c'" using e by simp_all
  have less: "card (soon b c') < card (soon b c)" if b: "b \<le> vc_now c + s" "vc_now c' < b" for b
  proof (rule psubset_card_mono [OF finite_soon])
    have sub: "soon b ?c \<subseteq> soon b c" by (rule soon_settle [OF assms(1)]) (simp add: b)
    have "soon b (settle tasks ?c) \<subseteq> soon b ?c" by (rule soon_settle [OF assms(1)]) (simp add: b)
    moreover have "soon b c' \<subseteq> soon b (settle tasks ?c)"
      by (rule soon_advance_loop [OF c' ok2 assms(1)]) (simp add: b)
    ultimately have "soon b c' \<subseteq> soon b c" using sub by blast
    moreover have "e \<in> soon b c" using Cons b(2) now sub by (auto simp: soon_def)
    moreover have "e \<notin> soon b c'" using ok' now by (auto simp: soon_def clock_ok_def)
    ultimately show "soon b c' \<subset> soon b c" by blast
  qed
  have "advance_to_next tasks c = Some (Some (vc_now c'), c')"
    using Cons c' by (simp add: advance_to_next_def advance_to_def Let_def)
  then show thesis using that(2) ok' now e less by simp
qed

lemma drive_terminates:
  assumes tasks: "sleeps_at_least s tasks" and "0 < s" and fin: "\<And>c. T \<le> vc_now c \<Longrightarrow> finished c"
    and "clock_ok c" and "T - vc_now c \<le> of_nat n * s"
  shows "\<exists>r. drive tasks finished c = Some r"
  using assms(4,5)
proof (induction n arbitrary: c)
  case 0
  then have "finished c" using fin by simp
  then show ?case by (subst drive.simps) (auto intro: exI [of _ True])
next
  case (Suc n)
  let ?b = "vc_now c + s"
  have "\<exists>r. drive tasks finished x = Some r" if "clock_ok x" "vc_now c \<le> vc_now x" "card (soon ?b x) = m" for x m
    using that
  proof (induction m arbitrary: x rule: less_induct)
    case (less m)
    show ?case
    proof (cases "finished x \<or> finished (settle tasks x)")
      case True
      then show ?thesis by (subst drive.simps) auto
    next
      case False
      have ok: "clock_ok (settle tasks x)" by (rule settle_ok [OF less.prems(1)])
      show ?thesis
      proof (rule advance_to_next_spec [OF tasks \<open>0 < s\<close> ok])
        fix c' assume "advance_to_next tasks (settle tasks x) = Some (None, c')"
        then show ?thesis using False by (subst drive.simps) (auto intro: exI [of _ False])
      next
        fix c' assume c': "advance_to_next tasks (settle tasks x) = Some (Some (vc_now c'), c')" "clock_ok c'"
          "vc_now (settle tasks x) < vc_now c'"
          and smaller: "\<And>b. b \<le> vc_now (settle tasks x) + s \<Longrightarrow> vc_now c' < b \<Longrightarrow>
            card (soon b c') < card (soon b (settle tasks x))"
        have "\<exists>r. drive tasks finished c' = Some r"
        proof (cases "vc_now c' < ?b")
          case far: False
          then have "T - vc_now c' \<le> of_nat n * s" using Suc.prems(2) by (simp add: algebra_simps)
          then show ?thesis by (rule Suc.IH [OF c'(2)])
        next
          case near: True
          have b: "?b \<le> vc_now x + s" using less.prems(2) by simp
          have "card (soon ?b c') < card (soon ?b (settle tasks x))" using smaller near b by simp
          moreover have "card (soon ?b (settle tasks x)) \<le> card (soon ?b x)"
            by (rule card_mono [OF finite_soon soon_settle [OF tasks b]])
          ultimately have "card (soon ?b c') < m" using less.prems(3) by simp
          then show ?thesis using less.IH c'(2,3) less.prems(2) by simp
        qed
        then show ?thesis using False c'(1) by (subst drive.simps) simp
      qed
    qed
  qed
  then show ?case using Suc.prems(1) by blast
qed

text \<open>
  C40. Driving a task to its end returns: if the task is done once the clock shows \<open>T\<close> (shutdown, whose
  backend takes so long to unload, is the case in point), and tasks that go to sleep do so for at least
  some \<open>s > 0\<close>, then \<open>drive\<close> ends, with the task done or with the report that nothing can wake it.
\<close>

theorem drive_returns:
  assumes "clock_reachable c" and "sleeps_at_least s tasks" and "0 < s"
    and "\<And>c. T \<le> vc_now c \<Longrightarrow> finished c"
  shows "\<exists>ok c'. drive tasks finished c = Some (ok, c')"
proof -
  obtain n :: nat where "(T - vc_now c) / s \<le> of_nat n" using real_arch_simple by blast
  then have "T - vc_now c \<le> of_nat n * s" using assms(3) by (simp add: field_simps)
  from drive_terminates [OF assms(2,3,4) clock_reachable_ok [OF assms(1)] this] show ?thesis by auto
qed

text \<open>A shutdown that takes 30 s while another task ticks every second.\<close>

theorem drive_returns_witness:
  "\<exists>ok c'. drive (\<lambda>_. [Sleep 1]) (\<lambda>c. 30 \<le> vc_now c) (init_clock 0) = Some (ok, c')"
  by (rule drive_returns [OF clock_reachable.init, of 1 _ 30]) (simp_all add: sleeps_at_least_def)

text \<open>With nothing asleep, driving a task that does not end is an error, not a hang.\<close>

theorem drive_reports_a_block:
  "\<not> finished c \<Longrightarrow> \<not> finished (settle tasks c) \<Longrightarrow> vc_sleepers (settle tasks (settle tasks c)) = [] \<Longrightarrow>
   drive tasks finished c = Some (False, settle tasks (settle tasks c))"
  by (subst drive.simps) (simp add: advance_to_next_def Let_def)

theorem drive_reports_a_block_witness:
  "drive (\<lambda>_. []) (\<lambda>_. False) (init_clock 0) = Some (False, settle (\<lambda>_. []) (settle (\<lambda>_. []) (init_clock 0)))"
  by (rule drive_reports_a_block) (simp_all add: settle_def init_clock_def)

end
