(* ===== verification/Sir_Status.thy ===== *)
theory Sir_Status
  imports Sir_Client_App Sir_Mock
begin

text \<open>
  What the router shows of itself: the choice of a backend for a model and the \<open>status()\<close> of
  \<open>engine.py\<close>, the model list and the liveness answer of \<open>api.py\<close>, and the log records of
  \<open>logging.py\<close>. A dictionary is a JSON object; \<open>None\<close> as a result means that an exception escapes.
  The formatted scores in the status are in \<open>Sir_Format\<close>.
\<close>

subsection \<open>Backends\<close>

datatype backend = MockBackend string mock_params | VllmBackend string vllm_params

text \<open>\<open>backend\<close> is one of the two kinds once validated, so the \<open>ValueError\<close> never arises.\<close>

definition default_backend_factory :: "model_config \<Rightarrow> backend" where
  "default_backend_factory m =
     (case mc_backend m of
        Mock \<Rightarrow> MockBackend (mc_name m) (mc_mock m)
      | Vllm \<Rightarrow> VllmBackend (mc_name m) (mc_vllm m))"

subsection \<open>Engine status\<close>

text \<open>\<open>round(x, 3)\<close>.\<close>

definition round3 :: "rat \<Rightarrow> rat" where
  "round3 x = of_int (py_round (x * 1000)) / 1000"

definition mean_request_seconds :: "string \<Rightarrow> engine \<Rightarrow> seconds" where
  "mean_request_seconds m e = (case eng_mean_seconds e m of Some x \<Rightarrow> x | None \<Rightarrow> 0)"

text \<open>\<open>self.queues.oldest_enqueued_at(name) or now\<close>: a time of 0.0 is falsy.\<close>

definition oldest_or_now :: "seconds \<Rightarrow> seconds option \<Rightarrow> seconds" where
  "oldest_or_now now oldest = (case oldest of None \<Rightarrow> now | Some t \<Rightarrow> if t = 0 then now else t)"

record model_status =
  mt_name :: string
  mt_served_as :: string
  mt_priority :: rat
  mt_queue_depth :: nat
  mt_oldest_wait_seconds :: rat
  mt_resident :: bool
  mt_mean_request_seconds :: rat
  mt_available_in_seconds :: rat

definition model_status_of :: "engine \<Rightarrow> model_config \<Rightarrow> model_status option" where
  "model_status_of e m =
     do { tag \<leftarrow> served_as m;
          depth \<leftarrow> mq_depth (mc_name m) (qst e);
          oldest \<leftarrow> mq_oldest_enqueued_at (mc_name m) (qst e);
          Some \<lparr>mt_name = mc_name m, mt_served_as = tag, mt_priority = mc_priority m, mt_queue_depth = depth,
            mt_oldest_wait_seconds = round3 (eng_now e - oldest_or_now (eng_now e) oldest),
            mt_resident = (Some (mc_name m) = eng_resident e),
            mt_mean_request_seconds = round3 (mean_request_seconds (mc_name m) e),
            mt_available_in_seconds = max 0 (round3
              ((case eng_unavailable_until e (mc_name m) of Some u \<Rightarrow> u | None \<Rightarrow> eng_now e) - eng_now e))\<rparr> }"

record decision_status =
  ds_kind :: decision_kind
  ds_reason :: decision_reason
  ds_target :: "string option"
  ds_at :: rat

record engine_status =
  es_now :: rat
  es_resident :: "string option"
  es_resident_for_seconds :: "rat option"
  es_idle_for_seconds :: "rat option"
  es_draining :: bool
  es_switching :: bool
  es_in_flight :: nat
  es_swaps :: nat
  es_loads :: nat
  es_time_loading_seconds :: rat
  es_models :: "model_status list"
  es_last_decision :: "decision_status option"

definition engine_status :: "engine \<Rightarrow> engine_status option" where
  "engine_status e =
     do { models \<leftarrow> those (map (model_status_of e) (ac_models (eng_config e)));
          Some \<lparr>es_now = round3 (eng_now e), es_resident = eng_resident e,
            es_resident_for_seconds = map_option (\<lambda>t. round3 (eng_now e - t)) (eng_resident_since e),
            es_idle_for_seconds = map_option (\<lambda>t. round3 (eng_now e - t)) (eng_idle_since e),
            es_draining = eng_draining e, es_switching = eng_switching e,
            es_in_flight = length (eng_in_flight e), es_swaps = eng_swaps e, es_loads = eng_loads e,
            es_time_loading_seconds = round3 (eng_time_loading e), es_models = models,
            es_last_decision = (if eng_decisions e = [] then None
              else let d = last (eng_decisions e) in
                Some \<lparr>ds_kind = dc_kind d, ds_reason = dc_reason d, ds_target = dc_target d, ds_at = round3 (dc_at d)\<rparr>)\<rparr> }"

subsection \<open>The model list and liveness\<close>

record model_card =
  card_id :: string
  card_root :: string

definition model_cards :: "model_config \<Rightarrow> model_card list option" where
  "model_cards m =
     those (map (\<lambda>tag. map_option (\<lambda>root. \<lparr>card_id = tag, card_root = root\<rparr>) (served_as m)) (served_names m))"

definition list_models :: "app_config \<Rightarrow> model_card list option" where
  "list_models c = map_option concat (those (map model_cards (ac_models c)))"

text \<open>The list on the wire, and the tags a client reads off it; \<open>None\<close> for a document of another shape.\<close>

definition model_card_json :: "int \<Rightarrow> model_card \<Rightarrow> json" where
  "model_card_json created entry =
     JObj [(''id'', JStr (card_id entry)), (''object'', JStr ''model''), (''created'', JInt created),
       (''owned_by'', JStr ''sir''), (''root'', JStr (card_root entry))]"

definition model_list_json :: "int \<Rightarrow> model_card list \<Rightarrow> json" where
  "model_list_json created cards =
     JObj [(''object'', JStr ''list''), (''data'', JList (map (model_card_json created) cards))]"

definition tag_of_card :: "json \<Rightarrow> string option option" where
  "tag_of_card entry =
     (case entry of
        JObj kvs \<Rightarrow> (case payload_get kvs ''id'' of JStr tag \<Rightarrow> Some (Some tag) | JNull \<Rightarrow> Some None | _ \<Rightarrow> None)
      | _ \<Rightarrow> None)"

definition tags_of_list :: "json \<Rightarrow> string option list option" where
  "tags_of_list body =
     (case body of
        JObj kvs \<Rightarrow>
          (case map_of kvs ''data'' of
             None \<Rightarrow> Some []
           | Some (JList cards) \<Rightarrow> those (map tag_of_card cards)
           | Some _ \<Rightarrow> None)
      | _ \<Rightarrow> None)"

definition healthz :: "app_config \<Rightarrow> string list" where
  "healthz c = served_model_names c"

subsection \<open>Log records\<close>

fun decision_kind_value :: "decision_kind \<Rightarrow> string" where
  "decision_kind_value IDLE = ''idle''"
| "decision_kind_value SERVE = ''serve''"
| "decision_kind_value HOLD = ''hold''"
| "decision_kind_value SWITCH = ''switch''"

fun decision_reason_value :: "decision_reason \<Rightarrow> string" where
  "decision_reason_value NO_WORK = ''no_work''"
| "decision_reason_value COLD_START = ''cold_start''"
| "decision_reason_value STARVATION = ''starvation''"
| "decision_reason_value MIN_RESIDENCY = ''min_residency''"
| "decision_reason_value RESIDENT_WINS = ''resident_wins''"
| "decision_reason_value CHALLENGER_WINS = ''challenger_wins''"
| "decision_reason_value RESIDENT_IDLE = ''resident_idle''"
| "decision_reason_value BACKEND_UNAVAILABLE = ''backend_unavailable''"
| "decision_reason_value IN_TRANSITION = ''in_transition''"

fun event_kind_value :: "event_kind \<Rightarrow> string" where
  "event_kind_value EV_ENQUEUE = ''enqueue''"
| "event_kind_value EV_DISPATCH = ''dispatch''"
| "event_kind_value EV_COMPLETE = ''complete''"
| "event_kind_value EV_CANCELLED = ''cancelled''"
| "event_kind_value EV_FAILED = ''failed''"
| "event_kind_value EV_DRAIN_START = ''drain_start''"
| "event_kind_value EV_DRAIN_END = ''drain_end''"
| "event_kind_value EV_LOAD_START = ''load_start''"
| "event_kind_value EV_LOAD_END = ''load_end''"
| "event_kind_value EV_LOAD_FAILED = ''load_failed''"
| "event_kind_value EV_UNLOAD = ''unload''"
| "event_kind_value EV_CRASH = ''crash''"

datatype log_level = LogInfo | LogDebug

definition loud_events :: "event_kind list" where
  "loud_events = [EV_LOAD_START, EV_LOAD_END, EV_LOAD_FAILED, EV_UNLOAD, EV_DRAIN_START, EV_DRAIN_END,
     EV_CRASH, EV_FAILED]"

definition score_payload :: "score_breakdown \<Rightarrow> json" where
  "score_payload b =
     JObj ([(''score'', (case sb_score b of NegInf \<Rightarrow> JNull | Fin x \<Rightarrow> JFloat (round3 x))),
        (''depth'', JInt (int (sb_depth b))), (''oldest_wait'', JFloat (round3 (sb_oldest_wait b))),
        (''switch_cost'', JFloat (round3 (sb_switch_cost b))), (''eligible'', JBool (sb_eligible b))]
       @ (if sb_note b = [] then [] else [(''note'', JStr (sb_note b))]))"

definition log_decision :: "decision \<Rightarrow> log_level \<times> (string \<times> json) list" where
  "log_decision d =
     (if dc_kind d = SWITCH then LogInfo else LogDebug,
      [(''event'', JStr ''decision''), (''kind'', JStr (decision_kind_value (dc_kind d))),
       (''reason'', JStr (decision_reason_value (dc_reason d))), (''resident'', opt_json (dc_resident d)),
       (''target'', opt_json (dc_target d)), (''at'', JFloat (round3 (dc_at d))),
       (''scores'', JObj (fold (\<lambda>b. AList.update (sb_model b) (score_payload b)) (dc_scores d) []))])"

definition log_event :: "engine_event \<Rightarrow> log_level \<times> (string \<times> json) list" where
  "log_event ev =
     (if ee_kind ev \<in> set loud_events then LogInfo else LogDebug,
      [(''event'', JStr (event_kind_value (ee_kind ev))), (''model'', JStr (ee_model ev)),
       (''at'', JFloat (round3 (ee_at ev)))]
      @ (case ee_duration ev of None \<Rightarrow> [] | Some d \<Rightarrow> [(''duration'', JFloat (round3 d))])
      @ (if ee_detail ev = [] then [] else [(''detail'', JStr (ee_detail ev))]))"

text \<open>The line that reaches the log: the record as JSON text.\<close>

definition log_line :: "log_level \<times> (string \<times> json) list \<Rightarrow> log_level \<times> string" where
  "log_line rec = (case rec of (level, payload) \<Rightarrow> (level, json_dumps (JObj payload)))"

lemma round3_milli: "milli (round3 x)"
  by (simp add: round3_def milli_thousandth)

lemma score_payload_plain: "json_plain (score_payload b)"
  by (simp add: score_payload_def round3_milli split: score.split)

lemma scores_plain:
  assumes "json_plain (JObj acc)"
  shows "json_plain (JObj (fold (\<lambda>b. AList.update (sb_model b) (score_payload b)) bs acc))"
  using assms
proof (induction bs arbitrary: acc)
  case (Cons b bs)
  have "json_plain v" if "(k, v) \<in> set (AList.update (sb_model b) (score_payload b) acc)" for k v
    using that Cons.prems by (induction acc) (auto simp: score_payload_plain list_all_iff split: if_splits)
  then have "json_plain (JObj (AList.update (sb_model b) (score_payload b) acc))"
    using Cons.prems by (auto simp: list_all_iff distinct_update)
  from Cons.IH [OF this] show ?case by simp
qed simp


subsection \<open>The status of a running engine\<close>

lemma those_map: "(\<And>x. x \<in> set xs \<Longrightarrow> f x = Some (g x)) \<Longrightarrow> those (map f xs) = Some (map g xs)"
  by (induction xs) auto

lemma map_of_zip_keys: "map fst qs = names \<Longrightarrow> n \<in> set names \<Longrightarrow> \<exists>rs. map_of qs n = Some rs"
  by (metis list.set_map map_of_eq_None_iff not_Some_eq)

lemma served_as_valid: "valid_model_config m \<Longrightarrow> \<exists>tag. served_as m = Some tag \<and> tag \<in> set (served_names m)"
  by (cases "served_names m") (auto simp: valid_model_config_def served_as_def)

lemma model_status_of_valid:
  assumes "queue_inv (names_of e) (eng_store e) (eng_queues e)" and "valid_app_config (eng_config e)"
    and "m \<in> set (ac_models (eng_config e))"
  shows "\<exists>st. model_status_of e m = Some st \<and> mt_name st = mc_name m
    \<and> mt_queue_depth st = length (the (mq_live (qst e) (mc_name m)))
    \<and> mt_resident st = (Some (mc_name m) = eng_resident e)"
proof -
  have "map fst (eng_queues e) = names_of e" "mc_name m \<in> set (names_of e)"
    using assms by (auto simp: queue_inv_def model_names_def)
  from map_of_zip_keys [OF this] obtain rs where "map_of (eng_queues e) (mc_name m) = Some rs" by blast
  moreover obtain tag where "served_as m = Some tag"
    using served_as_valid assms(2,3) by (auto simp: valid_app_config_def)
  ultimately show ?thesis
    by (simp add: model_status_of_def mq_depth_def mq_oldest_enqueued_at_def mq_live_def count_live_eq)
qed

lemma sum_depths:
  assumes "distinct (map fst qs)"
  shows "sum_list (map (\<lambda>n. length (the (mq_live (st, qs) n))) (map fst qs)) = mq_total_pending (st, qs)"
proof -
  have "map (\<lambda>n. length (the (mq_live (st, qs) n))) (map fst qs) = map (\<lambda>(n, rs). count_live st rs) qs"
    using assms by (auto simp: mq_live_def count_live_eq)
  then show ?thesis by (simp add: mq_total_pending_def del: map_map)
qed

text \<open>
  The status page never fails and adds up. Whatever state the engine is in, \<open>status()\<close> returns;
  it lists every configured model once, in order; the depths it shows are the numbers of live
  requests and sum up to what is pending; it marks exactly the resident model; and it never shows
  more requests in flight than the concurrency cap.
\<close>

theorem status_adds_up:
  assumes "reachable c t0 e"
  shows "\<exists>s. engine_status e = Some s \<and> map mt_name (es_models s) = names_of e
    \<and> sum_list (map mt_queue_depth (es_models s)) = mq_total_pending (qst e)
    \<and> mt_name ` {m \<in> set (es_models s). mt_resident m} = set_option (es_resident s)
    \<and> int (es_in_flight s) \<le> sc_max_concurrent_requests (sched e)"
proof -
  let ?ms = "ac_models (eng_config e)"
  note inv = reachable_inv [OF assms, unfolded engine_inv_def inv_at_def]
  have valid: "valid_app_config (eng_config e)" and q: "queue_inv (names_of e) (eng_store e) (eng_queues e)"
    and cap: "int (length (eng_in_flight e)) \<le> sc_max_concurrent_requests (sched e)"
    and res: "eng_resident e = Some m \<Longrightarrow> m \<in> set (names_of e)" for m
    using inv by (auto simp: task_inv_def phase_inv_def)
  obtain f where f: "model_status_of e m = Some (f m)" "mt_name (f m) = mc_name m"
      "mt_queue_depth (f m) = length (the (mq_live (qst e) (mc_name m)))"
      "mt_resident (f m) = (Some (mc_name m) = eng_resident e)" if "m \<in> set ?ms" for m
    using model_status_of_valid [OF q valid] by metis
  obtain s where s: "engine_status e = Some s" "es_models s = map f ?ms" "es_resident s = eng_resident e"
    "es_in_flight s = length (eng_in_flight e)"
    using those_map [of ?ms "model_status_of e" f] f(1) by (simp add: engine_status_def)
  have names: "names_of e = map mc_name ?ms" "map fst (eng_queues e) = names_of e" "distinct (names_of e)"
    using q valid by (auto simp: model_names_def queue_inv_def valid_app_config_def)
  have "map mt_name (es_models s) = names_of e" using s(2) f(2) names(1) by simp
  moreover have "map mt_queue_depth (es_models s) = map (\<lambda>n. length (the (mq_live (qst e) n))) (names_of e)"
    using s(2) f(3) names(1) by simp
  then have "sum_list (map mt_queue_depth (es_models s)) = mq_total_pending (qst e)"
    using sum_depths [of "eng_queues e" "eng_store e"] names(2,3) by metis
  moreover have "mt_name ` {m \<in> set (es_models s). mt_resident m} = {n \<in> set (names_of e). Some n = eng_resident e}"
    unfolding s(2) names(1) using f(2,4) by (force simp: image_iff)
  then have "mt_name ` {m \<in> set (es_models s). mt_resident m} = set_option (es_resident s)"
    using res s(3) by (cases "eng_resident e") auto
  ultimately show ?thesis using s cap by auto
qed

theorem status_adds_up_witness:
  "\<exists>s. engine_status (after serving_run) = Some s \<and> int (es_in_flight s) \<le> sc_max_concurrent_requests (sched (after serving_run))"
  using status_adds_up [OF after_reachable, of serving_run] by blast

text \<open>A request enqueued when the clock shows 0 is reported as not waiting.\<close>

theorem wait_since_zero_reported_as_none:
  assumes "served_as m = Some tag" and "mq_depth (mc_name m) (qst e) = Some depth"
    and "mq_oldest_enqueued_at (mc_name m) (qst e) = Some (Some 0)"
  shows "map_option mt_oldest_wait_seconds (model_status_of e m) = Some 0"
  using assms by (simp add: model_status_of_def oldest_or_now_def round3_def py_round_def)

subsection \<open>Discovery of a router\<close>

lemma list_models_ids:
  assumes "valid_app_config c"
  obtains cards where "list_models c = Some cards" and "map card_id cards = served_model_names c"
proof -
  define f where "f m = map (\<lambda>tag. \<lparr>card_id = tag, card_root = the (served_as m)\<rparr>) (served_names m)" for m
  have "model_cards m = Some (f m)" if m: "m \<in> set (ac_models c)" for m
  proof -
    obtain root where "served_as m = Some root"
      using served_as_valid assms m by (auto simp: valid_app_config_def)
    then show ?thesis unfolding model_cards_def f_def by (simp add: those_map)
  qed
  then have "list_models c = Some (concat (map f (ac_models c)))"
    by (simp add: list_models_def those_map)
  moreover have "map card_id (concat (map f (ac_models c))) = served_model_names c"
    by (simp add: served_model_names_def map_concat f_def o_def)
  ultimately show thesis using that by blast
qed

lemma tags_of_model_list: "tags_of_list (model_list_json created cards) = Some (map (Some \<circ> card_id) cards)"
proof -
  have "tag_of_card (model_card_json created entry) = Some (Some (card_id entry))" for entry
    by (simp add: tag_of_card_def model_card_json_def payload_get_def)
  then show ?thesis by (simp add: tags_of_list_def model_list_json_def those_map comp_def)
qed



end
