(* ===== verification/Sir_Format.thy ===== *)
theory Sir_Format
  imports Sir_Status
begin

text \<open>
  The lines a human reads: the \<open>format\<close> methods of \<open>ScoreBreakdown\<close>, \<open>EngineEvent\<close> and \<open>Decision\<close>
  (\<open>types.py\<close>), with the number formats of Python they use. The one character of these lines beyond
  the code points modelled, an em dash, stands as its three bytes in UTF-8.
\<close>

subsection \<open>Python's number formats\<close>

text \<open>\<open>format(x, ".1f")\<close>; a negative number keeps its sign when it rounds to zero.\<close>

definition fixed1 :: "rat \<Rightarrow> string" where
  "fixed1 x =
     (let n = py_round (abs x * 10) in
      (if x < 0 then ''-'' else []) @ show_int (n div 10) @ ''.'' @ show_int (n mod 10))"

text \<open>
  \<open>format(x, "g")\<close>: six significant digits without trailing zeros, with an exponent if that is below
  -4 or at least 6. \<open>exponent10\<close> is the decimal exponent of a positive number.
\<close>

fun decimals :: "int \<Rightarrow> int" where
  "decimals n = (if n < 10 then 1 else 1 + decimals (n div 10))"

declare decimals.simps [simp del]

definition exponent10 :: "rat \<Rightarrow> int" where
  "exponent10 x = (if 1 \<le> x then decimals \<lfloor>x\<rfloor> - 1 else - decimals (\<lceil>1 / x\<rceil> - 1))"

definition power10 :: "int \<Rightarrow> rat" where
  "power10 k = (if 0 \<le> k then 10 ^ nat k else 1 / 10 ^ nat (- k))"

text \<open>The six digits and the exponent after rounding.\<close>

definition digits6 :: "rat \<Rightarrow> int \<times> int" where
  "digits6 x =
     (let e = exponent10 x; d = py_round (x * power10 (5 - e))
      in if d = 1000000 then (100000, e + 1) else (d, e))"

definition show_digits6 :: "int \<Rightarrow> string" where
  "show_digits6 d = map (\<lambda>k. hex_digit (nat (d div k mod 10))) [100000, 10000, 1000, 100, 10, 1]"

definition strip_zeros :: "string \<Rightarrow> string" where
  "strip_zeros s =
     (let t = rev (dropWhile (\<lambda>c. c = CHR ''0'') (rev s))
      in if t \<noteq> [] \<and> last t = CHR ''.'' then butlast t else t)"

definition pad_exponent :: "nat \<Rightarrow> string" where
  "pad_exponent n = (if n < 10 then CHR ''0'' # show_nat n else show_nat n)"

definition general :: "rat \<Rightarrow> string" where
  "general x =
     (if x = 0 then ''0'' else
      (let (d, e) = digits6 (abs x); ds = show_digits6 d
       in (if x < 0 then ''-'' else []) @
         (if e < -4 \<or> 6 \<le> e
          then strip_zeros (take 1 ds @ ''.'' @ drop 1 ds) @ ''e'' @ (if e < 0 then ''-'' else ''+'')
                 @ pad_exponent (nat (abs e))
          else if 0 \<le> e then strip_zeros (take (nat e + 1) ds @ ''.'' @ drop (nat e + 1) ds)
          else strip_zeros (''0.'' @ replicate (nat (- e) - 1) (CHR ''0'') @ ds))))"

text \<open>\<open>format(s, "<n")\<close> and \<open>format(s, ">n")\<close>; a longer text is not cut.\<close>

definition pad_right :: "nat \<Rightarrow> string \<Rightarrow> string" where
  "pad_right n s = s @ replicate (n - length s) (CHR '' '')"

definition pad_left :: "nat \<Rightarrow> string \<Rightarrow> string" where
  "pad_left n s = replicate (n - length s) (CHR '' '') @ s"

subsection \<open>The lines\<close>

definition em_dash :: string where
  "em_dash = [CHR 0xE2, CHR 0x80, CHR 0x94]"

definition fixed1_score :: "score \<Rightarrow> string" where
  "fixed1_score s = (case s of NegInf \<Rightarrow> ''-inf'' | Fin x \<Rightarrow> fixed1 x)"

definition format_score :: "score_breakdown \<Rightarrow> string" where
  "format_score b =
     (if \<not> sb_eligible b then sb_model b @ '' '' @ em_dash @ '' ('' @ sb_note b @ '')''
      else if sb_depth b = 0 then sb_model b @ '' 0.0 (idle)''
      else
        let cost = (if sb_switch_cost b \<noteq> 0 then '' - switch '' @ fixed1 (sb_switch_cost b) else [])
        in sb_model b @ '' '' @ fixed1_score (sb_score b) @ '' [prio '' @ general (sb_priority b)
             @ '' x (age '' @ fixed1 (sb_age_term b) @ '' + depth '' @ fixed1 (sb_depth_term b) @ '')'' @ cost @ '']'')"

definition format_at :: "seconds \<Rightarrow> string" where
  "format_at t = ''t='' @ pad_left 7 (fixed1 t) @ ''  ''"

definition format_event :: "engine_event \<Rightarrow> string" where
  "format_event ev =
     format_at (ee_at ev) @ pad_right 11 (event_kind_value (ee_kind ev)) @ '' '' @ pad_right 12 (ee_model ev)
     @ (case ee_duration ev of None \<Rightarrow> [] | Some d \<Rightarrow> '' '' @ fixed1 d @ ''s'')
     @ (if ee_detail ev = [] then [] else ''  '' @ ee_detail ev)"

definition py_upper_ascii :: "string \<Rightarrow> string" where
  "py_upper_ascii s = map (\<lambda>c. let n = of_char c :: nat in if 97 \<le> n \<and> n \<le> 122 then char_of (n - 32) else c) s"

text \<open>A \<open>None\<close> in the move prints as \<open>None\<close>; an empty resident name is falsy.\<close>

definition show_target :: "string option \<Rightarrow> string" where
  "show_target t = (case t of None \<Rightarrow> ''None'' | Some s \<Rightarrow> s)"

definition decision_subject :: "decision \<Rightarrow> string" where
  "decision_subject d =
     (let resident = (case dc_resident d of None \<Rightarrow> [] | Some r \<Rightarrow> r) in
      if dc_kind d = SWITCH
      then (if resident \<noteq> [] then resident @ '' -> '' @ show_target (dc_target d) else show_target (dc_target d))
      else (if resident \<noteq> [] then resident else ''-''))"

definition format_decision :: "decision \<Rightarrow> string" where
  "format_decision d =
     format_at (dc_at d) @ pad_right 6 (py_upper_ascii (decision_kind_value (dc_kind d))) @ '' ''
     @ pad_right 24 (decision_subject d) @ '' '' @ decision_reason_value (dc_reason d)"

text \<open>The \<open>scores\<close> of the last decision on the status page.\<close>

definition status_scores :: "engine \<Rightarrow> string list" where
  "status_scores e = (if eng_decisions e = [] then [] else map format_score (dc_scores (last (eng_decisions e))))"

subsection \<open>Reading a line back\<close>

text \<open>What a reader of the log looks for: the word in capitals, and the last word.\<close>

definition capital :: "char \<Rightarrow> bool" where
  "capital c \<longleftrightarrow> (let n = of_char c :: nat in 65 \<le> n \<and> n \<le> 90)"

definition line_kind :: "string \<Rightarrow> decision_kind option" where
  "line_kind line = List.find (\<lambda>k. py_upper_ascii (decision_kind_value k)
     = takeWhile capital (dropWhile (\<lambda>c. \<not> capital c) line)) [IDLE, SERVE, HOLD, SWITCH]"

definition line_reason :: "string \<Rightarrow> decision_reason option" where
  "line_reason line = List.find (\<lambda>r. decision_reason_value r = rev (takeWhile (\<lambda>c. c \<noteq> CHR '' '') (rev line)))
     [NO_WORK, COLD_START, STARVATION, MIN_RESIDENCY, RESIDENT_WINS, CHALLENGER_WINS, RESIDENT_IDLE,
      BACKEND_UNAVAILABLE, IN_TRANSITION]"

lemma show_nat_plain: "x \<in> set (show_nat n) \<Longrightarrow> \<not> capital x"
proof (induction n rule: show_nat.induct)
  case (1 n)
  have "\<not> capital (char_of (48 + k))" if "k < 10" for k :: nat
    using that by (simp add: capital_def)
  with 1 show ?case by (subst (asm) show_nat.simps) (auto split: if_splits)
qed

lemma fixed1_plain: "x \<in> set (fixed1 t) \<Longrightarrow> \<not> capital x"
proof -
  have "\<not> capital (CHR ''-'')" "\<not> capital (CHR ''.'')" by code_simp+
  then show "x \<in> set (fixed1 t) \<Longrightarrow> \<not> capital x"
    using show_nat_plain by (auto simp: fixed1_def show_int_def Let_def split: if_splits)
qed

lemma format_at_plain: "x \<in> set (format_at t) \<Longrightarrow> \<not> capital x"
proof -
  have "\<not> capital (CHR ''t'')" "\<not> capital (CHR ''='')" "\<not> capital (CHR '' '')" by code_simp+
  then show "x \<in> set (format_at t) \<Longrightarrow> \<not> capital x"
    using fixed1_plain by (auto simp: format_at_def pad_left_def)
qed

lemma kind_capital: "list_all capital (py_upper_ascii (decision_kind_value k))"
  "py_upper_ascii (decision_kind_value k) \<noteq> []"
  by (cases k; simp add: py_upper_ascii_def capital_def Let_def)+

lemma reason_word: "CHR '' '' \<notin> set (decision_reason_value r)"
  by (cases r) simp_all

lemma line_kind_format: "line_kind (format_decision d) = Some (dc_kind d)"
proof -
  let ?k = "py_upper_ascii (decision_kind_value (dc_kind d))"
  obtain rest where line: "format_decision d = format_at (dc_at d) @ ?k @ CHR '' '' # rest"
    by (cases "6 - length ?k") (auto simp: format_decision_def pad_right_def)
  have "\<not> capital (CHR '' '')" by code_simp
  then have "takeWhile capital (?k @ CHR '' '' # rest) = ?k"
    using kind_capital(1) by (simp add: list_all_iff)
  moreover have "dropWhile (\<lambda>c. \<not> capital c) (?k @ CHR '' '' # rest) = ?k @ CHR '' '' # rest"
    using kind_capital [of "dc_kind d"] by (cases ?k) (simp_all add: list_all_iff)
  moreover have "dropWhile (\<lambda>c. \<not> capital c) (format_at (dc_at d) @ ys) = dropWhile (\<lambda>c. \<not> capital c) ys" for ys
    using format_at_plain by (simp add: dropWhile_append)
  ultimately have "takeWhile capital (dropWhile (\<lambda>c. \<not> capital c) (format_decision d)) = ?k"
    unfolding line by simp
  then show ?thesis by (cases "dc_kind d") (simp_all add: line_kind_def py_upper_ascii_def)
qed

lemma line_reason_format: "line_reason (format_decision d) = Some (dc_reason d)"
proof -
  obtain front where "format_decision d = front @ CHR '' '' # decision_reason_value (dc_reason d)"
    by (auto simp: format_decision_def)
  then have "rev (takeWhile (\<lambda>c. c \<noteq> CHR '' '') (rev (format_decision d))) = decision_reason_value (dc_reason d)"
    using reason_word [of "dc_reason d"] by (auto simp: takeWhile_append)
  then show ?thesis by (cases "dc_reason d") (simp_all add: line_reason_def)
qed

text \<open>
  The README promises that one reads a log line and understands why: from the line of any decision,
  whatever its time, its models and their names, the kind of the decision and its reason can be read
  back.
\<close>

theorem decision_line_reads_back:
  "line_kind (format_decision d) = Some (dc_kind d) \<and> line_reason (format_decision d) = Some (dc_reason d)"
  by (simp add: line_kind_format line_reason_format)

subsection \<open>Examples\<close>

lemma fixed1_examples:
  "map fixed1 [0, 5 / 4, 27 / 20, - 1 / 100, 1239 / 10] = [''0.0'', ''1.2'', ''1.4'', ''-0.0'', ''123.9'']"
  by code_simp

lemma general_examples:
  "map general [5 / 2, 1 / 100000, - 20] = [''2.5'', ''1e-05'', ''-20'']"
  by code_simp

lemma decision_line:
  "format_decision \<lparr>dc_kind = SWITCH, dc_reason = STARVATION, dc_at = 1239 / 10, dc_resident = Some ''a'',
     dc_target = Some ''b'', dc_scores = []\<rparr> = ''t=  123.9  SWITCH a -> b                   starvation''"
  by code_simp

lemma event_line:
  "format_event \<lparr>ee_at = 5, ee_kind = EV_LOAD_END, ee_model = ''b'', ee_detail = [], ee_duration = Some 3\<rparr>
     = ''t=    5.0  load_end    b            3.0s''"
  by code_simp

end
