(* ===== verification/Sir_Cli.thy ===== *)
theory Sir_Cli
  imports Sir_App
begin

text \<open>
  Starting the router: \<open>load_config\<close> (\<open>config.py\<close>), the log level (\<open>logging.py\<close>) and the command line
  (\<open>cli.py\<close>). Reading a file, YAML, pydantic's coercion of raw values, argparse and uvicorn belong to
  libraries: what a file holds, what it parses to, and the coerced record are arguments, and so are
  the texts of the exceptions; \<open>main\<close> is modelled from the parsed arguments to what it prints, returns
  and hands to the server. The file system is a map from paths to texts.
\<close>

subsection \<open>Loading the configuration\<close>

record loader =
  ld_files :: "string \<Rightarrow> string option"
  ld_yaml :: "string \<Rightarrow> string + json"
  ld_coerce :: "(string \<times> json) list \<Rightarrow> string + app_config"
  ld_describe :: "config_error \<Rightarrow> string"

text \<open>\<open>type(raw).__name__\<close> of the values YAML makes of JSON's kinds.\<close>

fun type_name :: "json \<Rightarrow> string" where
  "type_name JNull = ''NoneType''"
| "type_name (JBool b) = ''bool''"
| "type_name (JInt i) = ''int''"
| "type_name (JFloat x) = ''float''"
| "type_name (JStr s) = ''str''"
| "type_name (JList vs) = ''list''"
| "type_name (JObj kvs) = ''dict''"

text \<open>\<open>AppConfig.model_validate\<close>: the coercion, then the bounds and validators.\<close>

definition model_validate :: "loader \<Rightarrow> (string \<times> json) list \<Rightarrow> string + app_config" where
  "model_validate ld raw =
     (case ld_coerce ld raw of
        Inl err \<Rightarrow> Inl err
      | Inr c \<Rightarrow> (case validate_app_config c of Inl err \<Rightarrow> Inl (ld_describe ld err) | Inr c \<Rightarrow> Inr c))"

text \<open>The text of the exception, or the configuration. A falsy document counts as an empty one.\<close>

definition load_config :: "loader \<Rightarrow> string \<Rightarrow> string + app_config" where
  "load_config ld path =
     (case ld_files ld path of
        None \<Rightarrow> Inl (''config file not found: '' @ path)
      | Some text \<Rightarrow>
          (case ld_yaml ld text of
             Inl err \<Rightarrow> Inl err
           | Inr raw \<Rightarrow>
               (case (if truthy raw then raw else JObj []) of
                  JObj kvs \<Rightarrow> model_validate ld kvs
                | v \<Rightarrow> Inl (''config root must be a mapping, got '' @ type_name v))))"

subsection \<open>The log level\<close>

text \<open>
  \<open>getattr(logging, level.upper(), logging.INFO)\<close>: the upper-case names of the module; all are levels
  but a string and a dictionary, which \<open>setLevel\<close> rejects.
\<close>

definition upper_char :: "char \<Rightarrow> char" where
  "upper_char c = (let n = of_char c :: nat in if 97 \<le> n \<and> n \<le> 122 then char_of (n - 32) else c)"

definition logging_names :: "(string \<times> int) list" where
  "logging_names = [(''CRITICAL'', 50), (''FATAL'', 50), (''ERROR'', 40), (''WARNING'', 30), (''WARN'', 30),
     (''INFO'', 20), (''DEBUG'', 10), (''NOTSET'', 0)]"

definition configure :: "string \<Rightarrow> py_error + int" where
  "configure level =
     (let name = map upper_char level in
      if name = ''BASIC_FORMAT'' then Inl (ValueError ''Unknown level'')
      else if name = ''_STYLES'' then Inl (TypeError ''Level not an integer or a valid string'')
      else Inr (case map_of logging_names name of Some n \<Rightarrow> n | None \<Rightarrow> 20))"

subsection \<open>The command line\<close>

record serve_args =
  sa_config :: string
  sa_host :: "string option"
  sa_port :: "int option"
  sa_log_level :: "string option"

datatype command = Serve serve_args | Validate string

fun command_path :: "command \<Rightarrow> string" where
  "command_path (Serve args) = sa_config args"
| "command_path (Validate path) = path"

text \<open>The options as argparse yields them, from those that were given.\<close>

definition config_option :: "string option \<Rightarrow> string" where
  "config_option given = (case given of None \<Rightarrow> ''config.yaml'' | Some path \<Rightarrow> path)"

definition parsed_serve :: "string option \<Rightarrow> string option \<Rightarrow> int option \<Rightarrow> string option \<Rightarrow> command" where
  "parsed_serve path host port level =
     Serve \<lparr>sa_config = config_option path, sa_host = host, sa_port = port, sa_log_level = level\<rparr>"

definition parsed_validate :: "string option \<Rightarrow> command" where
  "parsed_validate path = Validate (config_option path)"

text \<open>An option that is absent, empty or zero leaves the setting of the file.\<close>

definition override :: "serve_args \<Rightarrow> app_config \<Rightarrow> app_config" where
  "override args c =
     (let s = ac_server c;
          s = (case sa_host args of None \<Rightarrow> s | Some h \<Rightarrow> if h = [] then s else s\<lparr>sv_host := h\<rparr>);
          s = (case sa_port args of None \<Rightarrow> s | Some p \<Rightarrow> if p = 0 then s else s\<lparr>sv_port := p\<rparr>);
          s = (case sa_log_level args of None \<Rightarrow> s | Some l \<Rightarrow> if l = [] then s else s\<lparr>sv_log_level := l\<rparr>)
      in c\<lparr>ac_server := s\<rparr>)"

text \<open>
  What \<open>main\<close> comes to: an exit code with what it wrote to the two streams, the run of the server
  with the level of the router's logger, or an exception.
\<close>

datatype cli_result =
  Exit int string string
| Ran app_config int
| Crashed py_error

definition joined :: "string list \<Rightarrow> string" where
  "joined names = concat (case names of [] \<Rightarrow> [] | n # ns \<Rightarrow> n # map (\<lambda>m. '', '' @ m) ns)"

definition cli_main :: "loader \<Rightarrow> command \<Rightarrow> cli_result" where
  "cli_main ld cmd =
     (case load_config ld (command_path cmd) of
        Inl err \<Rightarrow> Exit 2 [] (''config error: '' @ err)
      | Inr c \<Rightarrow>
          (case cmd of
             Validate path \<Rightarrow>
               Exit 0 (''config ok: '' @ show_nat (length (ac_models c)) @ '' model(s): '' @ joined (model_names c)) []
           | Serve args \<Rightarrow>
               let c = override args c in
               (case configure (sv_log_level (ac_server c)) of Inl err \<Rightarrow> Crashed err | Inr level \<Rightarrow> Ran c level)))"

subsection \<open>What starts\<close>

lemma load_config_valid: "load_config ld path = Inr c \<Longrightarrow> valid_app_config c"
  by (auto simp: load_config_def model_validate_def validate_app_config_iff split: option.splits sum.splits json.splits if_splits)

lemma override_keeps: "(override args c)\<lparr>ac_server := ac_server c\<rparr> = c"
  by (simp add: override_def Let_def)

lemma override_frame [simp]:
  "ac_models (override args c) = ac_models c" "ac_scheduler (override args c) = ac_scheduler c"
  "ac_jobs (override args c) = ac_jobs c"
  by (simp_all add: override_def Let_def)

lemma override_port:
  "sv_port (ac_server (override args c)) =
     (case sa_port args of None \<Rightarrow> sv_port (ac_server c) | Some p \<Rightarrow> if p = 0 then sv_port (ac_server c) else p)"
  by (simp add: override_def Let_def split: option.split)

text \<open>
  What a start comes to: the exit code is 2 exactly when the file could not be loaded, and then
  nothing was started; a server runs only for \<open>serve\<close> and only on what a valid configuration file says,
  but for host, port and log level; and \<open>validate\<close> never starts one.
\<close>

theorem startup_outcomes:
  "case cli_main ld cmd of
     Exit code out err \<Rightarrow> code = 2 \<and> out = [] \<and> (\<exists>why. load_config ld (command_path cmd) = Inl why \<and> err = ''config error: '' @ why)
       \<or> code = 0 \<and> err = [] \<and> (\<exists>c. load_config ld (command_path cmd) = Inr c \<and> valid_app_config c \<and> cmd = Validate (command_path cmd))
   | Ran c level \<Rightarrow> (\<exists>args c0. cmd = Serve args \<and> load_config ld (sa_config args) = Inr c0 \<and> valid_app_config c0
       \<and> c\<lparr>ac_server := ac_server c0\<rparr> = c0)
   | Crashed err \<Rightarrow> (\<exists>args c0. cmd = Serve args \<and> load_config ld (sa_config args) = Inr c0
       \<and> configure (sv_log_level (ac_server (override args c0))) = Inl err)"
proof (cases cmd)
  case (Serve args)
  then show ?thesis
    using load_config_valid override_keeps
    by (auto simp: cli_main_def Let_def split: sum.split)
next
  case (Validate path)
  then show ?thesis
    using load_config_valid by (auto simp: cli_main_def split: sum.split)
qed

text \<open>
  C38. A started router is the application of the model: unless the command line overrides the port
  with one that no configuration could have, the application starts in a state from which
  everything proved of it holds.
\<close>

theorem started_router_is_the_application:
  assumes "cli_main ld (Serve args) = Ran c level"
    and "case sa_port args of None \<Rightarrow> True | Some p \<Rightarrow> 0 \<le> p \<and> p \<le> 65535"
  shows "app_reachable c t0 (init_app c t0)"
proof -
  obtain c0 where c0: "valid_app_config c0" "c = override args c0"
    using assms(1) load_config_valid by (auto simp: cli_main_def Let_def split: sum.splits)
  have "valid_app_config c"
    using c0 assms(2) override_port [of args c0]
    by (auto simp: valid_app_config_def model_names_def served_model_names_def split: option.splits if_splits)
  then show ?thesis by (rule app_reachable.init)
qed

text \<open>A loader for one file, whose text is its own parse.\<close>

definition one_file :: loader where
  "one_file = \<lparr>ld_files = (\<lambda>path. if path = ''config.yaml'' then Some [] else None),
     ld_yaml = (\<lambda>_. Inr (JObj [])), ld_coerce = (\<lambda>_. Inr example_config), ld_describe = (\<lambda>_. ''invalid'')\<rparr>"

lemma one_file_serves:
  "cli_main one_file (parsed_serve None None port None)
    = Ran (override \<lparr>sa_config = ''config.yaml'', sa_host = None, sa_port = port, sa_log_level = None\<rparr> example_config) 20"
proof -
  have "load_config one_file ''config.yaml'' = Inr example_config"
    by (simp add: load_config_def one_file_def model_validate_def example_config_valid)
  moreover have "sv_log_level (ac_server (override \<lparr>sa_config = p, sa_host = None, sa_port = q, sa_log_level = None\<rparr> c))
      = sv_log_level (ac_server c)" for p q c
    by (simp add: override_def Let_def split: option.split)
  moreover have "configure (sv_log_level (ac_server example_config)) = Inr 20" by code_simp
  ultimately show ?thesis by (simp add: cli_main_def parsed_serve_def config_option_def Let_def)
qed

theorem started_router_is_the_application_witness:
  "\<exists>c. cli_main one_file (parsed_serve None None (Some 9000) None) = Ran c 20
     \<and> sv_port (ac_server c) = 9000 \<and> app_reachable c 0 (init_app c 0)"
  using started_router_is_the_application [OF one_file_serves [unfolded parsed_serve_def], of "Some 9000" 0]
  by (simp add: one_file_serves override_port)

text \<open>The options are set on the validated object, and nothing validates them again.\<close>

theorem port_option_escapes_validation:
  "\<exists>c. cli_main one_file (parsed_serve None None (Some 70000) None) = Ran c 20
     \<and> validate_app_config c = Inl (OutOfRange ''port'')"
proof -
  have "check_server_config (ac_server (override \<lparr>sa_config = ''config.yaml'', sa_host = None, sa_port = Some 70000,
      sa_log_level = None\<rparr> example_config)) = Some (OutOfRange ''port'')"
    by (simp add: check_server_config_def override_port)
  then show ?thesis by (simp add: one_file_serves validate_app_config_def)
qed

end
