(* ===== verification/Spec2Isabelle.thy ===== *)
theory Spec2Isabelle
  imports Sir_Prelude Sir_Types Sir_Config Sir_Policy Sir_Queues Sir_Engine_Liveness Sir_Schemas Sir_Jobs Sir_App
    Sir_Gpu Sir_Requests Sir_Fifo Sir_Estimates Sir_Swap Sir_Json Sir_Stream Sir_Backend Sir_Client_App Sir_Session Sir_Clock Sir_Format Sir_Cli
begin

text \<open>
  The inference router \<open>sir\<close>: one OpenAI-compatible endpoint in front of several language models
  that do not fit on the GPU together, and one scheduler that decides which of them is loaded.

  The program. Clients post completion requests to the API (\<open>src/src/sir/api.py\<close>), which accepts
  them for every configured model and puts them on the queue of their model (\<open>queues.py\<close>). The
  engine (\<open>engine.py\<close>) runs one control loop: it takes a snapshot, asks the pure policy
  (\<open>policy.py\<close>) for a decision, and dispatches to the resident backend, or drains, unloads and
  loads another one. A task per request pumps the backend's stream (\<open>backends/\<close>) into the event
  channel of the request, which the API renders as one response, as server-sent events, or, through
  the job store (\<open>jobs.py\<close>), as a document to poll. The Python client (\<open>src/clients/python\<close>)
  submits, polls and cancels.

  Theories, in the order of their imports.
  \<^item> \<open>Sir_Prelude\<close>: the time type, Python's \<open>max\<close>, bounded deques, string functions and rounding;
    the collections \<open>policy_simps\<close>, \<open>queue_simps\<close>, \<open>engine_simps\<close>, \<open>job_simps\<close>.
  \<^item> \<open>Sir_Types\<close>: requests, stream events, what the policy reads, decisions, events (\<open>types.py\<close>).
  \<^item> \<open>Sir_Config\<close>: the configuration, its defaults, bounds and validators (\<open>config.py\<close>). The
    validator accepts exactly the configurations a declarative predicate describes.
  \<^item> \<open>Sir_Policy\<close>: \<open>score_model\<close>, \<open>decide\<close>, \<open>estimate_wait\<close> (\<open>policy.py\<close>). When the ceiling makes a
    swap mandatory, what a swap that was scored needs, and that targets can be served.
  \<^item> \<open>Sir_Queues\<close>: the FIFO queues over an explicit store of requests (\<open>queues.py\<close>). The contract of
    a queue is a locale over an abstraction function, interpreted on the model.
  \<^item> \<open>Sir_Engine\<close>: the engine, cut at its awaits; \<open>eng_pc\<close> says which await the loop is in, and
    \<open>engine_step\<close> is the step relation of engine and environment. \<open>Sir_Engine_Inv\<close> states the
    invariant, \<open>Sir_Engine_Steps\<close> that every step keeps it, \<open>Sir_Engine_Run\<close> makes runs computable,
    \<open>Sir_Engine_Props\<close>, \<open>Sir_Engine_Safety\<close> and \<open>Sir_Engine_Liveness\<close> prove the properties: one backend
    on the GPU, the life of a request, order of service, no kill without a reason, the starvation
    ceiling acted on, containment of a crash, and shutdown. \<open>Sir_Alive\<close>: only \<open>stop\<close> ends the loop.
    \<open>Sir_Swap\<close>: a swap ends with the requests of its target running.
    \<open>Sir_Requests\<close>: the locale \<open>request_invariant\<close> of what is kept when the code that touches store,
    queues, time and the means of service keeps it. Its two interpretations: in \<open>Sir_Fifo\<close> the order
    of arrival, so that nobody is overtaken in any run; in \<open>Sir_Estimates\<close> the bounds of the moving
    average, so that the estimates of the wait stay within what the engine has seen.
  \<^item> \<open>Sir_Schemas\<close>, \<open>Sir_Jobs\<close>, \<open>Sir_Api\<close>: wire types (\<open>schemas.py\<close>), the job store (\<open>jobs.py\<close>), the
    handlers and renderings (\<open>api.py\<close>).
  \<^item> \<open>Sir_App\<close>: engine and job store as one step relation. Seen from the engine, every step of the
    application is a sequence of engine steps (a refinement), so that the engine's invariants hold in the
    application; the three renderings of a stream agree; documents are well formed; leases.
  \<^item> \<open>Sir_Gpu\<close>: an abstract machine of what happens to the GPU (free, loading, serving, releasing,
    abandoned) and the refinement: engine and application, seen through \<open>gpu_view\<close>, take only its
    steps. The locale \<open>simulation\<close> carries step-by-step refinements to runs; the refinement of the
    machine by the engine and of the engine by the application are its two interpretations.
  \<^item> \<open>Sir_Json\<close>: \<open>json.dumps\<close> and \<open>json.loads\<close> of Python's standard library: an automaton for the
    tokens, a parser with a stack, and that what is written is read back.
  \<^item> \<open>Sir_Vllm\<close>, \<open>Sir_Stream\<close>: the vLLM backend (\<open>backends/vllm.py\<close>): life cycle, requests to
    Docker, request and stream reading, its composition with the engine, and the round trip of one
    router behind another, over the codec of \<open>Sir_Json\<close>. \<open>Sir_Mock\<close>: the simulated backend (\<open>backends/mock.py\<close>). \<open>Sir_Backend\<close>: the
    contract of \<open>backend.py\<close> as the locale \<open>token_stream\<close>, interpreted for both backends: what a client
    is answered is what its backend said.
  \<^item> \<open>Sir_Clock\<close>: the virtual clock (\<open>clock.py\<close>); advancing and driving it return.
  \<^item> \<open>Sir_Client\<close>, \<open>Sir_Session\<close>, \<open>Sir_Client_App\<close>: the Python client (\<open>client.py\<close>, \<open>registry.py\<close>), its
    object and the shared client of the module (\<open>__init__.py\<close>), and the client against the router.
  \<^item> \<open>Sir_Status\<close>, \<open>Sir_Format\<close>: status page, model list, log records and the lines they are written as,
    which \<open>json.loads\<close> reads back; discovery of a router by the client, from the document it serves; the lines of the \<open>format\<close> methods, with Python's number formats, and reading them back.
  \<^item> \<open>Sir_Cli\<close>: \<open>load_config\<close>, the log level, and \<open>main\<close> of \<open>cli.py\<close>; what starts is the application of
    the model.

  How the code is modelled. Objects shared between queues, tasks and jobs are entries of a store from
  request ids to records. An \<open>asyncio.Queue\<close> is the list of what was put on it, and every reader keeps
  its position. A coroutine is one function per stretch between two awaits. Exceptions are values:
  \<open>None\<close> for a KeyError that would escape the loop, \<open>py_error\<close> and \<open>client_error\<close> elsewhere. Floats are
  rationals, so sums are exact and infinities and NaN do not occur; integers are unbounded, as in
  Python. The clock does not move within a stretch of code. A task has entered its body before it can be
  cancelled: it is created by \<open>_dispatch\<close>, the loop awaits before anything of it runs again, and the
  event loop runs callbacks in the order they became ready. Strings are lists of code points below
  256. What HTTP, Docker, uuid and pydantic do enters as arguments: answers, ids, and, for the
  JSON pydantic writes, a codec with the law that what is written is read back, which \<open>json.dumps\<close> and
  \<open>json.loads\<close> are proved to keep.

  Bounds and loops. Only loops the environment can keep going are not total functions: waiting for
  vLLM's health, the polling loop of the client, and the virtual clock's advance and drive are partial functions
  with \<open>None\<close> for not returning, and there are theorems that they return (under a timeout, a deadline,
  and a least sleep). Nothing has fuel.

  Not modelled. The libraries: argparse, uvicorn, FastAPI's parsing, pydantic's coercions, the YAML
  parser, the handlers of the logging library, httpx and Docker; what they yield enters as
  arguments. The real clock is the operating system. Of the API the watcher's polling interval is
  left out: a client that goes away is a step that may happen at any time. The TypeScript client
  repeats the Python one in another language. Tests and deployment files are not the program.
\<close>

end
